(* ===== verification/Prelude.thy ===== *)
theory Prelude
  imports Main "HOL-Library.Word" "HOL-Library.List_Lexorder"
begin

unbundle bit_operations_syntax

text \<open>
  Shared ground of the development: the machine types of the C sources, C strings, little-endian
  integers, and the number formats of \<^verbatim>\<open>printf\<close>/\<^verbatim>\<open>scanf\<close> the sources use, with the lemmas on them
  that the component theories rely on.  Memory is a list of bytes; a \<^verbatim>\<open>char *\<close> is the list of the
  bytes from the pointer to the end of the object it points into.
\<close>

section \<open>Types and lemma collections\<close>

type_synonym byte = "8 word"
type_synonym u16 = "16 word"
type_synonym u32 = "32 word"
type_synonym u64 = "64 word"
type_synonym bytes = "byte list"

named_theorems codec \<open>inverse laws of encoders and decoders\<close>
named_theorems lens \<open>lengths of encoded data\<close>
named_theorems wf \<open>well-formedness of the data an operation produces\<close>

section \<open>C strings\<close>

text \<open>A string literal as the bytes the compiler stores (without the terminating NUL).\<close>

definition str :: "string \<Rightarrow> bytes" where
  "str s = map of_char s"

text \<open>The C string that starts at a pointer: the bytes before the first NUL.\<close>

definition cstr :: "bytes \<Rightarrow> bytes" where
  "cstr m = takeWhile (\<lambda>c. c \<noteq> 0) m"

abbreviation has_nul :: "bytes \<Rightarrow> bool" where
  "has_nul m \<equiv> 0 \<in> set m"

abbreviation no_nul :: "bytes \<Rightarrow> bool" where
  "no_nul m \<equiv> 0 \<notin> set m"

lemma str_Nil [simp]: "str [] = []"
  and str_Cons [simp]: "str (c # s) = of_char c # str s"
  and str_append [simp]: "str (s @ t) = str s @ str t"
  and length_str [simp]: "length (str s) = length s"
  by (simp_all add: str_def)

lemma takeWhile_all_append:
  "(\<forall>x\<in>set xs. P x) \<Longrightarrow> takeWhile P (xs @ ys) = xs @ takeWhile P ys"
  by (induction xs) auto

lemma cstr_append_nul [simp]: "no_nul s \<Longrightarrow> cstr (s @ 0 # m) = s"
  unfolding cstr_def by (subst takeWhile_all_append) auto

lemma cstr_no_nul [simp]: "no_nul s \<Longrightarrow> cstr s = s"
  unfolding cstr_def by (auto simp: takeWhile_eq_all_conv)

lemma cstr_Nil [simp]: "cstr [] = []"
  by (simp add: cstr_def)

lemma cstr_append_zeros: "no_nul s \<Longrightarrow> 0 < n \<Longrightarrow> cstr (s @ replicate n 0) = s"
  by (cases n) auto

lemma no_nul_cstr [simp]: "no_nul (cstr m)"
  unfolding cstr_def by (auto dest: set_takeWhileD)

lemma length_cstr_le: "length (cstr m) \<le> length m"
  unfolding cstr_def by (rule length_takeWhile_le)

lemma length_cstr_less: "has_nul m \<Longrightarrow> length (cstr m) < length m"
  unfolding cstr_def by (induction m) auto

section \<open>Little-endian integers\<close>

text \<open>
  The index file holds the structures of \<^verbatim>\<open>cache.h\<close> in native byte order; the model fixes the
  little-endian order of the platforms the program is built for.
\<close>

definition le16 :: "u16 \<Rightarrow> bytes" where
  "le16 w = [ucast w, ucast (drop_bit 8 w)]"

definition le32 :: "u32 \<Rightarrow> bytes" where
  "le32 w = [ucast w, ucast (drop_bit 8 w), ucast (drop_bit 16 w), ucast (drop_bit 24 w)]"

definition get16 :: "bytes \<Rightarrow> nat \<Rightarrow> u16" where
  "get16 m i = ucast (m ! i) OR push_bit 8 (ucast (m ! (i + 1)))"

definition get32 :: "bytes \<Rightarrow> nat \<Rightarrow> u32" where
  "get32 m i = ucast (m ! i) OR push_bit 8 (ucast (m ! (i + 1)))
     OR push_bit 16 (ucast (m ! (i + 2))) OR push_bit 24 (ucast (m ! (i + 3)))"

lemma length_le16 [simp, lens]: "length (le16 w) = 2"
  by (simp add: le16_def)

lemma length_le32 [simp, lens]: "length (le32 w) = 4"
  by (simp add: le32_def)

lemma get16_le16 [codec]: "i = length xs \<Longrightarrow> get16 (xs @ le16 w @ ys) i = w"
  unfolding get16_def le16_def
  by (rule bit_word_eqI) (auto simp: nth_append bit_simps)

lemma get32_le32 [codec]:
  assumes "i = length xs"
  shows "get32 (xs @ le32 w @ ys) i = w"
proof (rule bit_word_eqI)
  fix n assume "n < LENGTH(32)"
  then consider "n < 8" | "8 \<le> n" "n < 16" | "16 \<le> n" "n < 24" | "24 \<le> n" "n < 32"
    by (auto simp: not_less) linarith
  then show "bit (get32 (xs @ le32 w @ ys) i) n = bit w n"
    unfolding get32_def le32_def using assms by cases (auto simp: nth_append bit_simps)
qed

section \<open>Numbers as text\<close>

text \<open>The digits of a number in a base up to 16, most significant first, as \<^verbatim>\<open>printf\<close> writes them.\<close>

definition digit_char :: "nat \<Rightarrow> byte" where
  "digit_char d = (if d < 10 then 48 + of_nat d else 87 + of_nat d)"

fun digits :: "nat \<Rightarrow> nat \<Rightarrow> bytes" where
  "digits b n = (if b < 2 \<or> n < b then [digit_char n] else digits b (n div b) @ [digit_char (n mod b)])"

declare digits.simps [simp del]

text \<open>\<^verbatim>\<open>%lu\<close>/\<^verbatim>\<open>%d\<close> of a non-negative value, \<^verbatim>\<open>%o\<close> and \<^verbatim>\<open>%02x\<close>.\<close>

abbreviation fmt_dec :: "nat \<Rightarrow> bytes" where
  "fmt_dec \<equiv> digits 10"

abbreviation fmt_oct :: "nat \<Rightarrow> bytes" where
  "fmt_oct \<equiv> digits 8"

definition fmt_02x :: "nat \<Rightarrow> bytes" where
  "fmt_02x n = (let ds = digits 16 n in replicate (2 - length ds) 48 @ ds)"

text \<open>The value of a digit character in a base, as the \<^verbatim>\<open>scanf\<close> conversions accept it.\<close>

definition digit_val :: "nat \<Rightarrow> byte \<Rightarrow> nat option" where
  "digit_val b c = (let n = unat c;
      d = (if 48 \<le> n \<and> n \<le> 57 then n - 48
           else if 97 \<le> n \<and> n \<le> 102 then n - 87
           else if 65 \<le> n \<and> n \<le> 70 then n - 55 else b)
    in if d < b then Some d else None)"

fun scan_digits :: "nat \<Rightarrow> nat \<Rightarrow> bytes \<Rightarrow> nat \<times> bytes" where
  "scan_digits b acc [] = (acc, [])"
| "scan_digits b acc (c # cs) =
     (case digit_val b c of None \<Rightarrow> (acc, c # cs) | Some d \<Rightarrow> scan_digits b (acc * b + d) cs)"

definition is_space :: "byte \<Rightarrow> bool" where
  "is_space c \<longleftrightarrow> c = 32 \<or> (9 \<le> c \<and> c \<le> 13)"

abbreviation skip_space :: "bytes \<Rightarrow> bytes" where
  "skip_space \<equiv> dropWhile is_space"

text \<open>
  An unsigned \<^verbatim>\<open>scanf\<close> conversion (\<^verbatim>\<open>%lu\<close>, \<^verbatim>\<open>%o\<close>) of a \<open>w\<close>-bit type: white space, an optional
  sign, at least one digit.  As in the C library, the value saturates at the largest one of
  \<^verbatim>\<open>unsigned long\<close> (64 bits), a minus sign negates it there, and it is then cut to the type.
\<close>

definition scan_unsigned :: "nat \<Rightarrow> nat \<Rightarrow> bytes \<Rightarrow> (nat \<times> bytes) option" where
  "scan_unsigned b w s0 = (let s1 = skip_space s0;
      neg = (s1 \<noteq> [] \<and> hd s1 = 45);
      s2 = (if s1 \<noteq> [] \<and> (hd s1 = 45 \<or> hd s1 = 43) then tl s1 else s1)
    in (case s2 of [] \<Rightarrow> None
        | c # _ \<Rightarrow> (case digit_val b c of None \<Rightarrow> None
           | Some _ \<Rightarrow> (let (n, rest) = scan_digits b 0 s2;
               v = (if 2 ^ 64 \<le> n then 2 ^ 64 - 1 else if neg then (2 ^ 64 - n) mod 2 ^ 64 else n)
             in Some (v mod 2 ^ w, rest)))))"


lemma digit_val_digit_char [simp, codec]:
  "d < b \<Longrightarrow> b \<le> 16 \<Longrightarrow> digit_val b (digit_char d) = Some d"
  unfolding digit_val_def digit_char_def
  by (auto simp: Let_def unat_word_ariths unat_of_nat)

lemma digit_char_neq_0 [simp]: "d < 16 \<Longrightarrow> digit_char d \<noteq> 0"
  unfolding digit_char_def by (auto simp: word_unat_eq_iff unat_word_ariths unat_of_nat)

lemma digit_char_not_space [simp]: "d < 16 \<Longrightarrow> \<not> is_space (digit_char d)"
  unfolding digit_char_def is_space_def
  by (auto simp: word_unat_eq_iff word_le_nat_alt unat_word_ariths unat_of_nat)

lemma digit_char_not_sign [simp]:
  "d < 16 \<Longrightarrow> digit_char d \<noteq> 45" "d < 16 \<Longrightarrow> digit_char d \<noteq> 43"
  unfolding digit_char_def by (auto simp: word_unat_eq_iff unat_word_ariths unat_of_nat)

lemma digits_not_Nil [simp]: "digits b n \<noteq> []"
  by (subst digits.simps) simp

lemma set_digits: "2 \<le> b \<Longrightarrow> x \<in> set (digits b n) \<Longrightarrow> \<exists>d<b. x = digit_char d"
proof (induction b n rule: digits.induct)
  case (1 b n)
  show ?case
  proof (cases "n < b")
    case True
    with 1 show ?thesis by (auto simp: digits.simps [of b n])
  next
    case False
    with "1.prems" have "x \<in> set (digits b (n div b)) \<or> x = digit_char (n mod b)" and "n mod b < b"
      by (auto simp: digits.simps [of b n])
    moreover have "\<not> (b < 2 \<or> n < b)" using False "1.prems" by simp
    ultimately show ?thesis using "1.IH" "1.prems"(1) by blast
  qed
qed

lemma no_nul_digits [simp]: "2 \<le> b \<Longrightarrow> b \<le> 16 \<Longrightarrow> no_nul (digits b n)"
  using set_digits [of b 0 n] digit_char_neq_0 by fastforce

lemma hd_digits: "2 \<le> b \<Longrightarrow> \<exists>d<b. hd (digits b n) = digit_char d"
  by (rule set_digits [of b _ n]) auto

lemma length_digits_le: "n < b ^ k \<Longrightarrow> 0 < k \<Longrightarrow> length (digits b n) \<le> k"
proof (induction b n arbitrary: k rule: digits.induct)
  case (1 b n)
  show ?case
  proof (cases "b < 2 \<or> n < b")
    case True
    with 1 show ?thesis by (auto simp: digits.simps [of b n])
  next
    case False
    with "1.prems" obtain j where k: "k = Suc j" "0 < j"
      by (cases k; cases "k - 1") auto
    with False "1.prems" have "n div b < b ^ j"
      by (auto simp: less_mult_imp_div_less mult.commute)
    with "1.IH" [of j] False k have "length (digits b (n div b)) \<le> j" by auto
    with False k show ?thesis by (auto simp: digits.simps [of b n])
  qed
qed

lemma scan_digits_digits:
  "2 \<le> b \<Longrightarrow> b \<le> 16 \<Longrightarrow>
   scan_digits b acc (digits b n @ rest) =
   scan_digits b (acc * b ^ length (digits b n) + n) rest"
proof (induction b n arbitrary: acc rest rule: digits.induct)
  case (1 b n)
  show ?case
  proof (cases "n < b")
    case True
    with 1 show ?thesis by (auto simp: digits.simps [of b n])
  next
    case False
    have "acc * (b * b ^ length (digits b (n div b))) + n div b * b + n mod b =
      (acc * b ^ length (digits b (n div b)) + n div b) * b + n mod b"
      by (simp add: algebra_simps)
    with False 1 show ?thesis by (auto simp: digits.simps [of b n] algebra_simps)
  qed
qed

lemma scan_digits_stop:
  "rest = [] \<or> digit_val b (hd rest) = None \<Longrightarrow> scan_digits b acc rest = (acc, rest)"
  by (cases rest) auto

text \<open>What \<^verbatim>\<open>printf\<close> writes, \<^verbatim>\<open>scanf\<close> reads back.\<close>

lemma scan_unsigned_digits [codec]:
  assumes "2 \<le> b" "b \<le> 16" "n < 2 ^ w" "w \<le> 64"
    and "rest = [] \<or> digit_val b (hd rest) = None"
  shows "scan_unsigned b w (digits b n @ rest) = Some (n, rest)"
proof -
  obtain d where d: "d < b" "hd (digits b n) = digit_char d"
    using hd_digits [OF assms(1)] by blast
  then obtain ds where ds: "digits b n = digit_char d # ds"
    by (metis digits_not_Nil list.collapse)
  have sk: "skip_space (digits b n @ rest) = digits b n @ rest"
    using d assms(2) by (simp add: ds)
  have "n < 2 ^ 64"
    using assms(3,4) by (meson less_le_trans one_le_numeral power_increasing)
  with assms d show ?thesis
    unfolding scan_unsigned_def sk
    using scan_digits_digits [OF assms(1,2), of 0 n rest] scan_digits_stop [OF assms(5), of n]
    by (simp add: ds Let_def)
qed

lemma length_fmt_02x: "n < 256 \<Longrightarrow> length (fmt_02x n) = 2"
  using length_digits_le [of n 16 2] by (auto simp: fmt_02x_def Let_def)

end
