(* ===== verification/Hex.thy ===== *)
theory Hex
  imports Prelude
begin

text \<open>
  Object names: the hexadecimal conversions and the object path of \<^verbatim>\<open>src/read-cache.c\<close>
  (\<^verbatim>\<open>hexval\<close>, \<^verbatim>\<open>get_sha1_hex\<close>, \<^verbatim>\<open>sha1_to_hex\<close>, \<^verbatim>\<open>sha1_file_name\<close>).
  \<open>codec\<close> is the interface of an encoder with its decoder; the object-name conversions are an
  instance of it.
\<close>

section \<open>Definitions\<close>

text \<open>\<^verbatim>\<open>static unsigned hexval(char c)\<close>: the comparisons are on ASCII ranges, \<^verbatim>\<open>~0\<close> otherwise.\<close>

definition hexval :: "byte \<Rightarrow> u32" where
  "hexval c =
     (if of_char (CHR ''0'') \<le> c \<and> c \<le> of_char (CHR ''9'') then ucast c - 48
      else if of_char (CHR ''a'') \<le> c \<and> c \<le> of_char (CHR ''f'') then ucast c - 97 + 10
      else if of_char (CHR ''A'') \<le> c \<and> c \<le> of_char (CHR ''F'') then ucast c - 65 + 10
      else NOT 0)"

text \<open>
  A read at an offset of a C string.  The only reads past the stored bytes are of the byte after a
  NUL that already makes the conversion fail, so its value does not matter.
\<close>

definition rd :: "bytes \<Rightarrow> nat \<Rightarrow> byte" where
  "rd m i = (if i < length m then m ! i else 0)"

text \<open>The loop of \<^verbatim>\<open>get_sha1_hex\<close>, \<open>n\<close> rounds left: \<open>None\<close> is the return value -1.\<close>

fun get_sha1_hex_loop :: "nat \<Rightarrow> bytes \<Rightarrow> bytes option" where
  "get_sha1_hex_loop 0 hex = Some []"
| "get_sha1_hex_loop (Suc n) hex =
     (let val = push_bit 4 (hexval (rd hex 0)) OR hexval (rd hex 1) in
      if val AND NOT 0xff \<noteq> 0 then None
      else map_option (\<lambda>sha1. ucast val # sha1) (get_sha1_hex_loop n (drop 2 hex)))"

definition get_sha1_hex :: "bytes \<Rightarrow> bytes option" where
  "get_sha1_hex hex = get_sha1_hex_loop 20 hex"

text \<open>The table \<^verbatim>\<open>static const char hex[]\<close> and the two characters written for one byte.\<close>

definition hex_table :: bytes where
  "hex_table = str ''0123456789abcdef''"

definition hex2 :: "byte \<Rightarrow> bytes" where
  "hex2 val = [hex_table ! unat (drop_bit 4 val), hex_table ! unat (val AND 0xf)]"

definition sha1_to_hex :: "bytes \<Rightarrow> bytes" where
  "sha1_to_hex sha1 = concat (map (\<lambda>i. hex2 (sha1 ! i)) [0..<20])"

text \<open>
  \<^verbatim>\<open>sha1_file_name\<close>: the static buffer \<^verbatim>\<open>base\<close> of \<open>len + 60\<close> bytes, with the two slashes, and the
  loop that writes the forty digits into it at \<^verbatim>\<open>name + i*2 + (i > 0)\<close>.
\<close>

definition sha1_name_base :: "bytes \<Rightarrow> bytes" where
  "sha1_name_base dir = (dir @ replicate 60 0)[length dir := 47, length dir + 3 := 47]"

definition sha1_name_step :: "nat \<Rightarrow> bytes \<Rightarrow> nat \<Rightarrow> bytes \<Rightarrow> bytes" where
  "sha1_name_step name sha1 i base =
     (let val = sha1 ! i; pos = name + i * 2 + (if 0 < i then 1 else 0) in
      base[pos := hex_table ! unat (drop_bit 4 val), pos + 1 := hex_table ! unat (val AND 0xf)])"

definition sha1_file_name :: "bytes \<Rightarrow> bytes \<Rightarrow> bytes" where
  "sha1_file_name dir sha1 =
     cstr (fold (sha1_name_step (length dir + 1) sha1) [0..<20] (sha1_name_base dir))"

section \<open>The interface of an encoder and its decoder\<close>

locale codec_pair =
  fixes enc :: "'a \<Rightarrow> 'b" and dec :: "'b \<Rightarrow> 'a option" and ok :: "'a \<Rightarrow> bool"
  assumes dec_enc: "ok x \<Longrightarrow> dec (enc x) = Some x"
begin

lemma enc_inj: "ok x \<Longrightarrow> ok y \<Longrightarrow> enc x = enc y \<Longrightarrow> x = y"
  by (metis dec_enc option.inject)

lemma enc_inj_on: "inj_on enc {x. ok x}"
  by (auto intro: inj_onI enc_inj)

end

section \<open>Hexadecimal digits\<close>

lemma hex_table_simps [simp]: "length hex_table = 16"
  by (simp add: hex_table_def)

lemma less_16_cases:
  assumes "n < (16::nat)"
  obtains "n = 0" | "n = 1" | "n = 2" | "n = 3" | "n = 4" | "n = 5" | "n = 6" | "n = 7"
  | "n = 8" | "n = 9" | "n = 10" | "n = 11" | "n = 12" | "n = 13" | "n = 14" | "n = 15"
  using assms by (auto simp: less_Suc_eq numeral_eq_Suc)

lemma hexval_hex_table [codec]: "n < 16 \<Longrightarrow> hexval (hex_table ! n) = of_nat n"
  by (erule less_16_cases) (simp_all add: hexval_def hex_table_def)

lemma hex_table_neq_0: "n < 16 \<Longrightarrow> hex_table ! n \<noteq> 0"
  by (erule less_16_cases) (simp_all add: hex_table_def)

lemma unat_byte_less [simp]: "unat (v::byte) < 256"
  using unsigned_less [of v] by simp

lemma unat_high_nibble [simp]: "unat (drop_bit 4 (v::byte)) < 16"
  using unat_byte_less [of v] by (simp add: drop_bit_eq_div unat_div less_mult_imp_div_less)

lemma low_nibble_eq: "(v::byte) AND 0xf = take_bit 4 v"
  by (simp add: take_bit_eq_mask mask_eq_exp_minus_1)

lemma unat_low_nibble [simp]: "unat ((v::byte) AND 0xf) < 16"
  unfolding low_nibble_eq by (simp add: take_bit_eq_mod unat_mod)

lemma length_hex2 [simp, lens]: "length (hex2 v) = 2"
  by (simp add: hex2_def)

lemma no_nul_hex2 [simp]: "no_nul (hex2 v)"
  using hex_table_neq_0 [OF unat_high_nibble, of v] hex_table_neq_0 [OF unat_low_nibble, of v]
  by (auto simp: hex2_def)

text \<open>The value \<^verbatim>\<open>(hexval(hex[0]) << 4) | hexval(hex[1])\<close> of the two digits of a byte is the byte.\<close>

lemma hex2_value [codec]:
  "push_bit 4 (hexval (rd (hex2 v @ m) 0)) OR hexval (rd (hex2 v @ m) 1) = ucast v"
proof -
  have "push_bit 4 (of_nat (unat (drop_bit 4 v)) :: u32) OR of_nat (unat (v AND 0xf)) = ucast v"
    by (rule bit_word_eqI) (auto simp: bit_simps low_nibble_eq)
  then show ?thesis
    by (simp add: hex2_def rd_def hexval_hex_table)
qed

lemma ucast_byte_high_bits [simp]: "(ucast (v::byte) :: u32) AND - 256 = 0"
proof -
  have "(- 256 :: u32) = NOT (mask 8)" by (simp add: mask_eq_exp_minus_1)
  show ?thesis
    unfolding \<open>- 256 = NOT (mask 8)\<close>
    by (rule bit_word_eqI) (auto simp: bit_simps dest: bit_imp_le_length)
qed

lemma ucast_ucast_byte [simp]: "ucast (ucast (v::byte) :: u32) = v"
  by (rule bit_word_eqI) (auto simp: bit_simps)

lemma get_sha1_hex_loop_hex2:
  "get_sha1_hex_loop n (concat (map hex2 xs) @ m) = Some xs" if "length xs = n"
  using that
proof (induction xs arbitrary: n)
  case (Cons v xs)
  then show ?case
    using hex2_value [of v "concat (map hex2 xs) @ m"] by (auto simp: Let_def)
qed simp

lemma sha1_to_hex_concat: "length sha1 = 20 \<Longrightarrow> sha1_to_hex sha1 = concat (map hex2 sha1)"
  unfolding sha1_to_hex_def
  by (metis (mono_tags, lifting) map_map map_nth comp_def map_eq_conv)

lemma length_sha1_to_hex [simp, lens]: "length (sha1_to_hex sha1) = 40"
  by (simp add: sha1_to_hex_def length_concat comp_def sum_list_triv)

lemma no_nul_sha1_to_hex [simp]: "no_nul (sha1_to_hex sha1)"
  by (auto simp: sha1_to_hex_def)

lemma get_sha1_hex_to_hex [codec]:
  "length sha1 = 20 \<Longrightarrow> get_sha1_hex (sha1_to_hex sha1 @ m) = Some sha1"
  unfolding get_sha1_hex_def by (simp add: sha1_to_hex_concat get_sha1_hex_loop_hex2)

interpretation sha1_hex: codec_pair sha1_to_hex get_sha1_hex "\<lambda>sha1. length sha1 = 20"
  using get_sha1_hex_to_hex [of _ "[]"] by unfold_locales simp

text \<open>Which characters are hexadecimal digits, and that the conversion accepts exactly those.\<close>

definition is_hex :: "byte \<Rightarrow> bool" where
  "is_hex c \<longleftrightarrow> c \<in> set (str ''0123456789abcdefABCDEF'')"

lemma is_hex_ranges: "is_hex c \<longleftrightarrow> 48 \<le> c \<and> c \<le> 57 \<or> 97 \<le> c \<and> c \<le> 102 \<or> 65 \<le> c \<and> c \<le> 70"
  unfolding is_hex_def word_le_nat_alt by (simp add: word_unat_eq_iff) presburger

lemma hexval_not_hex: "\<not> is_hex c \<Longrightarrow> hexval c = - 1"
  by (auto simp: is_hex_ranges hexval_def)

lemma hexval_hex: "is_hex c \<Longrightarrow> take_bit 4 (hexval c) = hexval c"
  unfolding is_hex_def by (simp, elim disjE) (simp_all add: hexval_def)

lemma hex_pair_accepted:
  "(push_bit 4 (hexval a) OR hexval b) AND - 256 = 0 \<longleftrightarrow> is_hex a \<and> is_hex b"
proof -
  have neg: "(- 256 :: u32) = NOT (mask 8)" by (simp add: mask_eq_exp_minus_1)
  have "bit ((push_bit 4 (hexval a) OR hexval b) AND NOT (mask 8)) 31" if "\<not> is_hex a \<or> \<not> is_hex b"
    using that by (auto simp: hexval_not_hex bit_simps)
  moreover have "(push_bit 4 (hexval a) OR hexval b) AND NOT (mask 8) = 0" if "is_hex a" "is_hex b"
  proof -
    have "(push_bit 4 (take_bit 4 (hexval a)) OR take_bit 4 (hexval b)) AND NOT (mask 8) = 0"
      by (rule bit_word_eqI) (auto simp: bit_simps)
    with that show ?thesis by (simp add: hexval_hex)
  qed
  ultimately show ?thesis unfolding neg by fastforce
qed

lemma get_sha1_hex_loop_iff:
  "get_sha1_hex_loop n hex \<noteq> None \<longleftrightarrow> 2 * n \<le> length hex \<and> (\<forall>i<2 * n. is_hex (hex ! i))"
proof (induction n arbitrary: hex)
  case (Suc n)
  have zero: "\<not> is_hex 0" by (simp add: is_hex_def)
  show ?case
  proof (cases "\<exists>a b m. hex = a # b # m")
    case True
    then obtain a b m where hex: "hex = a # b # m" by blast
    have "(\<forall>i<2 * Suc n. is_hex (hex ! i)) \<longleftrightarrow> is_hex a \<and> is_hex b \<and> (\<forall>i<2 * n. is_hex (m ! i))"
      unfolding hex by (auto simp: nth_Cons less_Suc_eq_0_disj split: nat.splits)
    with Suc [of m] show ?thesis by (auto simp: hex rd_def Let_def hex_pair_accepted)
  next
    case False
    then have "length hex < 2" by (cases hex; cases "tl hex") auto
    then show ?thesis
      using zero by (auto simp: Let_def hex_pair_accepted rd_def)
  qed
qed simp

section \<open>The object path\<close>

lemma list20:
  assumes "length xs = 20"
  obtains a0 a1 a2 a3 a4 a5 a6 a7 a8 a9 b0 b1 b2 b3 b4 b5 b6 b7 b8 b9
  where "xs = [a0,a1,a2,a3,a4,a5,a6,a7,a8,a9,b0,b1,b2,b3,b4,b5,b6,b7,b8,b9]"
  using assms by (auto simp: numeral_eq_Suc length_Suc_conv)

lemma upt_20: "[0..<20] = [0,1,2,3,4,5,6,7,8,9,10,11,12,13,14,15,16,17,18,19]"
  by (simp add: upt_rec)

lemma sha1_file_name_buffer:
  assumes "length sha1 = 20"
  shows "fold (sha1_name_step (length dir + 1) sha1) [0..<20] (sha1_name_base dir) =
    dir @ 47 # hex2 (hd sha1) @ 47 # concat (map hex2 (tl sha1)) @ replicate 18 0"
  using assms
  by (elim list20)
    (simp add: upt_20 sha1_name_step_def sha1_name_base_def hex2_def list_update_append
      numeral_eq_Suc)

lemma sha1_file_name_eq:
  assumes "length sha1 = 20" "no_nul dir"
  shows "sha1_file_name dir sha1 = dir @ 47 # hex2 (hd sha1) @ 47 # concat (map hex2 (tl sha1))"
  unfolding sha1_file_name_def sha1_file_name_buffer [OF assms(1)]
  using assms cstr_append_zeros
    [of "dir @ 47 # hex2 (hd sha1) @ 47 # concat (map hex2 (tl sha1))" 18]
  by simp

lemma sha1_file_name_inj:
  assumes "no_nul dir" "length s = 20" "length t = 20" "sha1_file_name dir s = sha1_file_name dir t"
  shows "s = t"
proof -
  have split: "concat (map hex2 u) = hex2 (hd u) @ concat (map hex2 (tl u))" if "length u = 20" for u
    using that by (cases u) auto
  have "sha1_to_hex s = sha1_to_hex t"
    using assms split [of s] split [of t] by (simp add: sha1_file_name_eq sha1_to_hex_concat)
  with assms show ?thesis by (auto intro: sha1_hex.enc_inj)
qed

end
