(* ===== verification/OS.thy ===== *)
theory OS
  imports Hex
begin

text \<open>
  The machine the program runs on: a POSIX file system, the environment, the standard streams and
  \<^verbatim>\<open>errno\<close>, the global variables of \<^verbatim>\<open>src/cache.h\<close>, and the outcomes a C function can have.
  A file descriptor is identified with the path it was opened at: the program never renames or
  unlinks a file that it goes on using through a descriptor.  Every system call may be refused by
  the operating system (\<open>fault\<close>), and a file may have room for fewer bytes than are written to it
  (\<open>room\<close>); both are arbitrary functions of the state, so a theorem holds whatever fails.
\<close>

section \<open>Files\<close>

datatype errno = E_OK | ENOENT | EEXIST | EACCES | EBUSY | EINVAL | ENOTDIR | EIO

datatype sysop = SysOpen | SysCreat | SysMkdir | SysAccess | SysStat | SysFstat | SysMmap
  | SysRename | SysUnlink | SysMkstemp

text \<open>The fields of \<^verbatim>\<open>struct stat\<close> that the program reads, at their Linux widths.\<close>

record stat =
  st_dev :: u64
  st_ino :: u64
  st_mode :: u32
  st_uid :: u32
  st_gid :: u32
  st_size :: u64
  st_mtim_sec :: u64
  st_mtim_nsec :: u64
  st_ctim_sec :: u64
  st_ctim_nsec :: u64

datatype inode = Directory stat | Regular stat bytes

fun inode_stat :: "inode \<Rightarrow> stat" where
  "inode_stat (Directory s) = s"
| "inode_stat (Regular s d) = s\<lparr>st_size := of_nat (length d)\<rparr>"

text \<open>The bits of \<^verbatim>\<open>S_ISDIR\<close>.\<close>

definition S_ISDIR :: "u32 \<Rightarrow> bool" where
  "S_ISDIR m \<longleftrightarrow> m AND 0xf000 = 0x4000"

section \<open>State and outcomes\<close>

text \<open>
  \<^verbatim>\<open>active_cache\<close> is a type parameter here (\<^verbatim>\<open>struct cache_entry\<close> is declared in theory \<open>Cache\<close>):
  \<open>None\<close> is the null pointer, \<open>Some slots\<close> an array of \<open>active_alloc\<close> pointers, each \<open>None\<close> while
  the program has not stored an entry there.
\<close>

record 'ce world =
  fs :: "bytes \<Rightarrow> inode option"
  env :: "bytes \<Rightarrow> bytes option"
  fault :: "sysop \<Rightarrow> bytes \<Rightarrow> errno option"
  room :: "bytes \<Rightarrow> nat option"
  new_stat :: "bytes \<Rightarrow> stat"
  errno :: errno
  stdin :: bytes
  stdout :: bytes
  stderr :: bytes
  active_cache :: "'ce option list option"
  active_nr :: u32
  active_alloc :: u32

text \<open>
  A call returns, ends the process with \<^verbatim>\<open>exit(n)\<close>, or does something the C language leaves
  undefined (a null or out-of-range access).
\<close>

datatype ('a, 'w) outcome = Ret 'a 'w | Exit nat 'w | Undef

fun bindO :: "('a, 'w) outcome \<Rightarrow> ('a \<Rightarrow> 'w \<Rightarrow> ('b, 'w) outcome) \<Rightarrow> ('b, 'w) outcome" where
  "bindO (Ret a w) f = f a w"
| "bindO (Exit n w) f = Exit n w"
| "bindO Undef f = Undef"

fun outcome_world :: "('a, 'w) outcome \<Rightarrow> 'w option" where
  "outcome_world (Ret a w) = Some w"
| "outcome_world (Exit n w) = Some w"
| "outcome_world Undef = None"

definition printf :: "bytes \<Rightarrow> 'ce world \<Rightarrow> 'ce world" where
  "printf s w = w\<lparr>stdout := stdout w @ s\<rparr>"

definition eprintf :: "bytes \<Rightarrow> 'ce world \<Rightarrow> 'ce world" where
  "eprintf s w = w\<lparr>stderr := stderr w @ s\<rparr>"

fun strerror :: "errno \<Rightarrow> bytes" where
  "strerror E_OK = str ''Success''"
| "strerror ENOENT = str ''No such file or directory''"
| "strerror EEXIST = str ''File exists''"
| "strerror EACCES = str ''Permission denied''"
| "strerror EBUSY = str ''Device or resource busy''"
| "strerror EINVAL = str ''Invalid argument''"
| "strerror ENOTDIR = str ''Not a directory''"
| "strerror EIO = str ''Input/output error''"

definition newline :: bytes where
  "newline = [10]"

definition perror :: "bytes \<Rightarrow> 'ce world \<Rightarrow> 'ce world" where
  "perror s w = eprintf (s @ str '': '' @ strerror (errno w) @ newline) w"

definition getenv :: "bytes \<Rightarrow> 'ce world \<Rightarrow> bytes option" where
  "getenv v w = env w v"

section \<open>System calls\<close>

text \<open>The directory part of a path; the empty path stands for the current directory.\<close>

definition parent :: "bytes \<Rightarrow> bytes" where
  "parent p = rev (tl (dropWhile (\<lambda>c. c \<noteq> 47) (rev p)))"

definition is_dir :: "'ce world \<Rightarrow> bytes \<Rightarrow> bool" where
  "is_dir w p \<longleftrightarrow> p = [] \<or> (case fs w p of Some (Directory _) \<Rightarrow> True | _ \<Rightarrow> False)"

definition fail :: "errno \<Rightarrow> 'ce world \<Rightarrow> bool \<times> 'ce world" where
  "fail e w = (False, w\<lparr>errno := e\<rparr>)"

text \<open>\<^verbatim>\<open>open(p, O_RDONLY)\<close>, \<^verbatim>\<open>access(p, mode)\<close>: the file exists and the call is not refused.\<close>

definition sys_exists :: "sysop \<Rightarrow> bytes \<Rightarrow> 'ce world \<Rightarrow> bool \<times> 'ce world" where
  "sys_exists op p w =
     (case fault w op p of Some e \<Rightarrow> fail e w
      | None \<Rightarrow> (if fs w p = None then fail ENOENT w else (True, w)))"

definition open_rdonly :: "bytes \<Rightarrow> 'ce world \<Rightarrow> bool \<times> 'ce world" where
  "open_rdonly p w = sys_exists SysOpen p w"

definition access :: "bytes \<Rightarrow> 'ce world \<Rightarrow> bool \<times> 'ce world" where
  "access p w = sys_exists SysAccess p w"

text \<open>\<^verbatim>\<open>open(p, O_WRONLY | O_CREAT | O_EXCL)\<close> and \<^verbatim>\<open>mkdir(p)\<close>: the path must be new, its directory not.\<close>

definition sys_create :: "sysop \<Rightarrow> (stat \<Rightarrow> inode) \<Rightarrow> bytes \<Rightarrow> 'ce world \<Rightarrow> bool \<times> 'ce world" where
  "sys_create op node p w =
     (case fault w op p of Some e \<Rightarrow> fail e w
      | None \<Rightarrow> (if fs w p \<noteq> None then fail EEXIST w
                 else if \<not> is_dir w (parent p) then fail ENOENT w
                 else (True, w\<lparr>fs := (fs w)(p \<mapsto> node (new_stat w p))\<rparr>)))"

definition open_excl :: "bytes \<Rightarrow> 'ce world \<Rightarrow> bool \<times> 'ce world" where
  "open_excl p w = sys_create SysCreat (\<lambda>s. Regular s []) p w"

definition mkdir :: "bytes \<Rightarrow> 'ce world \<Rightarrow> bool \<times> 'ce world" where
  "mkdir p w = sys_create SysMkdir Directory p w"

definition sys_stat :: "sysop \<Rightarrow> bytes \<Rightarrow> 'ce world \<Rightarrow> stat option \<times> 'ce world" where
  "sys_stat op p w =
     (case fault w op p of Some e \<Rightarrow> (None, w\<lparr>errno := e\<rparr>)
      | None \<Rightarrow> (case fs w p of None \<Rightarrow> (None, w\<lparr>errno := ENOENT\<rparr>)
                  | Some i \<Rightarrow> (Some (inode_stat i), w)))"

definition fstat :: "bytes \<Rightarrow> 'ce world \<Rightarrow> stat option \<times> 'ce world" where
  "fstat p w = sys_stat SysFstat p w"

definition stat_path :: "bytes \<Rightarrow> 'ce world \<Rightarrow> stat option \<times> 'ce world" where
  "stat_path p w = sys_stat SysStat p w"

text \<open>
  A private read-only mapping of a whole file.  A mapping of length 0 and one of a directory are
  refused, as by Linux.
\<close>

definition mmap :: "bytes \<Rightarrow> 'ce world \<Rightarrow> bytes option \<times> 'ce world" where
  "mmap p w =
     (case fault w SysMmap p of Some e \<Rightarrow> (None, w\<lparr>errno := e\<rparr>)
      | None \<Rightarrow> (case fs w p of Some (Regular s d) \<Rightarrow>
                      (if d = [] then (None, w\<lparr>errno := EINVAL\<rparr>) else (Some d, w))
                  | _ \<Rightarrow> (None, w\<lparr>errno := EINVAL\<rparr>)))"

text \<open>\<^verbatim>\<open>write\<close> at the end of an open file: as many bytes as there is room for; the count is returned.\<close>

definition write_fd :: "bytes \<Rightarrow> bytes \<Rightarrow> 'ce world \<Rightarrow> nat \<times> 'ce world" where
  "write_fd p buf w =
     (case fs w p of Some (Regular s d) \<Rightarrow>
        (let n = (case room w p of None \<Rightarrow> length buf | Some r \<Rightarrow> min (length buf) (r - length d))
         in (n, w\<lparr>fs := (fs w)(p \<mapsto> Regular s (d @ take n buf))\<rparr>))
      | _ \<Rightarrow> (0, w))"

definition rename :: "bytes \<Rightarrow> bytes \<Rightarrow> 'ce world \<Rightarrow> bool \<times> 'ce world" where
  "rename p q w =
     (case fault w SysRename p of Some e \<Rightarrow> fail e w
      | None \<Rightarrow> (case fs w p of None \<Rightarrow> fail ENOENT w
                  | Some i \<Rightarrow> (True, w\<lparr>fs := (fs w)(q \<mapsto> i, p := None)\<rparr>)))"

definition unlink :: "bytes \<Rightarrow> 'ce world \<Rightarrow> bool \<times> 'ce world" where
  "unlink p w =
     (case fault w SysUnlink p of Some e \<Rightarrow> fail e w
      | None \<Rightarrow> (if fs w p = None then fail ENOENT w else (True, w\<lparr>fs := (fs w)(p := None)\<rparr>)))"

lemmas sys_defs = open_rdonly_def access_def sys_exists_def open_excl_def mkdir_def sys_create_def
  fstat_def stat_path_def sys_stat_def mmap_def rename_def unlink_def fail_def
lemmas out_defs = printf_def eprintf_def perror_def

text \<open>What each call leaves alone.\<close>

lemma fs_out [simp]: "fs (printf s w) = fs w" "fs (eprintf s w) = fs w" "fs (perror s w) = fs w"
  by (simp_all add: out_defs)

lemma cache_out [simp]:
  "active_cache (printf s w) = active_cache w" "active_cache (eprintf s w) = active_cache w"
  "active_cache (perror s w) = active_cache w" "active_nr (printf s w) = active_nr w"
  "active_nr (eprintf s w) = active_nr w" "active_nr (perror s w) = active_nr w"
  by (simp_all add: out_defs)

lemma bindO_Undef_iff:
  "bindO m f = Undef \<longleftrightarrow> m = Undef \<or> (\<exists>a w. m = Ret a w \<and> f a w = Undef)"
  by (cases m) auto


lemma bindO_Exit_iff:
  "bindO m f = Exit n w' \<longleftrightarrow> m = Exit n w' \<or> (\<exists>a w. m = Ret a w \<and> f a w = Exit n w')"
  by (cases m) auto

lemma bindO_Ret_iff:
  "bindO m f = Ret b w' \<longleftrightarrow> (\<exists>a w. m = Ret a w \<and> f a w = Ret b w')"
  by (cases m) auto

end
