(* ===== verification/Sorted_Index.thy ===== *)
theory Sorted_Index
  imports Prelude
begin

text \<open>
  What a name-ordered index promises, independently of how it is stored: the reference operations
  on a list of entries with strictly increasing keys, and the interface (\<open>name_index\<close>) an
  implementation has to meet.  The array of \<^verbatim>\<open>active_cache\<close> is one implementation.
\<close>

section \<open>Reference operations\<close>

definition key_sorted :: "('e \<Rightarrow> 'k::linorder) \<Rightarrow> 'e list \<Rightarrow> bool" where
  "key_sorted key es \<longleftrightarrow> sorted_wrt (<) (map key es)"

definition insert_key :: "('e \<Rightarrow> 'k::linorder) \<Rightarrow> 'e \<Rightarrow> 'e list \<Rightarrow> 'e list" where
  "insert_key key e es = filter (\<lambda>x. key x < key e) es @ e # filter (\<lambda>x. key e < key x) es"

definition delete_key :: "('e \<Rightarrow> 'k::linorder) \<Rightarrow> 'k \<Rightarrow> 'e list \<Rightarrow> 'e list" where
  "delete_key key k es = filter (\<lambda>x. key x \<noteq> k) es"

definition find_key :: "('e \<Rightarrow> 'k::linorder) \<Rightarrow> 'k \<Rightarrow> 'e list \<Rightarrow> 'e option" where
  "find_key key k es = find (\<lambda>x. key x = k) es"

text \<open>The position of a key: how many entries come before it.\<close>

definition key_pos :: "('e \<Rightarrow> 'k::linorder) \<Rightarrow> 'k \<Rightarrow> 'e list \<Rightarrow> nat" where
  "key_pos key k es = length (filter (\<lambda>x. key x < k) es)"

lemma key_sorted_Nil [simp]: "key_sorted key []"
  by (simp add: key_sorted_def)

lemma key_sorted_Cons: "key_sorted key (e # es) \<longleftrightarrow> (\<forall>x\<in>set es. key e < key x) \<and> key_sorted key es"
  by (auto simp: key_sorted_def)

lemma key_sorted_append:
  "key_sorted key (xs @ ys) \<longleftrightarrow>
   key_sorted key xs \<and> key_sorted key ys \<and> (\<forall>x\<in>set xs. \<forall>y\<in>set ys. key x < key y)"
  by (auto simp: key_sorted_def sorted_wrt_append)

lemma key_sorted_filter: "key_sorted key es \<Longrightarrow> key_sorted key (filter P es)"
  by (induction es) (auto simp: key_sorted_Cons)

lemma key_sorted_distinct: "key_sorted key es \<Longrightarrow> distinct (map key es)"
  by (induction es) (auto simp: key_sorted_Cons)

lemma key_sorted_insert_key [wf]: "key_sorted key es \<Longrightarrow> key_sorted key (insert_key key e es)"
  unfolding insert_key_def
  by (auto simp: key_sorted_append key_sorted_Cons intro: key_sorted_filter less_trans)

lemma key_sorted_delete_key [wf]: "key_sorted key es \<Longrightarrow> key_sorted key (delete_key key k es)"
  unfolding delete_key_def by (rule key_sorted_filter)

text \<open>Below the position the keys are smaller, from it on they are not.\<close>

lemma filter_less_take:
  "key_sorted key es \<Longrightarrow> filter (\<lambda>x. key x < k) es = take (key_pos key k es) es"
proof (induction es)
  case (Cons e es)
  show ?case
  proof (cases "key e < k")
    case False
    with Cons.prems have "\<forall>x\<in>set es. \<not> key x < k"
      by (auto simp: key_sorted_Cons)
    then have "filter (\<lambda>x. key x < k) es = []" by simp
    with False show ?thesis by (simp add: key_pos_def)
  qed (use Cons in \<open>simp add: key_pos_def key_sorted_Cons\<close>)
qed (simp add: key_pos_def)

lemma filter_greater_drop:
  assumes "key_sorted key es"
  shows "filter (\<lambda>x. k < key x) es =
    drop (key_pos key k es + (if k \<in> key ` set es then 1 else 0)) es"
  using assms
proof (induction es)
  case (Cons e es)
  then have gt: "\<forall>x\<in>set es. key e < key x" by (simp add: key_sorted_Cons)
  consider "key e < k" | "key e = k" | "k < key e" by fastforce
  then show ?case
  proof cases
    case 1
    with Cons show ?thesis by (auto simp: key_pos_def key_sorted_Cons)
  next
    case 2
    with gt have "filter (\<lambda>x. k < key x) es = es" "filter (\<lambda>x. key x < k) es = []"
      by (auto simp: filter_id_conv filter_empty_conv)
    with 2 show ?thesis by (simp add: key_pos_def)
  next
    case 3
    with gt have "filter (\<lambda>x. k < key x) es = es" "filter (\<lambda>x. key x < k) es = []"
      and "k \<notin> key ` set es"
      by (fastforce simp: filter_id_conv filter_empty_conv)+
    with 3 show ?thesis by (auto simp: key_pos_def)
  qed
qed (simp add: key_pos_def)

lemma key_pos_le: "key_pos key k es \<le> length es"
  by (simp add: key_pos_def)

lemma key_pos_nth_less:
  assumes "key_sorted key es" "i < key_pos key k es"
  shows "key (es ! i) < k"
proof -
  have "es ! i \<in> set (take (key_pos key k es) es)"
    using assms key_pos_le [of key k es] by (metis in_set_conv_nth length_take min.absorb2 nth_take)
  then show ?thesis
    by (simp flip: filter_less_take [OF assms(1)])
qed

lemma key_pos_nth_ge:
  assumes "key_sorted key es" "key_pos key k es \<le> i" "i < length es"
  shows "k \<le> key (es ! i)"
proof (rule ccontr)
  assume "\<not> k \<le> key (es ! i)"
  then have "es ! i \<in> set (filter (\<lambda>x. key x < k) es)" using assms(3) by simp
  then obtain j where j: "j < key_pos key k es" "j < length es" "es ! i = es ! j"
    unfolding filter_less_take [OF assms(1)] by (auto simp: in_set_conv_nth)
  then show False
    using assms nth_eq_iff_index_eq [OF key_sorted_distinct [OF assms(1)], of i j] by simp
qed

text \<open>A position with smaller keys before it and larger or equal keys from it on is the position.\<close>

lemma key_pos_unique:
  assumes "key_sorted key es" "p \<le> length es"
    and lt: "\<And>i. i < p \<Longrightarrow> key (es ! i) < k"
    and ge: "\<And>i. p \<le> i \<Longrightarrow> i < length es \<Longrightarrow> k \<le> key (es ! i)"
  shows "key_pos key k es = p"
proof (rule ccontr)
  assume "key_pos key k es \<noteq> p"
  then consider "p < key_pos key k es" | "key_pos key k es < p" by linarith
  then show False
  proof cases
    case 1
    then have "key (es ! p) < k" by (rule key_pos_nth_less [OF assms(1)])
    moreover have "p < length es" using 1 key_pos_le [of key k es] by simp
    ultimately show False using ge [of p] by simp
  next
    case 2
    then have "k \<le> key (es ! key_pos key k es)"
      using assms(2) by (intro key_pos_nth_ge [OF assms(1)]) auto
    with lt [OF 2] show False by simp
  qed
qed

lemma find_key_Some:
  "key_sorted key es \<Longrightarrow> find_key key k es = Some x \<longleftrightarrow> x \<in> set es \<and> key x = k"
  by (induction es) (auto simp: find_key_def key_sorted_Cons)

lemma find_key_eqI:
  assumes "\<And>x. find_key key k es = Some x \<longleftrightarrow> r = Some x"
  shows "find_key key k es = r"
  using assms by (cases r; cases "find_key key k es") auto

lemma set_insert_key: "set (insert_key key e es) = insert e {x \<in> set es. key x \<noteq> key e}"
  unfolding insert_key_def using neq_iff by fastforce

lemma delete_key_split:
  "key_sorted key es \<Longrightarrow>
   delete_key key k es = filter (\<lambda>x. key x < k) es @ filter (\<lambda>x. k < key x) es"
proof (induction es)
  case (Cons e es)
  then have gt: "\<forall>x\<in>set es. key e < key x"
    and IH: "delete_key key k es = filter (\<lambda>x. key x < k) es @ filter (\<lambda>x. k < key x) es"
    by (simp_all add: key_sorted_Cons)
  show ?case
  proof (cases "k < key e")
    case True
    with gt have "filter (\<lambda>x. key x < k) es = []" by (auto simp: filter_empty_conv)
    with True IH show ?thesis by (auto simp: delete_key_def)
  next
    case False
    with IH show ?thesis by (auto simp: delete_key_def)
  qed
qed (simp add: delete_key_def)

section \<open>The interface of an index\<close>

locale name_index =
  fixes inv :: "'s \<Rightarrow> bool" and abs :: "'s \<Rightarrow> 'e list" and key :: "'e \<Rightarrow> 'k::linorder"
    and ok :: "'e \<Rightarrow> bool" and put :: "'e \<Rightarrow> 's \<Rightarrow> 's \<Rightarrow> bool"
  assumes inv_sorted: "inv s \<Longrightarrow> key_sorted key (abs s)"
    and put_inv: "inv s \<Longrightarrow> ok e \<Longrightarrow> put e s s' \<Longrightarrow> inv s'"
    and put_abs: "inv s \<Longrightarrow> ok e \<Longrightarrow> put e s s' \<Longrightarrow> abs s' = insert_key key e (abs s)"
begin

lemma find_put:
  assumes "inv s" "ok e" "put e s s'"
  shows "find_key key k (abs s') = (if k = key e then Some e else find_key key k (abs s))"
proof (rule find_key_eqI)
  fix x
  have "key_sorted key (abs s)" "key_sorted key (abs s')"
    using assms put_inv inv_sorted by blast+
  then show "find_key key k (abs s') = Some x \<longleftrightarrow>
      (if k = key e then Some e else find_key key k (abs s)) = Some x"
    by (auto simp: find_key_Some put_abs [OF assms] set_insert_key)
qed

lemma keys_put:
  assumes "inv s" "ok e" "put e s s'"
  shows "key ` set (abs s') = insert (key e) (key ` set (abs s))"
  by (auto simp: put_abs [OF assms] set_insert_key)

lemma put_unique:
  assumes "inv s" "ok e" "put e s s'"
  shows "distinct (map key (abs s'))"
  by (rule key_sorted_distinct [OF inv_sorted [OF put_inv [OF assms]]])

end

locale name_index_del = name_index inv abs key ok put
  for inv :: "'s \<Rightarrow> bool" and abs :: "'s \<Rightarrow> 'e list" and key :: "'e \<Rightarrow> 'k::linorder"
    and ok :: "'e \<Rightarrow> bool" and put :: "'e \<Rightarrow> 's \<Rightarrow> 's \<Rightarrow> bool" +
  fixes del :: "'k \<Rightarrow> 's \<Rightarrow> 's \<Rightarrow> bool"
  assumes del_inv: "inv s \<Longrightarrow> del k s s' \<Longrightarrow> inv s'"
    and del_abs: "inv s \<Longrightarrow> del k s s' \<Longrightarrow> abs s' = delete_key key k (abs s)"
begin

lemma find_del:
  assumes "inv s" "del k s s'"
  shows "find_key key j (abs s') = (if j = k then None else find_key key j (abs s))"
proof (rule find_key_eqI)
  fix x
  have "key_sorted key (abs s)" "key_sorted key (abs s')"
    using assms del_inv inv_sorted by blast+
  then show "find_key key j (abs s') = Some x \<longleftrightarrow>
      (if j = k then None else find_key key j (abs s)) = Some x"
    by (auto simp: find_key_Some del_abs [OF assms] delete_key_def)
qed

lemma put_del_absent:
  assumes "inv s" "ok e" "put e s s1" "del (key e) s1 s2"
  shows "abs s2 = delete_key key (key e) (abs s)"
proof -
  have "abs s2 = delete_key key (key e) (insert_key key e (abs s))"
    using del_abs [OF put_inv [OF assms(1-3)] assms(4)] put_abs [OF assms(1-3)] by simp
  also have "\<dots> = filter (\<lambda>x. key x < key e) (abs s) @ filter (\<lambda>x. key e < key x) (abs s)"
    unfolding delete_key_def insert_key_def
    by (auto intro!: arg_cong2 [where f = append] filter_cong)
  also have "\<dots> = delete_key key (key e) (abs s)"
    by (simp add: delete_key_split inv_sorted assms(1))
  finally show ?thesis .
qed

end

end
