(* ===== verification/Cache.thy ===== *)
theory Cache
  imports OS Sorted_Index
begin

text \<open>
  The directory cache in memory: the structures of \<^verbatim>\<open>src/cache.h\<close>, the name search and the array
  updates of \<^verbatim>\<open>src/update-cache.c\<close>, and the second copy of them in \<^verbatim>\<open>src/remove.c\<close>.
\<close>

section \<open>Structures\<close>

record cache_time =
  sec :: u32
  nsec :: u32

text \<open>
  \<^verbatim>\<open>struct cache_entry\<close>.  \<open>name\<close> is the memory from the member \<^verbatim>\<open>name\<close> (offset 62) to the end of the
  allocation, so it holds the file name and the zero bytes that pad the entry.
\<close>

record cache_entry =
  ce_ctime :: cache_time
  ce_mtime :: cache_time
  ce_dev :: u32
  ce_ino :: u32
  ce_mode :: u32
  ce_uid :: u32
  ce_gid :: u32
  ce_st_size :: u32
  ce_sha1 :: bytes
  namelen :: u16
  name :: bytes

type_synonym gitworld = "cache_entry world"

definition CACHE_SIGNATURE :: u32 where
  "CACHE_SIGNATURE = 0x44495243"

text \<open>\<^verbatim>\<open>cache_entry_size(len) = ((62 + len + 8) & ~7)\<close> and \<^verbatim>\<open>alloc_nr(x) = (((x)+16)*3/2)\<close>.\<close>

definition cache_entry_size :: "nat \<Rightarrow> nat" where
  "cache_entry_size len = (62 + len + 8) div 8 * 8"

definition ce_size :: "cache_entry \<Rightarrow> nat" where
  "ce_size ce = cache_entry_size (unat (namelen ce))"

definition alloc_nr :: "u32 \<Rightarrow> u32" where
  "alloc_nr x = (x + 16) * 3 div 2"

text \<open>The name of an entry as the code compares it, and as a C string.\<close>

definition ce_name :: "cache_entry \<Rightarrow> bytes" where
  "ce_name ce = take (unat (namelen ce)) (name ce)"

section \<open>Comparing and finding names (src/update-cache.c)\<close>

text \<open>\<^verbatim>\<open>memcmp\<close> of the first \<open>n\<close> bytes: the sign of the first difference.\<close>

fun memcmp :: "nat \<Rightarrow> bytes \<Rightarrow> bytes \<Rightarrow> int" where
  "memcmp (Suc n) (x # xs) (y # ys) =
     (if x < y then - 1 else if y < x then 1 else memcmp n xs ys)"
| "memcmp _ _ _ = 0"

definition cache_name_compare :: "bytes \<Rightarrow> nat \<Rightarrow> bytes \<Rightarrow> nat \<Rightarrow> int" where
  "cache_name_compare name1 len1 name2 len2 =
     (let len = (if len1 < len2 then len1 else len2);
          cmp = memcmp len name1 name2
      in if cmp \<noteq> 0 then cmp
         else if len1 < len2 then - 1
         else if len1 > len2 then 1
         else 0)"

text \<open>
  The binary search of \<^verbatim>\<open>cache_name_pos\<close> between \<open>first\<close> and \<open>last\<close> on the array of entries.  A slot
  that holds no entry is a null dereference (\<open>None\<close>).  The result is \<open>-next-1\<close> for a match at
  \<open>next\<close> and the insertion point otherwise.
\<close>

function cache_name_search ::
  "cache_entry option list \<Rightarrow> bytes \<Rightarrow> nat \<Rightarrow> nat \<Rightarrow> nat \<Rightarrow> int option" where
  "cache_name_search cache nm len first lst =
     (if first < lst then
        (let next = (lst + first) div 2 in
         if length cache \<le> next then None
         else case cache ! next of None \<Rightarrow> None
           | Some ce \<Rightarrow>
             (let cmp = cache_name_compare nm len (name ce) (unat (namelen ce)) in
              if cmp = 0 then Some (- int next - 1)
              else if cmp < 0 then cache_name_search cache nm len first next
              else cache_name_search cache nm len (next + 1) lst))
      else Some (int first))"
  by pat_completeness auto
termination
  by (relation "measure (\<lambda>(cache, nm, len, first, lst). lst - first)") auto

declare cache_name_search.simps [simp del]

text \<open>The slots the globals describe; the null pointer has none.\<close>

definition slots :: "gitworld \<Rightarrow> cache_entry option list" where
  "slots w = (case active_cache w of None \<Rightarrow> [] | Some a \<Rightarrow> a)"

definition cache_name_pos :: "bytes \<Rightarrow> nat \<Rightarrow> gitworld \<Rightarrow> int option" where
  "cache_name_pos nm len w = cache_name_search (slots w) nm len 0 (nat (sint (active_nr w)))"

section \<open>Updating the array (src/update-cache.c)\<close>

text \<open>
  \<^verbatim>\<open>memmove(a + dst, a + src, n * sizeof(*a))\<close> inside one array; \<open>None\<close> when a range leaves the array.
\<close>

definition memmove :: "nat \<Rightarrow> nat \<Rightarrow> nat \<Rightarrow> 'a list \<Rightarrow> 'a list option" where
  "memmove dst src n a =
     (if length a < dst + n \<or> length a < src + n then None
      else Some (take dst a @ take n (drop src a) @ drop (dst + n) a))"

text \<open>
  \<^verbatim>\<open>remove_file_from_cache\<close> of \<^verbatim>\<open>update-cache.c\<close>: the count passed to \<^verbatim>\<open>memmove\<close> is
  \<^verbatim>\<open>active_nr - pos - 1\<close> with \<^verbatim>\<open>active_nr\<close> already decremented.
\<close>

definition remove_file_from_cache :: "bytes \<Rightarrow> gitworld \<Rightarrow> (unit, gitworld) outcome" where
  "remove_file_from_cache path w =
     (case cache_name_pos path (length path) w of None \<Rightarrow> Undef
      | Some pos \<Rightarrow>
        (if pos < 0 then
           (let p = nat (- pos - 1);
                w1 = w\<lparr>active_nr := active_nr w - 1\<rparr>
            in if p < unat (active_nr w1) then
                 (case memmove p (p + 1) (unat (active_nr w1) - p - 1) (slots w1) of
                    None \<Rightarrow> Undef
                  | Some a \<Rightarrow> Ret () (w1\<lparr>active_cache := Some a\<rparr>))
               else Ret () w1)
         else Ret () w))"

text \<open>\<^verbatim>\<open>realloc\<close> of the array to \<open>n\<close> pointers: the old pointers, then unset ones.\<close>

definition realloc_slots :: "nat \<Rightarrow> 'a option list \<Rightarrow> 'a option list" where
  "realloc_slots n a = take n a @ replicate (n - length a) None"

definition add_cache_entry :: "cache_entry \<Rightarrow> gitworld \<Rightarrow> (int, gitworld) outcome" where
  "add_cache_entry ce w =
     (case cache_name_pos (name ce) (unat (namelen ce)) w of None \<Rightarrow> Undef
      | Some pos \<Rightarrow>
        (if pos < 0 then
           Ret 0 (w\<lparr>active_cache := Some ((slots w)[nat (- pos - 1) := Some ce])\<rparr>)
         else
           (let w1 = (if active_nr w = active_alloc w then
                        (let n = alloc_nr (active_alloc w) in
                         w\<lparr>active_alloc := n,
                           active_cache := Some (realloc_slots (unat n) (slots w))\<rparr>)
                      else w);
                w2 = w1\<lparr>active_nr := active_nr w1 + 1\<rparr>;
                p = nat pos
            in case (if p < unat (active_nr w2)
                     then memmove (p + 1) p (unat (active_nr w2) - p - 1) (slots w2)
                     else Some (slots w2)) of
                 None \<Rightarrow> Undef
               | Some a \<Rightarrow> if p < length a then Ret 0 (w2\<lparr>active_cache := Some (a[p := Some ce])\<rparr>)
                           else Undef)))"

section \<open>The copy in src/remove.c\<close>

text \<open>The loop \<^verbatim>\<open>for(int i = pos + 1; i < active_nr; i++) active_cache[i - 1] = active_cache[i]\<close>.\<close>

function shift_down :: "nat \<Rightarrow> nat \<Rightarrow> 'a list \<Rightarrow> 'a list option" where
  "shift_down i nr a =
     (if i < nr then
        (if length a \<le> i then None else shift_down (i + 1) nr (a[i - 1 := a ! i]))
      else Some a)"
  by pat_completeness auto
termination
  by (relation "measure (\<lambda>(i, nr, a). nr - i)") auto

declare shift_down.simps [simp del]

text \<open>The body of \<^verbatim>\<open>remove_file_from_cache\<close> after \<^verbatim>\<open>cache_name_pos\<close> returned \<open>pos\<close>; \<^verbatim>\<open>active_nr\<close> is unsigned.\<close>

definition remove_at :: "int \<Rightarrow> gitworld \<Rightarrow> (unit, gitworld) outcome" where
  "remove_at pos w =
     (if pos < 0 then
        (case shift_down (nat (- pos - 1) + 1) (unat (active_nr w)) (slots w) of
           None \<Rightarrow> Undef
         | Some a \<Rightarrow> Ret () (w\<lparr>active_cache := map_option (\<lambda>_. a) (active_cache w),
                             active_nr := active_nr w - 1\<rparr>))
      else Ret () w)"


section \<open>Well-formed entries and the invariant of the array\<close>

text \<open>
  An entry as \<^verbatim>\<open>add_file_to_cache\<close> builds it: twenty name bytes of a hash, a file name without NUL
  whose length is \<^verbatim>\<open>namelen\<close>, and zero bytes up to the allocated size.
\<close>

definition wf_ce :: "cache_entry \<Rightarrow> bool" where
  "wf_ce ce \<longleftrightarrow> length (ce_sha1 ce) = 20 \<and> no_nul (ce_name ce) \<and>
     name ce = ce_name ce @ replicate (ce_size ce - 62 - unat (namelen ce)) 0 \<and>
     length (ce_name ce) = unat (namelen ce)"

definition entries :: "gitworld \<Rightarrow> cache_entry list" where
  "entries w = map the (take (unat (active_nr w)) (slots w))"

definition cache_inv :: "gitworld \<Rightarrow> bool" where
  "cache_inv w \<longleftrightarrow>
     (active_cache w = None \<longrightarrow> active_nr w = 0 \<and> active_alloc w = 0) \<and>
     length (slots w) = unat (active_alloc w) \<and>
     unat (active_nr w) \<le> unat (active_alloc w) \<and> unat (active_alloc w) < 2 ^ 30 \<and>
     (\<forall>i<unat (active_nr w). slots w ! i \<noteq> None) \<and>
     (\<forall>ce\<in>set (entries w). wf_ce ce) \<and> key_sorted ce_name (entries w)"

lemma cache_entry_size_bounds: "62 + len < cache_entry_size len" "cache_entry_size len \<le> 70 + len"
  unfolding cache_entry_size_def by auto

lemma wf_ce_len: "wf_ce ce \<Longrightarrow> unat (namelen ce) \<le> length (name ce)"
  unfolding wf_ce_def by (metis le_add1 length_append)

text \<open>Names as C strings are the names the search compares.\<close>

lemma cstr_name: "wf_ce ce \<Longrightarrow> cstr (name ce) = ce_name ce"
proof -
  assume wf: "wf_ce ce"
  have "0 < ce_size ce - 62 - unat (namelen ce)"
    using cache_entry_size_bounds(1) [of "unat (namelen ce)"] by (simp add: ce_size_def)
  with wf show ?thesis unfolding wf_ce_def by (metis cstr_append_zeros)
qed

section \<open>The search finds the position\<close>

definition compare3 :: "'a::linorder \<Rightarrow> 'a \<Rightarrow> int" where
  "compare3 x y = (if x < y then - 1 else if y < x then 1 else 0)"

lemma memcmp_compare3:
  assumes "n \<le> length a" "n \<le> length b"
  shows "memcmp n a b = compare3 (take n a) (take n b)"
  using assms by (induction n a b rule: memcmp.induct) (simp_all add: compare3_def, force)

lemma compare3_Cons:
  fixes x y :: "'a::linorder list"
  shows "compare3 (a # x) (b # y) = (if a < b then - 1 else if b < a then 1 else compare3 x y)"
  by (auto simp: compare3_def)

lemma compare3_append:
  fixes x y :: "'a::linorder list"
  assumes "length x = length y"
  shows "compare3 (x @ xs) (y @ ys) = (if compare3 x y \<noteq> 0 then compare3 x y else compare3 xs ys)"
  using assms by (induction x y rule: list_induct2) (auto simp: compare3_Cons compare3_def [of "[]"])

lemma compare3_Nil:
  fixes x :: "'a::linorder list"
  shows "compare3 x [] = (if x = [] then 0 else 1)" "compare3 [] x = (if x = [] then 0 else - 1)"
  by (cases x; simp add: compare3_def)+

lemma cache_name_compare_eq:
  assumes "len1 \<le> length name1" "len2 \<le> length name2"
  shows "cache_name_compare name1 len1 name2 len2 = compare3 (take len1 name1) (take len2 name2)"
proof -
  define n where "n = (if len1 < len2 then len1 else len2)"
  have le: "n \<le> len1" "n \<le> len2" by (auto simp: n_def)
  have m: "memcmp n name1 name2 = compare3 (take n name1) (take n name2)"
    using le assms by (intro memcmp_compare3) auto
  have sp: "take len1 name1 = take n name1 @ take (len1 - n) (drop n name1)"
      "take len2 name2 = take n name2 @ take (len2 - n) (drop n name2)"
    using le by (simp_all flip: take_add)
  have "compare3 (take (len1 - n) (drop n name1)) (take (len2 - n) (drop n name2)) =
      (if len1 < len2 then - 1 else if len1 > len2 then 1 else 0)"
    using assms by (auto simp: n_def compare3_Nil)
  moreover have "length (take n name1) = length (take n name2)" using le assms by simp
  ultimately show ?thesis
    unfolding cache_name_compare_def n_def [symmetric] Let_def m
    unfolding sp by (subst compare3_append) auto
qed

text \<open>What a position says: found at \<open>-pos-1\<close>, or to be inserted at \<open>pos\<close>.\<close>

definition coded_pos :: "bytes \<Rightarrow> cache_entry list \<Rightarrow> int" where
  "coded_pos k es =
     (if k \<in> ce_name ` set es then - int (key_pos ce_name k es) - 1 else int (key_pos ce_name k es))"

lemma cache_name_search_spec:
  assumes "length es \<le> length a" "\<And>i. i < length es \<Longrightarrow> a ! i = Some (es ! i)"
    and "key_sorted ce_name es" "\<And>ce. ce \<in> set es \<Longrightarrow> unat (namelen ce) \<le> length (name ce)"
    and "len \<le> length nm" "first \<le> lst" "lst \<le> length es"
    and "\<And>i. i < first \<Longrightarrow> ce_name (es ! i) < take len nm"
    and "\<And>i. lst \<le> i \<Longrightarrow> i < length es \<Longrightarrow> take len nm < ce_name (es ! i)"
  shows "cache_name_search a nm len first lst = Some (coded_pos (take len nm) es)"
  using assms
proof (induction a nm len first lst rule: cache_name_search.induct)
  case (1 a nm len first lst)
  let ?k = "take len nm" and ?next = "(lst + first) div 2"
  show ?case
  proof (cases "first < lst")
    case False
    then have "first = lst" using "1.prems" by simp
    with "1.prems" have pos: "key_pos ce_name ?k es = first"
      by (intro key_pos_unique) (auto intro: less_imp_le)
    have "?k \<notin> ce_name ` set es"
    proof
      assume "?k \<in> ce_name ` set es"
      then obtain i where "i < length es" "ce_name (es ! i) = ?k" by (auto simp: in_set_conv_nth)
      with "1.prems"(8,9) [of i] \<open>first = lst\<close> show False by (cases "i < first") auto
    qed
    with False pos show ?thesis by (simp add: cache_name_search.simps [of a] coded_pos_def)
  next
    case True
    then have nx: "first \<le> ?next" "?next < lst" "?next < length es" "?next < length a"
      using "1.prems" by auto
    define ce where "ce = es ! ?next"
    have slot: "a ! ?next = Some ce" and mem: "ce \<in> set es"
      using nx "1.prems"(2) by (auto simp: ce_def)
    have cmp: "cache_name_compare nm len (name ce) (unat (namelen ce)) = compare3 ?k (ce_name ce)"
      using "1.prems"(4) [OF mem] "1.prems"(5) by (simp add: cache_name_compare_eq ce_name_def)
    have below: "ce_name (es ! i) < ce_name ce" if "i < ?next" for i
      using that nx "1.prems"(3) unfolding ce_def key_sorted_def
      by (auto simp: sorted_wrt_iff_nth_less)
    have above: "ce_name ce < ce_name (es ! i)" if "?next < i" "i < length es" for i
      using that nx "1.prems"(3) unfolding ce_def key_sorted_def
      by (auto simp: sorted_wrt_iff_nth_less)
    consider "?k = ce_name ce" | "?k < ce_name ce" | "ce_name ce < ?k" by fastforce
    then show ?thesis
    proof cases
      case eq: 1
      then have "key_pos ce_name ?k es = ?next"
        using nx below less_imp_le [OF above] "1.prems"(3)
        by (intro key_pos_unique) (auto simp: ce_def le_eq_less_or_eq [of "(lst + first) div 2"])
      with eq mem True nx slot cmp show ?thesis
        by (auto simp: cache_name_search.simps [of a] coded_pos_def compare3_def Let_def)
    next
      case lt: 2
      have "cache_name_search a nm len first ?next = Some (coded_pos ?k es)"
      proof (rule "1.IH"(1) [OF True refl _ slot refl])
        show "?k < ce_name (es ! i)" if "?next \<le> i" "i < length es" for i
          using that lt above [of i] by (cases "i = ?next") (auto simp: ce_def)
      qed (use nx "1.prems" lt cmp in \<open>auto simp: compare3_def\<close>)
      with lt True nx slot cmp show ?thesis
        by (auto simp: cache_name_search.simps [of a nm len first lst] compare3_def Let_def)
    next
      case gt: 3
      have "cache_name_search a nm len (?next + 1) lst = Some (coded_pos ?k es)"
      proof (rule "1.IH"(2) [OF True refl _ slot refl])
        show "ce_name (es ! i) < ?k" if "i < ?next + 1" for i
          using that gt below [of i] by (cases "i = ?next") (auto simp: ce_def)
      qed (use nx "1.prems" gt cmp in \<open>auto simp: compare3_def\<close>)
      with gt True nx slot cmp show ?thesis
        by (auto simp: cache_name_search.simps [of a nm len first lst] compare3_def Let_def)
    qed
  qed
qed


section \<open>The array operations implement the index\<close>

lemma sint_small:
  assumes "unat (x :: u32) < 2 ^ 31"
  shows "sint x = int (unat x)"
proof -
  have "int (unat x) < int (2 ^ 31)" using assms by (rule of_nat_less_iff [THEN iffD2])
  then have "uint x < 2 ^ 31" by simp
  moreover have "- (2 ^ 31) \<le> uint x" by (rule order_trans [of _ 0]) simp_all
  ultimately have "signed_take_bit 31 (uint x) = uint x"
    by (intro signed_take_bit_int_eq_self)
  then show ?thesis by (simp add: sint_uint)
qed

lemma unat_alloc_nr: "unat x < 2 ^ 30 \<Longrightarrow> unat (alloc_nr x) = (unat x + 16) * 3 div 2"
  unfolding alloc_nr_def by (simp add: unat_div unat_word_ariths)

lemma take_slots: "cache_inv w \<Longrightarrow> take (unat (active_nr w)) (slots w) = map Some (entries w)"
  unfolding entries_def cache_inv_def
  by (rule nth_equalityI) (auto simp del: not_None_eq)

lemma length_entries: "cache_inv w \<Longrightarrow> length (entries w) = unat (active_nr w)"
  unfolding entries_def cache_inv_def by simp

text \<open>The invariant, given the array as a list of entries followed by spare slots.\<close>

lemma cache_invI:
  assumes "active_cache w = Some (map Some es @ spare)" "unat (active_nr w) = length es"
    and "length es + length spare = unat (active_alloc w)" "unat (active_alloc w) < 2 ^ 30"
    and "\<And>ce. ce \<in> set es \<Longrightarrow> wf_ce ce" "key_sorted ce_name es"
  shows "cache_inv w" "entries w = es"
proof -
  have sl: "slots w = map Some es @ spare" using assms(1) by (simp add: slots_def)
  show es: "entries w = es"
    unfolding entries_def sl using assms(2) by (simp add: comp_def)
  show "cache_inv w"
    unfolding cache_inv_def es using assms by (auto simp: sl nth_append)
qed

lemma cache_invE:
  assumes "cache_inv w"
  obtains spare where "slots w = map Some (entries w) @ spare"
    "length (entries w) + length spare = unat (active_alloc w)"
  using assms take_slots [OF assms] length_entries [OF assms] unfolding cache_inv_def
  by (metis append_take_drop_id length_append length_map)

lemma cache_name_pos_spec:
  assumes "cache_inv w" "len \<le> length nm"
  shows "cache_name_pos nm len w = Some (coded_pos (take len nm) (entries w))"
proof -
  obtain spare where sl: "slots w = map Some (entries w) @ spare" using cache_invE [OF assms(1)] .
  have small: "unat (active_nr w) < 2 ^ 31"
    using assms(1) unfolding cache_inv_def by simp
  have "nat (sint (active_nr w)) = length (entries w)"
    using sint_small [OF small] length_entries [OF assms(1)] by simp
  then show ?thesis
    unfolding cache_name_pos_def
    using assms by (intro cache_name_search_spec)
      (auto simp: sl nth_append cache_inv_def dest: wf_ce_len)
qed


lemma insert_key_present:
  assumes "key_sorted key es" "key e \<in> key ` set es"
  shows "insert_key key e es = es[key_pos key (key e) es := e]"
    and "key_pos key (key e) es < length es"
proof -
  let ?p = "key_pos key (key e) es"
  obtain i where i: "i < length es" "key (es ! i) = key e"
    using assms(2) by (auto simp: in_set_conv_nth)
  then show lt: "?p < length es"
    using key_pos_nth_less [OF assms(1), of i "key e"] key_pos_le [of key "key e" es]
    by (cases "?p = length es") auto
  show "insert_key key e es = es[?p := e]"
    unfolding insert_key_def filter_less_take [OF assms(1)] filter_greater_drop [OF assms(1)]
    using assms(2) lt by (simp add: upd_conv_take_nth_drop)
qed

lemma insert_key_absent:
  assumes "key_sorted key es" "key e \<notin> key ` set es"
  shows "insert_key key e es =
    take (key_pos key (key e) es) es @ e # drop (key_pos key (key e) es) es"
  unfolding insert_key_def filter_less_take [OF assms(1)] filter_greater_drop [OF assms(1)]
  using assms(2) by simp

lemma delete_key_present:
  assumes "key_sorted key es" "k \<in> key ` set es"
  shows "delete_key key k es = take (key_pos key k es) es @ drop (key_pos key k es + 1) es"
  unfolding delete_key_split [OF assms(1)] filter_less_take [OF assms(1)]
    filter_greater_drop [OF assms(1)]
  using assms(2) by simp

lemma memmove_up:
  assumes "p \<le> length es" "spare \<noteq> []"
  shows "\<exists>b. memmove (p + 1) p (length es - p) (map Some es @ spare) = Some b \<and>
    p < length b \<and> b[p := Some e] = map Some (take p es @ e # drop p es) @ tl spare"
proof -
  let ?a = "map Some es @ spare"
  obtain x xs where sp: "spare = x # xs" using assms(2) by (cases spare) auto
  have 1: "take (p + 1) ?a = map Some (take p es) @ take 1 (drop p ?a)"
    unfolding take_add using assms(1) by (simp add: take_map)
  have 2: "take (length es - p) (drop p ?a) = map Some (drop p es)"
    using assms(1) by (simp add: drop_map)
  have 3: "drop (p + 1 + (length es - p)) ?a = xs"
    using assms(1) by (simp add: sp)
  have l1: "length (take 1 (drop p ?a)) = 1" using assms by (auto simp: sp)
  have "memmove (p + 1) p (length es - p) ?a = Some (map Some (take p es) @ take 1 (drop p ?a) @
      map Some (drop p es) @ xs)"
    unfolding memmove_def 2 3 unfolding 1 using assms(1) by (simp add: sp)
  moreover obtain y where "take 1 (drop p ?a) = [y]"
    using l1 by (metis length_Suc_conv One_nat_def length_0_conv)
  ultimately have "memmove (p + 1) p (length es - p) ?a =
      Some (map Some (take p es) @ [y] @ map Some (drop p es) @ xs)"
    by (simp only:)
  with assms(1) show ?thesis by (simp add: sp list_update_append min_absorb2)
qed

text \<open>
  The state after adding an entry: only the three globals of the cache change.
\<close>

definition same_but_cache :: "gitworld \<Rightarrow> gitworld \<Rightarrow> bool" where
  "same_but_cache w w' \<longleftrightarrow> fs w' = fs w \<and> env w' = env w \<and> fault w' = fault w \<and> room w' = room w \<and>
     new_stat w' = new_stat w \<and> errno w' = errno w \<and> stdin w' = stdin w \<and> stdout w' = stdout w \<and>
     stderr w' = stderr w"

lemma same_but_cache_update:
  assumes "same_but_cache w w1"
  shows "same_but_cache w (w1\<lparr>active_cache := c\<rparr>)" "same_but_cache w (w1\<lparr>active_nr := n\<rparr>)"
    "same_but_cache w (w1\<lparr>active_alloc := a\<rparr>)"
  using assms by (simp_all add: same_but_cache_def)

lemma same_but_cache_refl [simp]: "same_but_cache w w"
  by (simp add: same_but_cache_def)

lemma same_but_cache_trans: "same_but_cache u v \<Longrightarrow> same_but_cache v w \<Longrightarrow> same_but_cache u w"
  by (simp add: same_but_cache_def)

lemma alloc_after_growth:
  assumes "cache_inv w" "unat (active_nr w) < 2 ^ 29"
    and "w1 = (if active_nr w = active_alloc w then
        (let n = alloc_nr (active_alloc w) in
         w\<lparr>active_alloc := n, active_cache := Some (realloc_slots (unat n) (slots w))\<rparr>) else w)"
  shows "\<exists>spare. active_cache w1 = Some (map Some (entries w) @ spare) \<and> spare \<noteq> [] \<and>
    length (entries w) + length spare = unat (active_alloc w1) \<and> unat (active_alloc w1) < 2 ^ 30 \<and>
    active_nr w1 = active_nr w \<and> same_but_cache w w1"
proof -
  obtain spare where sl: "slots w = map Some (entries w) @ spare"
      "length (entries w) + length spare = unat (active_alloc w)"
    using cache_invE [OF assms(1)] .
  note n = length_entries [OF assms(1)]
  show ?thesis
  proof (cases "active_nr w = active_alloc w")
    case True
    then have sp: "spare = []" using sl n by simp
    have an: "unat (alloc_nr (active_alloc w)) = (unat (active_alloc w) + 16) * 3 div 2"
      using assms(2) True by (intro unat_alloc_nr) simp
    let ?new = "replicate (unat (alloc_nr (active_alloc w)) - length (entries w)) None"
    have "active_cache w1 = Some (map Some (entries w) @ ?new)"
      using True an sl n by (simp add: assms(3) realloc_slots_def sp Let_def)
    moreover have "?new \<noteq> []" "length (entries w) + length ?new = unat (active_alloc w1)"
        "unat (active_alloc w1) < 2 ^ 30"
      using True an n assms(2) by (auto simp: assms(3) Let_def)
    moreover have "active_nr w1 = active_nr w" "same_but_cache w w1"
      by (simp_all add: assms(3) same_but_cache_update Let_def)
    ultimately show ?thesis by blast
  next
    case False
    then have "spare \<noteq> []" using sl n assms(1) by (auto simp: word_unat_eq_iff)
    moreover have "active_cache w \<noteq> None"
      using False assms(1) by (auto simp: cache_inv_def)
    ultimately show ?thesis
      using False sl assms(1) by (auto simp: assms(3) slots_def cache_inv_def)
  qed
qed


lemma wf_insert_key:
  "\<forall>ce\<in>set es. wf_ce ce \<Longrightarrow> wf_ce e \<Longrightarrow> ce \<in> set (insert_key ce_name e es) \<Longrightarrow> wf_ce ce"
  by (auto simp: set_insert_key)

lemma unat_Suc_small: "unat (x :: u32) < 2 ^ 31 \<Longrightarrow> unat (x + 1) = Suc (unat x)"
  by (simp add: unat_word_ariths)

lemma unat_pred: "x \<noteq> 0 \<Longrightarrow> unat ((x :: u32) - 1) = unat x - 1"
  by (metis One_nat_def unat_1 unat_sub word_le_less_eq word_neq_0_conv word_less_1 nle_le linorder_not_le)

lemma add_cache_entry_spec:
  assumes inv: "cache_inv w" and "wf_ce ce" and small: "unat (active_nr w) < 2 ^ 29"
  shows "\<exists>w'. add_cache_entry ce w = Ret 0 w' \<and> cache_inv w' \<and> same_but_cache w w' \<and>
    entries w' = insert_key ce_name ce (entries w)"
proof -
  define es where "es = entries w"
  define p where "p = key_pos ce_name (ce_name ce) es"
  have sorted: "key_sorted ce_name es" and wfs: "\<forall>e\<in>set es. wf_ce e"
    using inv by (auto simp: cache_inv_def es_def)
  have pos: "cache_name_pos (name ce) (unat (namelen ce)) w = Some (coded_pos (ce_name ce) es)"
    using cache_name_pos_spec [OF inv wf_ce_len [OF assms(2)]] by (simp add: es_def ce_name_def)
  have nes: "length es = unat (active_nr w)" and alloc30: "unat (active_alloc w) < 2 ^ 30"
    using length_entries [OF inv] inv by (simp_all add: es_def cache_inv_def)
  note wf' = wf_insert_key [OF wfs assms(2)] key_sorted_insert_key [OF sorted]
  show ?thesis
  proof (cases "ce_name ce \<in> ce_name ` set es")
    case True
    note ik = insert_key_present [OF sorted True, folded p_def]
    obtain spare where sl: "slots w = map Some es @ spare"
        "length es + length spare = unat (active_alloc w)"
      using cache_invE [OF inv] es_def by blast
    define w' where "w' = w\<lparr>active_cache := Some ((slots w)[p := Some ce])\<rparr>"
    have ret: "add_cache_entry ce w = Ret 0 w'"
      using pos True by (simp add: add_cache_entry_def coded_pos_def p_def w'_def)
    have len: "length (insert_key ce_name ce es) = length es" using ik by simp
    have "active_cache w' = Some (map Some (insert_key ce_name ce es) @ spare)"
      using ik by (simp add: w'_def sl list_update_append map_update)
    moreover have "unat (active_nr w') = length (insert_key ce_name ce es)"
        "length (insert_key ce_name ce es) + length spare = unat (active_alloc w')"
        "unat (active_alloc w') < 2 ^ 30"
      using alloc30 sl nes by (simp_all add: len w'_def)
    ultimately have "cache_inv w'" "entries w' = insert_key ce_name ce es"
      using cache_invI [of w' "insert_key ce_name ce es" spare] wf' by blast+
    with ret show ?thesis by (auto simp: es_def w'_def same_but_cache_update)
  next
    case False
    note ik = insert_key_absent [OF sorted False, folded p_def]
    define w1 where "w1 = (if active_nr w = active_alloc w then
        (let n = alloc_nr (active_alloc w) in
         w\<lparr>active_alloc := n, active_cache := Some (realloc_slots (unat n) (slots w))\<rparr>) else w)"
    obtain spare where sp: "active_cache w1 = Some (map Some es @ spare)" "spare \<noteq> []"
        "length es + length spare = unat (active_alloc w1)" "unat (active_alloc w1) < 2 ^ 30"
        "active_nr w1 = active_nr w" "same_but_cache w w1"
      using alloc_after_growth [OF inv small w1_def] es_def by blast
    have ple: "p \<le> length es" by (simp add: p_def key_pos_le)
    obtain b where b: "memmove (p + 1) p (length es - p) (map Some es @ spare) = Some b"
        "p < length b" "b[p := Some ce] = map Some (insert_key ce_name ce es) @ tl spare"
      using memmove_up [OF ple sp(2)] unfolding ik by blast
    have n: "unat (active_nr w1) = length es" "unat (active_nr w1 + 1) = Suc (length es)"
      using length_entries [OF inv] small sp(5) unat_Suc_small [of "active_nr w"]
      by (auto simp: es_def)
    define w' where "w' = w1\<lparr>active_nr := active_nr w1 + 1, active_cache := Some (b[p := Some ce])\<rparr>"
    have "slots (w1\<lparr>active_nr := active_nr w1 + 1\<rparr>) = map Some es @ spare"
      using sp(1) by (simp add: slots_def)
    then have ret: "add_cache_entry ce w = Ret 0 w'"
      using pos False b ple n
      by (simp add: add_cache_entry_def coded_pos_def p_def [symmetric] w'_def
          w1_def [symmetric] Let_def)
    have len: "length (insert_key ce_name ce es) = Suc (length es)" using ik ple by simp
    have "active_cache w' = Some (map Some (insert_key ce_name ce es) @ tl spare)"
      using b(3) by (simp add: w'_def)
    moreover have "unat (active_nr w') = length (insert_key ce_name ce es)"
        "length (insert_key ce_name ce es) + length (tl spare) = unat (active_alloc w')"
        "unat (active_alloc w') < 2 ^ 30"
      using n sp by (simp_all add: len w'_def) (cases spare; simp)
    ultimately have "cache_inv w'" "entries w' = insert_key ce_name ce es"
      using cache_invI [of w' "insert_key ce_name ce es" "tl spare"] wf' by blast+
    with ret show ?thesis using sp(6) by (auto simp: es_def w'_def same_but_cache_update)
  qed
qed


text \<open>
  \<^verbatim>\<open>remove_file_from_cache\<close> of \<^verbatim>\<open>update-cache.c\<close>: a missing name changes nothing; the last entry is
  dropped; for any other entry the \<^verbatim>\<open>memmove\<close> is one slot short, so the entry before the last ends
  up at the end of the array and the last one is lost.
\<close>

lemma memmove_down:
  assumes "p + 1 < length es"
  shows "memmove p (p + 1) (length es - 1 - p - 1) (map Some es @ spare) =
    Some (map Some (take p es @ take (length es - 2 - p) (drop (p + 1) es)) @
          map Some (drop (length es - 2) es) @ spare)"
  unfolding memmove_def using assms
  by (auto simp: take_map drop_map min_absorb1 add_diff_inverse_nat Suc_diff_Suc numeral_2_eq_2)

lemma remove_file_from_cache_absent:
  assumes "cache_inv w" "path \<notin> ce_name ` set (entries w)"
  shows "remove_file_from_cache path w = Ret () w"
  using assms cache_name_pos_spec [OF assms(1), of "length path" path]
  by (simp add: remove_file_from_cache_def coded_pos_def)


lemma drop_last2:
  assumes "2 \<le> length es"
  shows "drop (length es - 2) es = [es ! (length es - 2), last es]"
proof -
  obtain xs a b where "es = xs @ [a, b]"
    using assms by (cases es rule: rev_cases; cases "butlast es" rule: rev_cases) auto
  then show ?thesis by simp
qed

text \<open>The entries \<^verbatim>\<open>update-cache.c\<close> leaves when it removes the entry at position \<open>p\<close>.\<close>

definition short_shift :: "nat \<Rightarrow> 'e list \<Rightarrow> 'e list" where
  "short_shift p es =
     (if p + 1 < length es
      then take p es @ take (length es - 2 - p) (drop (p + 1) es) @ [es ! (length es - 2)]
      else butlast es)"

lemma remove_file_from_cache_present:
  assumes inv: "cache_inv w" and mem: "path \<in> ce_name ` set (entries w)"
  shows "\<exists>w'. remove_file_from_cache path w = Ret () w' \<and> same_but_cache w w' \<and>
    entries w' = short_shift (key_pos ce_name path (entries w)) (entries w)"
proof -
  define es where "es = entries w"
  define p where "p = key_pos ce_name path es"
  have sorted: "key_sorted ce_name es" using inv by (simp add: cache_inv_def es_def)
  obtain e where e: "path = ce_name e" "e \<in> set es" using mem by (auto simp: es_def)
  have lt: "p < length es"
    using insert_key_present(2) [OF sorted, of e] e by (simp add: p_def)
  obtain spare where sl: "slots w = map Some es @ spare" using cache_invE [OF inv] es_def by blast
  have n: "unat (active_nr w) = length es" using length_entries [OF inv] by (simp add: es_def)
  with lt have "active_nr w \<noteq> 0" by auto
  then have n1: "unat (active_nr w - 1) = length es - 1" using n by (simp add: unat_pred)
  define w1 where "w1 = w\<lparr>active_nr := active_nr w - 1\<rparr>"
  have pos: "cache_name_pos path (length path) w = Some (- int p - 1)"
    using cache_name_pos_spec [OF inv, of "length path" path] mem
    by (simp add: coded_pos_def p_def es_def)
  show ?thesis
  proof (cases "p + 1 < length es")
    case True
    let ?a = "map Some (take p es @ take (length es - 2 - p) (drop (p + 1) es)) @
          map Some (drop (length es - 2) es) @ spare"
    have "memmove p (p + 1) (length es - 1 - p - 1) (slots w1) = Some ?a"
      using memmove_down [OF True] by (simp add: w1_def slots_def sl [unfolded slots_def])
    then have "remove_file_from_cache path w = Ret () (w1\<lparr>active_cache := Some ?a\<rparr>)"
      using True pos n1 by (simp add: remove_file_from_cache_def w1_def Let_def less_diff_conv)
    moreover have "entries (w1\<lparr>active_cache := Some ?a\<rparr>) = short_shift p es"
      using True n1 drop_last2 [of es]
      by (simp add: entries_def slots_def w1_def short_shift_def comp_def)
    ultimately show ?thesis
      by (auto simp: w1_def es_def p_def same_but_cache_def)
  next
    case False
    then have "remove_file_from_cache path w = Ret () w1"
      using lt pos n1 by (simp add: remove_file_from_cache_def w1_def Let_def less_diff_conv)
    moreover have "entries w1 = butlast es"
      using n1 by (simp add: entries_def w1_def slots_def sl [unfolded slots_def] butlast_conv_take comp_def take_map)
    ultimately show ?thesis
      using False by (auto simp: short_shift_def w1_def es_def p_def same_but_cache_def)
  qed
qed


lemma shift_down_spec:
  assumes "0 < i" "i \<le> nr" "nr \<le> length a"
  shows "shift_down i nr a = Some (take (i - 1) a @ take (nr - i) (drop i a) @ drop (nr - 1) a)"
  using assms
proof (induction i nr a rule: shift_down.induct)
  case (1 i nr a)
  show ?case
  proof (cases "i < nr")
    case True
    let ?b = "a[i - 1 := a ! i]"
    have "shift_down (i + 1) nr ?b =
        Some (take i ?b @ take (nr - (i + 1)) (drop (i + 1) ?b) @ drop (nr - 1) ?b)"
      using "1.IH" [OF True] "1.prems" True by simp
    moreover have "take i ?b = take (i - 1) a @ [a ! i]"
      using "1.prems" True by (cases i) (simp_all add: take_Suc_conv_app_nth)
    moreover have "take (nr - i) (drop i a) = a ! i # take (nr - (i + 1)) (drop (i + 1) a)"
      using "1.prems" True by (simp add: Cons_nth_drop_Suc [of i a, symmetric] take_Cons')
    ultimately show ?thesis
      using "1.prems" True by (simp add: shift_down.simps [of i nr a])
  next
    case False
    with "1.prems" show ?thesis by (subst shift_down.simps) simp
  qed
qed

lemma remove_at_spec:
  assumes inv: "cache_inv w"
  shows "\<exists>w'. remove_at (coded_pos path (entries w)) w = Ret () w' \<and> same_but_cache w w' \<and>
    cache_inv w' \<and> entries w' = delete_key ce_name path (entries w)"
proof (cases "path \<in> ce_name ` set (entries w)")
  case False
  then have "delete_key ce_name path (entries w) = entries w"
    by (auto simp: delete_key_def filter_id_conv)
  with False inv show ?thesis by (simp add: remove_at_def coded_pos_def)
next
  case mem: True
  define es where "es = entries w"
  define p where "p = key_pos ce_name path es"
  have sorted: "key_sorted ce_name es" and wfs: "\<forall>e\<in>set es. wf_ce e"
      and alloc30: "unat (active_alloc w) < 2 ^ 30"
    using inv by (auto simp: cache_inv_def es_def)
  obtain e where e: "path = ce_name e" "e \<in> set es" using mem by (auto simp: es_def)
  have lt: "p < length es"
    using insert_key_present(2) [OF sorted, of e] e by (simp add: p_def)
  obtain spare where sl: "slots w = map Some es @ spare"
      "length es + length spare = unat (active_alloc w)"
    using cache_invE [OF inv] es_def by blast
  have n: "unat (active_nr w) = length es" using length_entries [OF inv] by (simp add: es_def)
  with lt have "active_nr w \<noteq> 0" by auto
  then have n1: "unat (active_nr w - 1) = length es - 1" using n by (simp add: unat_pred)
  let ?es = "delete_key ce_name path es"
  have del: "?es = take p es @ drop (p + 1) es"
    using delete_key_present [OF sorted] mem by (simp add: p_def es_def)
  let ?spare = "Some (last es) # spare"
  define w' where "w' = w\<lparr>active_cache := Some (map Some ?es @ ?spare), active_nr := active_nr w - 1\<rparr>"
  have "drop (length es - 1) (slots w) = ?spare"
    using lt by (cases es rule: rev_cases) (simp_all add: sl)
  then have "shift_down (p + 1) (length es) (slots w) = Some (map Some ?es @ ?spare)"
    using lt sl(2) [symmetric] shift_down_spec [of "p + 1" "length es" "slots w"]
    by (simp add: sl(1) del take_map drop_map)
  moreover have "active_cache w \<noteq> None"
    using \<open>active_nr w \<noteq> 0\<close> inv by (auto simp: cache_inv_def)
  ultimately have ret: "remove_at (coded_pos path (entries w)) w = Ret () w'"
    using mem n by (auto simp: remove_at_def coded_pos_def w'_def p_def es_def)
  have "length ?es = length es - 1" using lt by (simp add: del)
  moreover have "\<And>ce. ce \<in> set ?es \<Longrightarrow> wf_ce ce" "key_sorted ce_name ?es"
    using wfs sorted by (auto simp: delete_key_def intro: key_sorted_filter)
  ultimately have "cache_inv w'" "entries w' = ?es"
    using cache_invI [of w' ?es ?spare] alloc30 sl(2) n1 lt by (simp_all add: w'_def)
  with ret show ?thesis by (auto simp: w'_def es_def same_but_cache_def)
qed

interpretation dircache: name_index_del cache_inv entries ce_name wf_ce
  "\<lambda>ce w w'. unat (active_nr w) < 2 ^ 29 \<and> add_cache_entry ce w = Ret 0 w'"
  "\<lambda>path w w'. remove_at (coded_pos path (entries w)) w = Ret () w'"
proof unfold_locales
  show "key_sorted ce_name (entries w)" if "cache_inv w" for w
    using that by (simp add: cache_inv_def)
next
  fix w e w' assume a: "cache_inv w" "wf_ce e" "unat (active_nr w) < 2 ^ 29 \<and> add_cache_entry e w = Ret 0 w'"
  then show "cache_inv w'" "entries w' = insert_key ce_name e (entries w)"
    using add_cache_entry_spec [of w e] by auto
next
  fix w k w' assume "cache_inv w" "remove_at (coded_pos k (entries w)) w = Ret () w'"
  then show "cache_inv w'" "entries w' = delete_key ce_name k (entries w)"
    using remove_at_spec [of w k] by auto
qed

end
