(* ===== verification/Index_File.thy ===== *)
theory Index_File
  imports Cache
begin

text \<open>
  The index file \<^verbatim>\<open>.dircache/index\<close>: \<^verbatim>\<open>verify_hdr\<close> and \<^verbatim>\<open>read_cache\<close> of \<^verbatim>\<open>src/read-cache.c\<close> and
  \<^verbatim>\<open>write_cache\<close> of \<^verbatim>\<open>src/update-cache.c\<close>, with the layout of the structures of \<^verbatim>\<open>src/cache.h\<close>.
  OpenSSL and zlib are not part of the repository: they are the fields of a record \<open>extlib\<close> that
  every definition using them takes as an argument.
\<close>

section \<open>OpenSSL and zlib\<close>

text \<open>
  \<open>deflate xs\<close> is what zlib's compressor writes when it is given the pieces \<open>xs\<close> one after the other
  and then finished, \<open>inflate d\<close> all the bytes a compressed stream decodes to.  \<open>malloc_ok n\<close> says
  whether an allocation of \<open>n\<close> bytes succeeds.
\<close>

record extlib =
  SHA1 :: "bytes \<Rightarrow> bytes"
  deflate :: "bytes list \<Rightarrow> bytes"
  deflateBound :: "nat \<Rightarrow> nat"
  inflate :: "bytes \<Rightarrow> bytes"
  malloc_ok :: "nat \<Rightarrow> bool"

text \<open>What the sources rely on: the documented behaviour of the two libraries.\<close>

definition sha1_ok :: "extlib \<Rightarrow> bool" where
  "sha1_ok E \<longleftrightarrow> (\<forall>x. length (SHA1 E x) = 20)"

definition zlib_ok :: "extlib \<Rightarrow> bool" where
  "zlib_ok E \<longleftrightarrow> (\<forall>xs. inflate E (deflate E xs) = concat xs \<and> deflate E xs \<noteq> []) \<and>
     (\<forall>x. length (deflate E [x]) \<le> deflateBound E (length x))"

section \<open>Layout of the structures\<close>

text \<open>\<^verbatim>\<open>struct cache_header\<close> is 32 bytes, the members before \<^verbatim>\<open>sha1\<close> are the first 12.\<close>

definition hdr_prefix :: "u32 \<Rightarrow> u32 \<Rightarrow> u32 \<Rightarrow> bytes" where
  "hdr_prefix signature version nr = le32 signature @ le32 version @ le32 nr"

definition put_ce :: "cache_entry \<Rightarrow> bytes" where
  "put_ce ce = le32 (sec (ce_ctime ce)) @ le32 (nsec (ce_ctime ce)) @
     le32 (sec (ce_mtime ce)) @ le32 (nsec (ce_mtime ce)) @
     le32 (ce_dev ce) @ le32 (ce_ino ce) @ le32 (ce_mode ce) @ le32 (ce_uid ce) @ le32 (ce_gid ce) @
     le32 (ce_st_size ce) @ ce_sha1 ce @ le16 (namelen ce) @ name ce"

definition get_ce :: "bytes \<Rightarrow> cache_entry" where
  "get_ce m = \<lparr>ce_ctime = \<lparr>sec = get32 m 0, nsec = get32 m 4\<rparr>,
     ce_mtime = \<lparr>sec = get32 m 8, nsec = get32 m 12\<rparr>,
     ce_dev = get32 m 16, ce_ino = get32 m 20, ce_mode = get32 m 24, ce_uid = get32 m 28,
     ce_gid = get32 m 32, ce_st_size = get32 m 36, ce_sha1 = take 20 (drop 40 m),
     namelen = get16 m 60,
     name = take (cache_entry_size (unat (get16 m 60)) - 62) (drop 62 m)\<rparr>"

section \<open>Reading (src/read-cache.c)\<close>

definition DB_ENVIRONMENT :: bytes where
  "DB_ENVIRONMENT = str ''SHA1_FILE_DIRECTORY''"

definition DEFAULT_DB_ENVIRONMENT :: bytes where
  "DEFAULT_DB_ENVIRONMENT = str ''.dircache/objects''"

definition index_path :: bytes where
  "index_path = str ''.dircache/index''"

definition index_lock :: bytes where
  "index_lock = str ''.dircache/index.lock''"

definition sha1_file_directory :: "'ce world \<Rightarrow> bytes" where
  "sha1_file_directory w = (case getenv DB_ENVIRONMENT w of None \<Rightarrow> DEFAULT_DB_ENVIRONMENT | Some d \<Rightarrow> d)"

text \<open>\<^verbatim>\<open>error(s)\<close> prints and returns -1.\<close>

definition error :: "bytes \<Rightarrow> 'ce world \<Rightarrow> int \<times> 'ce world" where
  "error s w = (- 1, eprintf (str ''error: '' @ s @ newline) w)"

definition verify_hdr :: "extlib \<Rightarrow> bytes \<Rightarrow> 'ce world \<Rightarrow> int \<times> 'ce world" where
  "verify_hdr E m w =
     (if get32 m 0 \<noteq> CACHE_SIGNATURE then error (str ''bad signature'') w
      else if get32 m 4 \<noteq> 1 then error (str ''bad version'') w
      else if SHA1 E (take 12 m @ drop 32 m) \<noteq> take 20 (drop 12 m) then error (str ''bad header sha1'') w
      else (0, w))"

text \<open>
  The loop of \<^verbatim>\<open>read_cache\<close> over \<open>n\<close> entries of the mapping, from the current offset on.  An entry
  that does not lie inside the mapping is an out-of-range access (\<open>None\<close>).
\<close>

fun read_entries :: "nat \<Rightarrow> bytes \<Rightarrow> cache_entry list option" where
  "read_entries 0 m = Some []"
| "read_entries (Suc n) m =
     (if length m < 62 then None
      else (let ce = get_ce m in
            if length m < ce_size ce then None
            else map_option (\<lambda>es. ce # es) (read_entries n (drop (ce_size ce) m))))"

definition ret_error :: "bytes \<Rightarrow> gitworld \<Rightarrow> (int, gitworld) outcome" where
  "ret_error s w = (case error s w of (r, w') \<Rightarrow> Ret r w')"

text \<open>
  The part of \<^verbatim>\<open>read_cache\<close> after the index was mapped.  The header is dereferenced before any check
  for a null \<open>map\<close>, which is what a file of at most \<^verbatim>\<open>sizeof(struct cache_header)\<close> bytes leaves there.
\<close>

definition load_index :: "extlib \<Rightarrow> bytes option \<Rightarrow> gitworld \<Rightarrow> (int, gitworld) outcome" where
  "load_index E mapped w =
     (case mapped of None \<Rightarrow> Undef
      | Some m \<Rightarrow>
        (case verify_hdr E m w of (r, w1) \<Rightarrow>
          (if r < 0 then ret_error (str ''verify header failed'') (w1\<lparr>errno := EINVAL\<rparr>)
           else
             (let nr = get32 m 8; alloc = alloc_nr nr in
              case read_entries (unat nr) (drop 32 m) of None \<Rightarrow> Undef
              | Some es \<Rightarrow>
                 (if unat alloc < length es then Undef
                  else Ret (sint nr) (w1\<lparr>active_nr := nr, active_alloc := alloc,
                     active_cache := Some (map Some es @ replicate (unat alloc - length es) None)\<rparr>))))))"

definition read_cache :: "extlib \<Rightarrow> gitworld \<Rightarrow> (int, gitworld) outcome" where
  "read_cache E w0 =
     (let w = w0\<lparr>errno := EBUSY\<rparr> in
      if active_cache w \<noteq> None then ret_error (str ''more than one cachefile'') w
      else
       (case access (sha1_file_directory w) (w\<lparr>errno := ENOENT\<rparr>) of (ok, w1) \<Rightarrow>
         (if \<not> ok then ret_error (str ''no access to SHA1 file directory'') w1
          else
           (case open_rdonly index_path w1 of (ok, w2) \<Rightarrow>
             (if \<not> ok then (if errno w2 = ENOENT then Ret 0 w2 else ret_error (str ''open failed'') w2)
              else
               (case fstat index_path w2 of
                  (None, w3) \<Rightarrow> ret_error (str ''mmap failed'') w3
                | (Some st, w3) \<Rightarrow>
                   (if 32 < unat (st_size st) then
                      (case mmap index_path (w3\<lparr>errno := EINVAL\<rparr>) of
                         (None, w4) \<Rightarrow> ret_error (str ''mmap failed'') w4
                       | (Some m, w4) \<Rightarrow> load_index E (Some m) w4)
                    else load_index E None (w3\<lparr>errno := EINVAL\<rparr>))))))))"

section \<open>Writing (src/update-cache.c)\<close>

text \<open>The bytes of an entry that are hashed and written: \<^verbatim>\<open>ce_size(ce)\<close> bytes from \<^verbatim>\<open>ce\<close> on.\<close>

definition ce_bytes :: "cache_entry \<Rightarrow> bytes" where
  "ce_bytes ce = take (ce_size ce) (put_ce ce)"

fun write_entries :: "bytes \<Rightarrow> cache_entry list \<Rightarrow> gitworld \<Rightarrow> int \<times> gitworld" where
  "write_entries newfd [] w = (0, w)"
| "write_entries newfd (ce # es) w =
     (case write_fd newfd (ce_bytes ce) w of (n, w1) \<Rightarrow>
        if n \<noteq> ce_size ce then (- 1, w1) else write_entries newfd es w1)"

definition index_header :: "extlib \<Rightarrow> cache_entry list \<Rightarrow> bytes" where
  "index_header E es =
     (let p = hdr_prefix CACHE_SIGNATURE 1 (of_nat (length es))
      in p @ SHA1 E (p @ concat (map ce_bytes es)))"

text \<open>The first \<open>n\<close> slots of the array, dereferenced.\<close>

definition deref_slots :: "nat \<Rightarrow> cache_entry option list \<Rightarrow> cache_entry list option" where
  "deref_slots n a = (if length a < n \<or> None \<in> set (take n a) then None else Some (map the (take n a)))"

definition write_cache ::
  "extlib \<Rightarrow> bytes \<Rightarrow> cache_entry option list \<Rightarrow> nat \<Rightarrow> gitworld \<Rightarrow> (int, gitworld) outcome" where
  "write_cache E newfd cache nr w =
     (case deref_slots nr cache of None \<Rightarrow> Undef
      | Some es \<Rightarrow>
        if \<exists>ce\<in>set es. length (put_ce ce) < ce_size ce then Undef
        else
         (case write_fd newfd (index_header E es) w of (n, w1) \<Rightarrow>
           if n \<noteq> 32 then Ret (- 1) w1
           else (case write_entries newfd es w1 of (r, w2) \<Rightarrow> Ret r w2)))"


section \<open>Layout lemmas\<close>

lemma get32_le32_0 [simp]: "get32 (le32 v @ m) 0 = v"
  using get32_le32 [of 0 "[]" v m] by simp

lemma get32_skip [simp]: "4 \<le> i \<Longrightarrow> get32 (le32 v @ m) i = get32 m (i - 4)"
  by (auto simp: get32_def nth_append dest!: le_Suc_ex)

lemma get16_skip32 [simp]: "4 \<le> i \<Longrightarrow> get16 (le32 v @ m) i = get16 m (i - 4)"
  by (auto simp: get16_def nth_append dest!: le_Suc_ex)

lemma get16_skip20 [simp]: "length s = 20 \<Longrightarrow> 20 \<le> i \<Longrightarrow> get16 (s @ m) i = get16 m (i - 20)"
  by (auto simp: get16_def nth_append dest!: le_Suc_ex)

lemma get16_le16_0 [simp]: "get16 (le16 v @ m) 0 = v"
  using get16_le16 [of 0 "[]" v m] by simp

lemma length_put_ce [lens]: "length (ce_sha1 ce) = 20 \<Longrightarrow> length (put_ce ce) = 62 + length (name ce)"
  by (simp add: put_ce_def)

lemma wf_ce_length_name: "wf_ce ce \<Longrightarrow> length (name ce) = ce_size ce - 62"
proof -
  assume wf: "wf_ce ce"
  then have "length (name ce) = unat (namelen ce) + (ce_size ce - 62 - unat (namelen ce))"
    unfolding wf_ce_def by (metis length_append length_replicate)
  then show ?thesis
    using cache_entry_size_bounds(1) [of "unat (namelen ce)"] by (simp add: ce_size_def)
qed

lemma wf_ce_length_put: "wf_ce ce \<Longrightarrow> length (put_ce ce) = ce_size ce"
  using cache_entry_size_bounds(1) [of "unat (namelen ce)"]
  by (auto simp: length_put_ce wf_ce_length_name ce_size_def wf_ce_def)

lemma ce_bytes_wf: "wf_ce ce \<Longrightarrow> ce_bytes ce = put_ce ce"
  by (simp add: ce_bytes_def wf_ce_length_put)

lemma length_ce_bytes: "wf_ce ce \<Longrightarrow> length (ce_bytes ce) = ce_size ce"
  by (simp add: ce_bytes_wf wf_ce_length_put)

lemma ce_size_ge: "62 \<le> ce_size ce"
  using cache_entry_size_bounds(1) [of "unat (namelen ce)"] by (simp add: ce_size_def)

lemma get_put_ce [codec]: "wf_ce ce \<Longrightarrow> get_ce (put_ce ce @ m) = ce"
proof -
  assume wf: "wf_ce ce"
  then have s: "length (ce_sha1 ce) = 20" by (simp add: wf_ce_def)
  have n: "get16 (put_ce ce @ m) 60 = namelen ce"
    using s by (simp add: put_ce_def)
  have "take (cache_entry_size (unat (namelen ce)) - 62) (drop 62 (put_ce ce @ m)) = name ce"
    using wf_ce_length_name [OF wf] s by (simp add: put_ce_def ce_size_def)
  moreover have "take 20 (drop 40 (put_ce ce @ m)) = ce_sha1 ce"
    using s by (simp add: put_ce_def)
  ultimately show ?thesis
    unfolding get_ce_def n by (simp add: put_ce_def)
qed

lemma read_entries_concat [codec]:
  "\<forall>ce\<in>set es. wf_ce ce \<Longrightarrow> read_entries (length es) (concat (map ce_bytes es) @ m) = Some es"
proof (induction es)
  case (Cons ce es)
  let ?m = "concat (map ce_bytes es) @ m"
  have wf: "wf_ce ce" using Cons.prems by simp
  have g: "get_ce (ce_bytes ce @ ?m) = ce" using wf by (simp add: ce_bytes_wf get_put_ce)
  have "\<not> length (ce_bytes ce @ ?m) < 62" "\<not> length (ce_bytes ce @ ?m) < ce_size ce"
    using ce_size_ge [of ce] by (simp_all add: length_ce_bytes [OF wf])
  moreover have "drop (ce_size ce) (ce_bytes ce @ ?m) = ?m"
    by (simp add: length_ce_bytes [OF wf])
  ultimately show ?case
    using Cons g by (simp add: Let_def)
qed simp


section \<open>Writing and reading back\<close>

lemma cache_inv_deref:
  assumes "cache_inv w"
  shows "deref_slots (unat (active_nr w)) (slots w) = Some (entries w)"
proof -
  have "length (slots w) \<ge> unat (active_nr w)" using assms by (simp add: cache_inv_def)
  moreover have "None \<notin> set (take (unat (active_nr w)) (slots w))"
    unfolding take_slots [OF assms] by auto
  ultimately show ?thesis by (simp add: deref_slots_def entries_def)
qed

text \<open>The whole file that \<^verbatim>\<open>write_cache\<close> produces when nothing fails.\<close>

definition index_bytes :: "extlib \<Rightarrow> cache_entry list \<Rightarrow> bytes" where
  "index_bytes E es = index_header E es @ concat (map ce_bytes es)"

lemma length_index_header [lens]: "sha1_ok E \<Longrightarrow> length (index_header E es) = 32"
  by (simp add: index_header_def hdr_prefix_def Let_def sha1_ok_def)

lemma write_fd_room:
  assumes "fs w p = Some (Regular s d)" "room w p = None"
  shows "write_fd p buf w = (length buf, w\<lparr>fs := (fs w)(p \<mapsto> Regular s (d @ buf))\<rparr>)"
  using assms by (simp add: write_fd_def)

lemma write_entries_ok:
  assumes "fs w p = Some (Regular s d)" "room w p = None" "\<forall>ce\<in>set es. wf_ce ce"
  shows "write_entries p es w =
    (0, w\<lparr>fs := (fs w)(p \<mapsto> Regular s (d @ concat (map ce_bytes es)))\<rparr>)"
  using assms
proof (induction es arbitrary: w d)
  case Nil
  then have "(fs w)(p \<mapsto> Regular s d) = fs w" by auto
  then show ?case by simp
next
  case (Cons ce es)
  let ?w = "w\<lparr>fs := (fs w)(p \<mapsto> Regular s (d @ ce_bytes ce))\<rparr>"
  have "write_entries p es ?w = (0, ?w\<lparr>fs := (fs ?w)
      (p \<mapsto> Regular s ((d @ ce_bytes ce) @ concat (map ce_bytes es)))\<rparr>)"
    by (rule Cons.IH) (use Cons.prems in simp_all)
  moreover have "(fs ?w)(p \<mapsto> x) = (fs w)(p \<mapsto> x)" for x by simp
  ultimately show ?case
    using Cons.prems write_fd_room [OF Cons.prems(1,2), of "ce_bytes ce"]
    by (simp add: length_ce_bytes fun_upd_def)
qed

lemma write_cache_ok:
  assumes "sha1_ok E" "cache_inv w" "fs w p = Some (Regular s [])" "room w p = None"
  shows "write_cache E p (slots w) (unat (active_nr w)) w =
    Ret 0 (w\<lparr>fs := (fs w)(p \<mapsto> Regular s (index_bytes E (entries w)))\<rparr>)"
proof -
  have wfs: "\<forall>ce\<in>set (entries w). wf_ce ce" using assms(2) by (simp add: cache_inv_def)
  then have "\<not> (\<exists>ce\<in>set (entries w). length (put_ce ce) < ce_size ce)"
    by (auto simp: wf_ce_length_put)
  with assms wfs show ?thesis
    by (simp add: write_cache_def cache_inv_deref write_fd_room length_index_header
        write_entries_ok index_bytes_def)
qed

lemma index_bytes_parts:
  assumes "sha1_ok E"
  shows "get32 (index_bytes E es) 0 = CACHE_SIGNATURE" "get32 (index_bytes E es) 4 = 1"
    "get32 (index_bytes E es) 8 = of_nat (length es)"
    "drop 32 (index_bytes E es) = concat (map ce_bytes es)"
    "SHA1 E (take 12 (index_bytes E es) @ concat (map ce_bytes es)) = take 20 (drop 12 (index_bytes E es))"
  using assms by (simp_all add: index_bytes_def index_header_def hdr_prefix_def Let_def sha1_ok_def)

lemma load_index_bytes:
  assumes "sha1_ok E" "\<forall>ce\<in>set es. wf_ce ce" "length es < 2 ^ 29"
  shows "load_index E (Some (index_bytes E es)) w =
    Ret (int (length es)) (w\<lparr>active_nr := of_nat (length es), active_alloc := alloc_nr (of_nat (length es)),
      active_cache := Some (map Some es @
        replicate (unat (alloc_nr (of_nat (length es))) - length es) None)\<rparr>)"
proof -
  have n: "unat (of_nat (length es) :: u32) = length es"
    using assms(3) by (simp add: unat_of_nat)
  then have "unat (alloc_nr (of_nat (length es))) = (length es + 16) * 3 div 2"
    using assms(3) by (simp add: unat_alloc_nr)
  then have a: "\<not> unat (alloc_nr (of_nat (length es))) < length es" by simp
  have s: "sint (of_nat (length es) :: u32) = int (length es)"
    using assms(3) n by (simp add: sint_small)
  have r: "read_entries (unat (of_nat (length es) :: u32)) (concat (map ce_bytes es)) = Some es"
    using read_entries_concat [OF assms(2), of "[]"] n by simp
  show ?thesis
    using a r s by (simp add: load_index_def verify_hdr_def index_bytes_parts [OF assms(1)] Let_def)
qed


text \<open>The state in which \<^verbatim>\<open>read_cache\<close> finds a given index file and nothing fails.\<close>

definition index_readable :: "bytes \<Rightarrow> gitworld \<Rightarrow> bool" where
  "index_readable d w \<longleftrightarrow> active_cache w = None \<and> (\<exists>s. fs w index_path = Some (Regular s d)) \<and>
     length d < 2 ^ 64 \<and> (\<forall>op. fault w op index_path = None) \<and>
     fault w SysAccess (sha1_file_directory w) = None \<and> fs w (sha1_file_directory w) \<noteq> None"

lemma read_cache_load:
  assumes "index_readable d w"
  shows "read_cache E w =
    load_index E (if 32 < length d then Some d else None) (w\<lparr>errno := EINVAL\<rparr>)"
proof -
  obtain s where s: "fs w index_path = Some (Regular s d)" using assms by (auto simp: index_readable_def)
  have "unat (of_nat (length d) :: u64) = length d"
    using assms by (simp add: index_readable_def unat_of_nat)
  moreover have "sha1_file_directory (w\<lparr>errno := e\<rparr>) = sha1_file_directory w" for e
    by (simp add: sha1_file_directory_def getenv_def)
  ultimately show ?thesis
    using assms s by (auto simp: read_cache_def index_readable_def sys_defs Let_def)
qed

lemma read_cache_index_bytes:
  assumes "sha1_ok E" "\<forall>ce\<in>set es. wf_ce ce" "key_sorted ce_name es" "es \<noteq> []" "length es < 2 ^ 29"
    and "index_readable (index_bytes E es) w"
  shows "\<exists>w'. read_cache E w = Ret (int (length es)) w' \<and> cache_inv w' \<and> entries w' = es \<and>
    fs w' = fs w \<and> stdout w' = stdout w \<and> stderr w' = stderr w"
proof -
  obtain ce es' where es: "es = ce # es'" using assms(4) by (cases es) auto
  then have "62 \<le> length (ce_bytes ce)" using assms(2) ce_size_ge [of ce] by (simp add: length_ce_bytes)
  then have big: "32 < length (index_bytes E es)"
    using assms(1) by (auto simp: index_bytes_def length_index_header es)
  have n: "unat (of_nat (length es) :: u32) = length es"
    using assms(5) by (simp add: unat_of_nat)
  let ?alloc = "alloc_nr (of_nat (length es))"
  let ?spare = "replicate (unat ?alloc - length es) None"
  have al: "unat ?alloc = (length es + 16) * 3 div 2"
    using assms(5) n by (simp add: unat_alloc_nr)
  define w' where "w' = w\<lparr>errno := EINVAL, active_nr := of_nat (length es), active_alloc := ?alloc,
      active_cache := Some (map Some es @ ?spare)\<rparr>"
  have "read_cache E w = Ret (int (length es)) w'"
    using read_cache_load [OF assms(6), of E] big load_index_bytes [OF assms(1,2,5)]
    by (simp add: w'_def)
  moreover have "cache_inv w'" "entries w' = es"
    using cache_invI [of w' es ?spare] assms n al by (simp_all add: w'_def)
  ultimately show ?thesis by (simp add: w'_def)
qed

text \<open>An index that lists no entry is 32 bytes long, and reading it dereferences a null pointer.\<close>

lemma read_cache_empty_index:
  assumes "sha1_ok E" "index_readable (index_bytes E []) w"
  shows "read_cache E w = Undef"
proof -
  have "\<not> 32 < length (index_bytes E [])"
    using assms(1) by (simp add: index_bytes_def length_index_header)
  then show ?thesis
    unfolding read_cache_load [OF assms(2)] by (simp add: load_index_def)
qed

lemma read_cache_no_index:
  assumes "active_cache w = None" "fault w SysAccess (sha1_file_directory w) = None"
    "fs w (sha1_file_directory w) \<noteq> None" "fault w SysOpen index_path = None" "fs w index_path = None"
  shows "read_cache E w = Ret 0 (w\<lparr>errno := ENOENT\<rparr>)"
proof -
  have "sha1_file_directory (w\<lparr>errno := e\<rparr>) = sha1_file_directory w" for e
    by (simp add: sha1_file_directory_def getenv_def)
  then show ?thesis
    using assms by (auto simp: read_cache_def sys_defs Let_def)
qed

text \<open>A damaged index is refused: nothing is loaded.\<close>

lemma load_index_rejects:
  assumes "get32 m 0 \<noteq> CACHE_SIGNATURE \<or> get32 m 4 \<noteq> 1 \<or> SHA1 E (take 12 m @ drop 32 m) \<noteq> take 20 (drop 12 m)"
  shows "\<exists>w'. load_index E (Some m) w = Ret (- 1) w' \<and> active_cache w' = active_cache w \<and>
    active_nr w' = active_nr w \<and> fs w' = fs w"
  using assms
  by (auto simp: load_index_def verify_hdr_def error_def ret_error_def out_defs)

end
