(* ===== verification/Objects.thy ===== *)
theory Objects
  imports Index_File
begin

text \<open>
  The object database of \<^verbatim>\<open>src/read-cache.c\<close>: \<^verbatim>\<open>write_sha1_buffer\<close>, \<^verbatim>\<open>write_sha1_file\<close> and
  \<^verbatim>\<open>read_sha1_file\<close>, the lookup test of \<^verbatim>\<open>src/write-tree.c\<close> and the command of \<^verbatim>\<open>src/cat-file.c\<close>.
\<close>

section \<open>Definitions\<close>

definition object_path :: "bytes \<Rightarrow> 'ce world \<Rightarrow> bytes" where
  "object_path sha1 w = sha1_file_name (sha1_file_directory w) sha1"

text \<open>
  \<^verbatim>\<open>write_sha1_buffer\<close>: an object that exists already counts as written; the result of \<^verbatim>\<open>write\<close> is
  not looked at.
\<close>

definition write_sha1_buffer :: "bytes \<Rightarrow> bytes \<Rightarrow> gitworld \<Rightarrow> int \<times> gitworld" where
  "write_sha1_buffer sha1 buf w =
     (let filename = object_path sha1 w in
      case open_excl filename w of (ok, w1) \<Rightarrow>
        if \<not> ok then (if errno w1 = EEXIST then 0 else - 1, w1)
        else (case write_fd filename buf w1 of (_, w2) \<Rightarrow> (0, w2)))"

text \<open>
  \<^verbatim>\<open>write_sha1_file(buf, len, sha1)\<close>: the output buffer has \<^verbatim>\<open>deflateBound\<close> bytes.  The result is the
  return value and the name stored through \<^verbatim>\<open>sha1\<close>.
\<close>

definition write_sha1_file :: "extlib \<Rightarrow> bytes \<Rightarrow> gitworld \<Rightarrow> (int \<times> bytes) \<times> gitworld" where
  "write_sha1_file E buf w =
     (let compressed = take (deflateBound E (length buf)) (deflate E [buf]);
          sha1 = SHA1 E compressed
      in case write_sha1_buffer sha1 compressed w of (r, w1) \<Rightarrow>
           if r < 0 then ((- 1, sha1), w1)
           else ((0, sha1), printf (sha1_to_hex sha1 @ newline) w1))"

text \<open>\<^verbatim>\<open>sscanf(buffer, "%10s %lu", type, size)\<close> on a C string.\<close>

definition scan_header :: "bytes \<Rightarrow> (bytes \<times> nat) option" where
  "scan_header s =
     (let s1 = skip_space s; t = take 10 (takeWhile (\<lambda>c. \<not> is_space c) s1) in
      if t = [] then None
      else (case scan_unsigned 10 64 (drop (length t) s1) of None \<Rightarrow> None
            | Some (n, _) \<Rightarrow> Some (t, n)))"

text \<open>
  What \<^verbatim>\<open>read_sha1_file\<close> does with the decoded stream \<open>data\<close>.  The first \<^verbatim>\<open>inflate\<close> fills at most the
  8192 bytes of \<^verbatim>\<open>buffer\<close>, which must contain the NUL of the header, or \<^verbatim>\<open>sscanf\<close> and \<^verbatim>\<open>strlen\<close> run into
  indeterminate bytes.  The body is copied into \<^verbatim>\<open>malloc(size)\<close>: the part that was decoded already in
  full (an overflow when it is longer than \<^verbatim>\<open>size\<close>), the rest up to \<^verbatim>\<open>size\<close>; a body shorter than \<^verbatim>\<open>size\<close>
  leaves indeterminate bytes at the end.
\<close>

definition unpack_object :: "extlib \<Rightarrow> bytes \<Rightarrow> 'ce world \<Rightarrow> ((bytes \<times> bytes) option, 'ce world) outcome" where
  "unpack_object E data w =
     (let buffer = take 8192 data in
      if no_nul buffer then Undef
      else (case scan_header (cstr buffer) of None \<Rightarrow> Ret None w
        | Some (type, sz) \<Rightarrow>
          (let hdr = length (cstr buffer) + 1 in
           if \<not> malloc_ok E sz then Ret None w
           else if sz < length buffer - hdr then Undef
           else if length data - hdr < sz then Undef
           else Ret (Some (type, take sz (drop hdr data))) w)))"

text \<open>\<^verbatim>\<open>read_sha1_file\<close>: \<open>None\<close> is the null pointer, otherwise the type and the body.\<close>

definition read_sha1_file :: "extlib \<Rightarrow> bytes \<Rightarrow> gitworld \<Rightarrow> ((bytes \<times> bytes) option, gitworld) outcome" where
  "read_sha1_file E sha1 w =
     (let filename = object_path sha1 w in
      case open_rdonly filename w of (ok, w1) \<Rightarrow>
        if \<not> ok then Ret None (perror filename w1)
        else (case fstat filename w1 of (None, w2) \<Rightarrow> Ret None w2
          | (Some st, w2) \<Rightarrow>
            (case mmap filename w2 of (None, w3) \<Rightarrow> Ret None w3
             | (Some m, w3) \<Rightarrow> unpack_object E (inflate E m) w3)))"

text \<open>\<^verbatim>\<open>check_valid_sha1\<close> of \<^verbatim>\<open>write-tree.c\<close>: 0 when the object can be read.\<close>

definition check_valid_sha1 :: "bytes \<Rightarrow> gitworld \<Rightarrow> int \<times> gitworld" where
  "check_valid_sha1 sha1 w =
     (case access (object_path sha1 w) w of (ok, w1) \<Rightarrow>
        if ok then (0, w1) else (- 1, perror (object_path sha1 w) w1))"

text \<open>\<^verbatim>\<open>usage(err)\<close> prints and leaves the process.\<close>

definition usage :: "bytes \<Rightarrow> gitworld \<Rightarrow> ('a, gitworld) outcome" where
  "usage err w = Exit 1 (eprintf (str ''read-tree: '' @ err @ newline) w)"

text \<open>
  \<^verbatim>\<open>mkstemp(template)\<close> creates a file under a fresh name; which one is up to the system, so the name is
  an argument.  \<^verbatim>\<open>cat_file\<close> falls off its end (no caller uses the result).
\<close>

definition mkstemp :: "bytes \<Rightarrow> gitworld \<Rightarrow> bool \<times> gitworld" where
  "mkstemp tmp w = sys_create SysMkstemp (\<lambda>s. Regular s []) tmp w"

definition cat_file :: "extlib \<Rightarrow> bytes \<Rightarrow> bytes list \<Rightarrow> gitworld \<Rightarrow> (unit, gitworld) outcome" where
  "cat_file E tmp argv w =
     (if length argv \<noteq> 3 then usage (str ''cat-file: cat-file <sha1>'') w
      else (case get_sha1_hex (argv ! 2) of None \<Rightarrow> usage (str ''cat-file: cat-file <sha1>'') w
       | Some sha1 \<Rightarrow>
         bindO (read_sha1_file E sha1 w) (\<lambda>r w1.
           case r of None \<Rightarrow> Exit 1 w1
           | Some (type, buf) \<Rightarrow>
             (case mkstemp tmp w1 of (ok, w2) \<Rightarrow>
               if \<not> ok then usage (str ''unable to create tempfile'') w2
               else (case write_fd tmp buf w2 of (n, w3) \<Rightarrow>
                  Ret () (printf (tmp @ str '': '' @ (if n \<noteq> length buf then str ''bad'' else type)
                     @ newline) w3))))))"

section \<open>Framed objects\<close>

text \<open>The uncompressed form of every object: type, decimal size, NUL, body.\<close>

definition frame :: "bytes \<Rightarrow> bytes \<Rightarrow> bytes" where
  "frame type body = type @ 32 # fmt_dec (length body) @ 0 # body"

definition type_ok :: "bytes \<Rightarrow> bool" where
  "type_ok t \<longleftrightarrow> t \<noteq> [] \<and> length t \<le> 10 \<and> no_nul t \<and> (\<forall>c\<in>set t. \<not> is_space c)"

lemma scan_header_frame [codec]:
  assumes "type_ok t" "n < 2 ^ 64"
  shows "scan_header (t @ 32 # fmt_dec n) = Some (t, n)"
proof -
  have sp: "skip_space (t @ 32 # fmt_dec n) = t @ 32 # fmt_dec n"
    using assms(1) by (cases t) (auto simp: type_ok_def)
  have tw: "takeWhile (\<lambda>c. \<not> is_space c) (t @ 32 # fmt_dec n) = t"
    using assms(1) by (subst takeWhile_all_append) (auto simp: type_ok_def is_space_def)
  have su: "scan_unsigned 10 64 (32 # fmt_dec n) = scan_unsigned 10 64 (fmt_dec n @ [])"
    by (simp add: scan_unsigned_def is_space_def)
  have "scan_unsigned 10 64 (fmt_dec n @ []) = Some (n, [])"
    using assms(2) by (intro scan_unsigned_digits) auto
  then show ?thesis
    using assms(1) unfolding scan_header_def sp tw Let_def
    by (simp add: type_ok_def su)
qed

lemma cstr_frame:
  assumes "type_ok t"
  shows "cstr (frame t body) = t @ 32 # fmt_dec (length body)"
  using assms cstr_append_nul [of "t @ 32 # fmt_dec (length body)" body]
  by (simp add: frame_def type_ok_def)

lemma length_frame_header:
  assumes "type_ok t" "length body < 2 ^ 64"
  shows "length t + 1 + length (fmt_dec (length body)) + 1 \<le> 32"
proof -
  have "length body < 10 ^ 20" using assms(2) by simp
  then have "length (fmt_dec (length body)) \<le> 20" by (intro length_digits_le) auto
  with assms(1) show ?thesis by (simp add: type_ok_def)
qed

lemma unpack_frame [codec]:
  assumes "type_ok t" "length body < 2 ^ 64" "malloc_ok E (length body)"
  shows "unpack_object E (frame t body) w = Ret (Some (t, body)) w"
proof -
  let ?h = "t @ 32 # fmt_dec (length body)"
  have fr: "frame t body = (?h @ [0]) @ body" by (simp add: frame_def)
  have h: "length ?h + 1 \<le> 8192" using length_frame_header [OF assms(1,2)] by simp
  then have tk: "take 8192 (frame t body) = ?h @ 0 # take (8192 - (length ?h + 1)) body"
    unfolding fr by (simp only: take_append) (simp add: take_all_iff)
  have nn: "no_nul ?h" using assms(1) by (simp add: type_ok_def)
  have c: "cstr (take 8192 (frame t body)) = ?h" unfolding tk by (rule cstr_append_nul [OF nn])
  show ?thesis
    unfolding unpack_object_def Let_def c scan_header_frame [OF assms(1,2)] option.case prod.case
    unfolding tk using assms(3) by (simp add: fr)
qed


section \<open>Objects are written once\<close>

text \<open>What a call leaves alone besides files and streams.\<close>

definition same_config :: "'ce world \<Rightarrow> 'ce world \<Rightarrow> bool" where
  "same_config w w' \<longleftrightarrow> env w' = env w \<and> fault w' = fault w \<and> room w' = room w \<and> new_stat w' = new_stat w"

lemma same_config_refl [simp]: "same_config w w"
  by (simp add: same_config_def)

lemma same_config_trans: "same_config u v \<Longrightarrow> same_config v w \<Longrightarrow> same_config u w"
  by (simp add: same_config_def)

lemma object_path_config: "same_config w w' \<Longrightarrow> object_path sha1 w' = object_path sha1 w"
  by (simp add: object_path_def same_config_def sha1_file_directory_def getenv_def)

text \<open>
  Writing a buffer: nothing happens when the object exists or cannot be created; otherwise the file
  appears with as much of the buffer as there is room for.
\<close>

lemma write_sha1_buffer_cases:
  assumes "write_sha1_buffer sha1 buf w = (r, w')"
  obtains (kept) "fs w' = fs w" "r = 0" "fs w (object_path sha1 w) \<noteq> None"
  | (refused) "fs w' = fs w" "r = 0 \<or> r = - 1"
      "fault w SysCreat (object_path sha1 w) \<noteq> None \<or> \<not> is_dir w (parent (object_path sha1 w))"
  | (created) n st where "fs w (object_path sha1 w) = None" "r = 0"
      "fs w' = (fs w)(object_path sha1 w \<mapsto> Regular st (take n buf))"
      "n = (case room w (object_path sha1 w) of None \<Rightarrow> length buf | Some k \<Rightarrow> min (length buf) k)"
      "fault w SysCreat (object_path sha1 w) = None" "is_dir w (parent (object_path sha1 w))"
  using assms
  by (auto simp: write_sha1_buffer_def Let_def sys_defs write_fd_def split: option.splits if_splits)

lemma write_sha1_buffer_config: "write_sha1_buffer sha1 buf w = (r, w') \<Longrightarrow>
  same_config w w' \<and> active_cache w' = active_cache w \<and> active_nr w' = active_nr w \<and>
  active_alloc w' = active_alloc w \<and> stdout w' = stdout w \<and> stderr w' = stderr w"
  by (auto simp: write_sha1_buffer_def same_config_def Let_def sys_defs write_fd_def
      split: option.splits if_splits inode.splits)

lemma write_sha1_buffer_map_le:
  assumes "write_sha1_buffer sha1 buf w = (r, w')"
  shows "fs w \<subseteq>\<^sub>m fs w'"
  using assms by (cases rule: write_sha1_buffer_cases) (auto simp: map_le_def)

lemma write_sha1_file_map_le:
  "write_sha1_file E buf w = (r, w') \<Longrightarrow> fs w \<subseteq>\<^sub>m fs w' \<and> same_config w w'"
  by (auto simp: write_sha1_file_def Let_def out_defs same_config_def
      dest: write_sha1_buffer_map_le write_sha1_buffer_config split: prod.splits if_splits)

section \<open>Reading back what was written\<close>

text \<open>No system call on the path is refused.\<close>

definition no_fault :: "bytes \<Rightarrow> 'ce world \<Rightarrow> bool" where
  "no_fault p w \<longleftrightarrow> (\<forall>op. fault w op p = None)"

lemma read_sha1_file_stored:
  assumes "fs w (object_path sha1 w) = Some (Regular st d)" "d \<noteq> []" "no_fault (object_path sha1 w) w"
  shows "read_sha1_file E sha1 w = unpack_object E (inflate E d) w"
  using assms by (simp add: read_sha1_file_def no_fault_def sys_defs Let_def)

text \<open>
  The database accepts a new object: its directory exists, nothing fails or fills up, and a file that
  already has its name holds the same bytes (no collision).
\<close>

definition storable :: "extlib \<Rightarrow> bytes \<Rightarrow> gitworld \<Rightarrow> bool" where
  "storable E buf w \<longleftrightarrow>
     (let p = object_path (SHA1 E (deflate E [buf])) w in
      no_fault p w \<and> room w p = None \<and> is_dir w (parent p) \<and>
      (\<forall>i. fs w p = Some i \<longrightarrow> (\<exists>st. i = Regular st (deflate E [buf]))))"

lemma storable_cong: "same_config w w' \<Longrightarrow> fs w' = fs w \<Longrightarrow> storable E buf w' \<longleftrightarrow> storable E buf w"
  using object_path_config [of w w']
  by (simp add: storable_def Let_def no_fault_def same_config_def is_dir_def)

lemma write_sha1_file_stores:
  assumes "zlib_ok E" "storable E buf w" "write_sha1_file E buf w = ((r, sha1), w')"
  shows "r = 0 \<and> sha1 = SHA1 E (deflate E [buf]) \<and>
    stdout w' = stdout w @ sha1_to_hex sha1 @ newline \<and>
    (\<exists>st. fs w' (object_path sha1 w') = Some (Regular st (deflate E [buf])))"
proof -
  let ?c = "deflate E [buf]"
  let ?p = "object_path (SHA1 E ?c) w"
  have c: "take (deflateBound E (length buf)) ?c = ?c"
    using assms(1) by (simp add: zlib_ok_def)
  obtain q w1 where q: "write_sha1_buffer (SHA1 E ?c) ?c w = (q, w1)" by fastforce
  note cfg = write_sha1_buffer_config [OF q]
  have ok: "q = 0 \<and> (\<exists>st. fs w1 ?p = Some (Regular st ?c))"
    using q
  proof (cases rule: write_sha1_buffer_cases)
    case kept
    then show ?thesis using assms(2) by (auto simp: storable_def Let_def)
  next
    case refused
    then show ?thesis using assms(2) by (auto simp: storable_def Let_def no_fault_def)
  next
    case (created n st)
    then show ?thesis using assms(2) by (auto simp: storable_def Let_def)
  qed
  have w': "w' = printf (sha1_to_hex (SHA1 E ?c) @ newline) w1" "r = 0" "sha1 = SHA1 E ?c"
    using assms(3) q ok c by (auto simp: write_sha1_file_def Let_def)
  have "object_path sha1 w' = ?p"
    using cfg w' by (simp add: object_path_def sha1_file_directory_def getenv_def out_defs same_config_def)
  with w' ok cfg show ?thesis by (simp add: out_defs)
qed


section \<open>The interface of a content-addressed store\<close>

locale content_store =
  fixes inv :: "'s \<Rightarrow> bool" and get :: "'s \<Rightarrow> 'k \<Rightarrow> 'v option" and put :: "'v \<Rightarrow> 's \<Rightarrow> 'k \<Rightarrow> 's \<Rightarrow> bool"
  assumes put_inv: "inv s \<Longrightarrow> put v s k s' \<Longrightarrow> inv s'"
    and get_put: "inv s \<Longrightarrow> put v s k s' \<Longrightarrow> get s' k = Some v"
    and put_keeps: "inv s \<Longrightarrow> put v s k s' \<Longrightarrow> get s j = Some u \<Longrightarrow> get s' j = Some u"
begin

inductive stores :: "'s \<Rightarrow> ('v \<times> 'k) list \<Rightarrow> 's \<Rightarrow> bool" where
  stores_Nil: "stores s [] s"
| stores_Cons: "put v s k s1 \<Longrightarrow> stores s1 vks s' \<Longrightarrow> stores s ((v, k) # vks) s'"

lemma stores_keeps: "stores s vks s' \<Longrightarrow> inv s \<Longrightarrow> get s j = Some u \<Longrightarrow> get s' j = Some u \<and> inv s'"
  by (induction rule: stores.induct) (auto intro: put_inv put_keeps)

lemma stores_get: "stores s vks s' \<Longrightarrow> inv s \<Longrightarrow> (v, k) \<in> set vks \<Longrightarrow> get s' k = Some v"
  by (induction rule: stores.induct) (auto intro: put_inv dest: stores_keeps get_put)

end

text \<open>What the database holds under a name: the decoded contents of the object file.\<close>

definition stored :: "extlib \<Rightarrow> gitworld \<Rightarrow> bytes \<Rightarrow> bytes option" where
  "stored E w sha1 =
     (case fs w (object_path sha1 w) of Some (Regular st d) \<Rightarrow> Some (inflate E d) | _ \<Rightarrow> None)"

definition put_object :: "extlib \<Rightarrow> bytes \<Rightarrow> gitworld \<Rightarrow> bytes \<Rightarrow> gitworld \<Rightarrow> bool" where
  "put_object E buf w sha1 w' \<longleftrightarrow> storable E buf w \<and> write_sha1_file E buf w = ((0, sha1), w')"

interpretation objects: content_store "\<lambda>_. zlib_ok E" "stored E" "put_object E" for E
proof unfold_locales
  fix v w k w' assume ok: "zlib_ok E" and put: "put_object E v w k w'"
  then obtain st where "fs w' (object_path k w') = Some (Regular st (deflate E [v]))"
    using write_sha1_file_stores [OF ok, of v w 0 k w'] by (auto simp: put_object_def)
  with ok show "stored E w' k = Some v" by (simp add: stored_def zlib_ok_def)
next
  fix v w k w' j u assume "put_object E v w k w'" "stored E w j = Some u"
  then show "stored E w' j = Some u"
    using write_sha1_file_map_le [of E v w "(0, k)" w'] object_path_config [of w w' j]
    by (auto simp: put_object_def stored_def map_le_def dom_def split: option.splits inode.splits)
qed

end
