(* ===== verification/Update_Cache.thy ===== *)
theory Update_Cache
  imports Objects
begin

text \<open>
  The command \<^verbatim>\<open>--add\<close>: \<^verbatim>\<open>index_fd\<close>, \<^verbatim>\<open>add_file_to_cache\<close>, \<^verbatim>\<open>verify_path\<close> and \<^verbatim>\<open>update_cache\<close> of
  \<^verbatim>\<open>src/update-cache.c\<close>.
\<close>

section \<open>Adding one file\<close>

text \<open>
  \<^verbatim>\<open>index_fd\<close> compresses the header and the file into a buffer of \<^verbatim>\<open>namelen + st_size + 200\<close> bytes (an
  \<^verbatim>\<open>int\<close>; a negative size makes \<^verbatim>\<open>malloc\<close> fail) and stores it.  Output that does not fit is cut off:
  \<^verbatim>\<open>deflate\<close> stops, and \<^verbatim>\<open>total_out\<close> is what was written.  The length handed to zlib is the low
  32 bits of the file size.  The result is the return value and the name of the object.
\<close>

definition max_out_bytes :: "nat \<Rightarrow> u64 \<Rightarrow> int" where
  "max_out_bytes len sz = sint (ucast (of_nat len + sz + 200 :: u64) :: u32)"

definition blob_header :: "u64 \<Rightarrow> bytes" where
  "blob_header sz = str ''blob '' @ fmt_dec (unat sz) @ [0]"

definition index_fd :: "extlib \<Rightarrow> bytes \<Rightarrow> nat \<Rightarrow> stat \<Rightarrow> gitworld \<Rightarrow> (int \<times> bytes) \<times> gitworld" where
  "index_fd E path len st w =
     (case mmap path w of (mapped, w1) \<Rightarrow>
        let mx = max_out_bytes len (st_size st) in
        if mx < 0 \<or> \<not> malloc_ok E (nat mx) then ((- 1, []), w1)
        else (case mapped of None \<Rightarrow> ((- 1, []), w1)
          | Some m \<Rightarrow>
            (let contents = take (unat (ucast (st_size st) :: u32)) m;
                 out = take (nat mx) (deflate E [blob_header (st_size st), contents]);
                 sha1 = SHA1 E out
             in case write_sha1_buffer sha1 out w1 of (r, w2) \<Rightarrow> ((r, sha1), w2))))"

text \<open>The entry built from a path and its \<^verbatim>\<open>struct stat\<close>: every field is cut to 32 bits, the length to 16.\<close>

definition make_ce :: "bytes \<Rightarrow> stat \<Rightarrow> bytes \<Rightarrow> cache_entry" where
  "make_ce path st sha1 =
     \<lparr>ce_ctime = \<lparr>sec = ucast (st_ctim_sec st), nsec = ucast (st_ctim_nsec st)\<rparr>,
      ce_mtime = \<lparr>sec = ucast (st_mtim_sec st), nsec = ucast (st_mtim_nsec st)\<rparr>,
      ce_dev = ucast (st_dev st), ce_ino = ucast (st_ino st), ce_mode = st_mode st,
      ce_uid = st_uid st, ce_gid = st_gid st, ce_st_size = ucast (st_size st),
      ce_sha1 = sha1, namelen = of_nat (length path),
      name = path @ replicate (cache_entry_size (length path) - 62 - length path) 0\<rparr>"

text \<open>
  \<^verbatim>\<open>remove_file_from_cache\<close> has no \<^verbatim>\<open>return\<close>, but \<^verbatim>\<open>add_file_to_cache\<close> returns its value.  What the caller
  gets is whatever the return register holds: an arbitrary function \<open>noret\<close> of the path and the array.
\<close>

type_synonym noret = "bytes \<Rightarrow> cache_entry option list \<Rightarrow> int"

definition add_file_to_cache ::
  "extlib \<Rightarrow> noret \<Rightarrow> bytes \<Rightarrow> gitworld \<Rightarrow> (int, gitworld) outcome" where
  "add_file_to_cache E noret path w =
     (case open_rdonly path w of (ok, w1) \<Rightarrow>
       if \<not> ok then
         (if errno w1 = ENOENT then
            bindO (remove_file_from_cache path w1) (\<lambda>_ w2. Ret (noret path (slots w2)) w2)
          else Ret (- 1) w1)
       else
         (case fstat path w1 of (None, w2) \<Rightarrow> Ret (- 1) w2
          | (Some st, w2) \<Rightarrow>
            (case index_fd E path (length path) st w2 of ((r, sha1), w3) \<Rightarrow>
               if r < 0 then Ret (- 1) w3
               else add_cache_entry (make_ce path st sha1) w3)))"

section \<open>Which paths are accepted\<close>

text \<open>
  The \<^verbatim>\<open>goto inside\<close> loop of \<^verbatim>\<open>verify_path\<close> on a C string (the end of the list is its NUL).
  \<open>path_inside\<close> is the code at the label \<^verbatim>\<open>inside\<close>, \<open>path_loop c\<close> the head of the \<^verbatim>\<open>for\<close> with the
  current character \<open>c\<close>.
\<close>

fun path_inside :: "bytes \<Rightarrow> bool" and path_loop :: "byte \<Rightarrow> bytes \<Rightarrow> bool" where
  "path_inside [] = False"
| "path_inside (c # path) = (if c \<noteq> 47 \<and> c \<noteq> 46 \<and> c \<noteq> 0 then path_loop c path else False)"
| "path_loop c [] = (if c = 0 then True else if c = 47 then False else True)"
| "path_loop c (d # path) =
     (if c = 0 then True
      else if c = 47 then (if d \<noteq> 47 \<and> d \<noteq> 46 \<and> d \<noteq> 0 then path_loop d path else False)
      else path_loop d path)"

definition verify_path :: "bytes \<Rightarrow> bool" where
  "verify_path path = path_inside path"

section \<open>The command\<close>

text \<open>The loop over \<^verbatim>\<open>argv\<close>; \<open>False\<close> is the \<^verbatim>\<open>goto out\<close>.\<close>

fun add_paths :: "extlib \<Rightarrow> noret \<Rightarrow> bytes list \<Rightarrow> gitworld \<Rightarrow> (bool, gitworld) outcome" where
  "add_paths E noret [] w = Ret True w"
| "add_paths E noret (path # ps) w =
     (if \<not> verify_path path then
        add_paths E noret ps (eprintf (str ''Ignoring path '' @ path @ newline) w)
      else
        (case add_file_to_cache E noret path w of
           Ret r w1 \<Rightarrow>
             (if r \<noteq> 0 then
                Ret False (eprintf (str ''Unable to add '' @ path @ str '' to database'' @ newline) w1)
              else add_paths E noret ps w1)
         | Exit n w1 \<Rightarrow> Exit n w1
         | Undef \<Rightarrow> Undef))"

text \<open>
  \<^verbatim>\<open>update_cache\<close>.  The result is \<open>None\<close> where the function falls off its end after removing the lock
  (no caller uses the value).  The loop starts at \<^verbatim>\<open>argv[1]\<close>, the option \<^verbatim>\<open>--add\<close> itself.
\<close>

definition drop_lock :: "gitworld \<Rightarrow> (int option, gitworld) outcome" where
  "drop_lock w = (case unlink index_lock w of (_, w1) \<Rightarrow> Ret None w1)"

definition update_cache ::
  "extlib \<Rightarrow> noret \<Rightarrow> bytes list \<Rightarrow> gitworld \<Rightarrow> (int option, gitworld) outcome" where
  "update_cache E noret argv w =
     bindO (read_cache E w) (\<lambda>nr w1.
       if nr < 0 then Ret (Some (- 1)) (perror (str ''cache corrupted'') w1)
       else
         (case open_excl index_lock w1 of (ok, w2) \<Rightarrow>
           if \<not> ok then Ret (Some (- 1)) (perror (str ''unable to create new cachefile'') w2)
           else
             bindO (add_paths E noret (drop 1 argv) w2) (\<lambda>all_added w3.
               if \<not> all_added then drop_lock w3
               else
                 bindO (write_cache E index_lock (slots w3) (unat (active_nr w3)) w3) (\<lambda>r w4.
                   if r \<noteq> 0 then drop_lock w4
                   else (case rename index_lock index_path w4 of (ok, w5) \<Rightarrow>
                      if ok then Ret (Some 0) w5 else drop_lock w5)))))"


section \<open>Accepted paths\<close>

text \<open>The components of a path.\<close>

fun components :: "bytes \<Rightarrow> bytes list" where
  "components [] = [[]]"
| "components (c # cs) =
     (if c = 47 then [] # components cs
      else (case components cs of x # xs \<Rightarrow> (c # x) # xs | [] \<Rightarrow> [[c]]))"

declare components.simps(2) [simp del]

lemma components_sep [simp]: "components (47 # cs) = [] # components cs"
  by (simp add: components.simps(2))

definition good_component :: "bytes \<Rightarrow> bool" where
  "good_component x \<longleftrightarrow> x \<noteq> [] \<and> hd x \<noteq> 46"

lemma components_neq_Nil [simp]: "components p \<noteq> []"
  by (induction p) (auto simp: components.simps(2) split: list.splits)

lemma components_Cons:
  "c \<noteq> 47 \<Longrightarrow> components (c # cs) = (c # hd (components cs)) # tl (components cs)"
  by (cases "components cs") (use components_neq_Nil [of cs] in \<open>auto simp: components.simps(2)\<close>)

lemma path_loop_components:
  "no_nul p \<Longrightarrow> c \<noteq> 0 \<Longrightarrow> c \<noteq> 47 \<Longrightarrow>
   path_loop c p \<longleftrightarrow> (\<forall>x\<in>set (tl (components p)). good_component x)"
proof (induction "length p" arbitrary: p c rule: less_induct)
  case less
  show ?case
  proof (cases p)
    case Nil
    with less.prems show ?thesis by simp
  next
    case (Cons d q)
    show ?thesis
    proof (cases "d = 47")
      case False
      with less Cons show ?thesis by (auto simp: components_Cons)
    next
      case sep: True
      show ?thesis
      proof (cases q)
        case Nil
        with less.prems Cons sep show ?thesis by (simp add: good_component_def)
      next
        case q: (Cons e r)
        consider "e = 47" | "e = 46" | "e \<noteq> 47" "e \<noteq> 46" by blast
        then show ?thesis
        proof cases
          case 3
          then have "path_loop e r \<longleftrightarrow> (\<forall>x\<in>set (tl (components r)). good_component x)"
            using less.prems Cons q by (intro less.hyps) auto
          with 3 less.prems Cons sep q show ?thesis by (simp add: components_Cons good_component_def)
        qed (use less.prems Cons sep q in \<open>auto simp: good_component_def components_Cons\<close>)
      qed
    qed
  qed
qed

lemma verify_path_components:
  assumes "no_nul p"
  shows "verify_path p \<longleftrightarrow> (\<forall>x\<in>set (components p). good_component x)"
proof (cases p)
  case (Cons c q)
  consider "c = 47" | "c = 46" | "c \<noteq> 47" "c \<noteq> 46" by blast
  then show ?thesis
  proof cases
    case 3
    with assms Cons show ?thesis
      by (simp add: verify_path_def path_loop_components components_Cons good_component_def)
  qed (use assms Cons in \<open>auto simp: verify_path_def good_component_def components_Cons\<close>)
qed (simp add: verify_path_def good_component_def)

section \<open>The entry that is added\<close>

lemma wf_make_ce [wf]:
  assumes "no_nul path" "length path < 2 ^ 16" "length sha1 = 20"
  shows "wf_ce (make_ce path st sha1)" "ce_name (make_ce path st sha1) = path"
proof -
  have n: "unat (of_nat (length path) :: u16) = length path"
    using assms(2) by (simp add: unat_of_nat)
  show nm: "ce_name (make_ce path st sha1) = path"
    by (simp add: ce_name_def make_ce_def n)
  show "wf_ce (make_ce path st sha1)"
    unfolding wf_ce_def nm using assms by (simp add: make_ce_def ce_size_def n)
qed


section \<open>What the steps may change\<close>

text \<open>Strings of the environment contain no NUL.\<close>

definition env_ok :: "'ce world \<Rightarrow> bool" where
  "env_ok w \<longleftrightarrow> no_nul (sha1_file_directory w)"

definition object_paths :: "'ce world \<Rightarrow> bytes set" where
  "object_paths w = {object_path s w | s. length s = 20}"

text \<open>The only files that differ are objects, and those are new.\<close>

definition adds_objects :: "'ce world \<Rightarrow> 'ce world \<Rightarrow> bool" where
  "adds_objects w w' \<longleftrightarrow> same_config w w' \<and> fs w \<subseteq>\<^sub>m fs w' \<and>
     (\<forall>p. p \<notin> object_paths w \<longrightarrow> fs w' p = fs w p)"

lemma adds_objects_refl [simp]: "adds_objects w w"
  by (simp add: adds_objects_def)

lemma adds_objects_diff:
  assumes "adds_objects w w'" "fs w' p \<noteq> fs w p"
  shows "p \<in> object_paths w \<and> fs w p = None"
  using assms unfolding adds_objects_def map_le_def by (metis domIff)

lemma object_paths_config: "same_config w w' \<Longrightarrow> object_paths w' = object_paths w"
  by (simp add: object_paths_def object_path_config)

lemma adds_objects_trans [trans]: "adds_objects u v \<Longrightarrow> adds_objects v w \<Longrightarrow> adds_objects u w"
  unfolding adds_objects_def
  by (auto simp: object_paths_config intro: same_config_trans map_le_trans)

lemma adds_objects_same_fs: "same_config w w' \<Longrightarrow> fs w' = fs w \<Longrightarrow> adds_objects w w'"
  by (simp add: adds_objects_def)

lemma same_but_cache_config: "same_but_cache w w' \<Longrightarrow> same_config w w' \<and> fs w' = fs w"
  by (simp add: same_but_cache_def same_config_def)

lemma length_object_path:
  assumes "env_ok w" "length s = 20"
  shows "length (object_path s w) = length (sha1_file_directory w) + 42"
proof -
  have "length (concat (map hex2 (tl s))) = 38"
    using assms(2) by (simp add: length_concat comp_def sum_list_triv)
  then show ?thesis
    using assms by (simp add: object_path_def env_ok_def sha1_file_name_eq)
qed

lemma index_not_object:
  assumes "env_ok w"
  shows "index_path \<notin> object_paths w" "index_lock \<notin> object_paths w"
  using length_object_path [OF assms]
  by (force simp: object_paths_def index_path_def index_lock_def dest: arg_cong [where f = length])+

lemma write_sha1_buffer_adds:
  assumes "write_sha1_buffer sha1 buf w = (r, w')" "length sha1 = 20"
  shows "adds_objects w w'"
  using assms(1) write_sha1_buffer_config [OF assms(1)] write_sha1_buffer_map_le [OF assms(1)] assms(2)
  by (cases rule: write_sha1_buffer_cases) (auto simp: adds_objects_def object_paths_def)

lemma mmap_state: "mmap p w = (m, w') \<Longrightarrow> same_config w w' \<and> fs w' = fs w \<and>
    active_cache w' = active_cache w \<and> active_nr w' = active_nr w \<and> active_alloc w' = active_alloc w"
  by (auto simp: mmap_def same_config_def split: option.splits inode.splits if_splits)

lemma index_fd_adds:
  assumes "index_fd E path len st w = ((r, sha1), w')" "sha1_ok E"
  shows "adds_objects w w'" "active_cache w' = active_cache w" "active_nr w' = active_nr w"
    "active_alloc w' = active_alloc w" "0 \<le> r \<Longrightarrow> length sha1 = 20"
proof -
  obtain m w1 where m: "mmap path w = (m, w1)" by fastforce
  note st = mmap_state [OF m]
  show "adds_objects w w'" "active_cache w' = active_cache w" "active_nr w' = active_nr w"
    "active_alloc w' = active_alloc w" "0 \<le> r \<Longrightarrow> length sha1 = 20"
    using assms m st adds_objects_same_fs [of w w1]
    by (auto simp: index_fd_def Let_def sha1_ok_def
        dest: write_sha1_buffer_config write_sha1_buffer_adds intro: adds_objects_trans
        split: if_splits option.splits prod.splits)
qed

lemma remove_file_from_cache_same:
  "remove_file_from_cache path w = Ret () w' \<Longrightarrow> same_but_cache w w'"
  by (auto simp: remove_file_from_cache_def Let_def same_but_cache_def split: option.splits if_splits)

lemma add_cache_entry_same: "add_cache_entry ce w = Ret r w' \<Longrightarrow> same_but_cache w w' \<and> r = 0"
  by (auto simp: add_cache_entry_def Let_def same_but_cache_def split: option.splits if_splits)

lemma no_Exit [simp]:
  "remove_file_from_cache path w \<noteq> Exit n w'" "add_cache_entry ce w \<noteq> Exit n w'"
  by (auto simp: remove_file_from_cache_def add_cache_entry_def Let_def split: option.splits if_splits)

lemma open_rdonly_state: "open_rdonly p w = (ok, w') \<Longrightarrow> same_config w w' \<and> fs w' = fs w"
  by (auto simp: sys_defs same_config_def split: option.splits if_splits)

lemma fstat_state: "fstat p w = (st, w') \<Longrightarrow> same_config w w' \<and> fs w' = fs w"
  by (auto simp: sys_defs same_config_def split: option.splits if_splits)

lemma add_file_to_cache_adds:
  assumes "add_file_to_cache E noret path w = Ret r w'" "sha1_ok E"
  shows "adds_objects w w'"
proof -
  obtain ok w1 where o: "open_rdonly path w = (ok, w1)" by fastforce
  then have 1: "adds_objects w w1" using open_rdonly_state adds_objects_same_fs by blast
  show ?thesis
  proof (cases ok)
    case False
    with assms o have "w' = w1 \<or> (\<exists>u. remove_file_from_cache path w1 = Ret u w')"
      by (cases "remove_file_from_cache path w1") (auto simp: add_file_to_cache_def split: if_splits)
    then have "adds_objects w1 w'"
      using remove_file_from_cache_same same_but_cache_config adds_objects_same_fs by fastforce
    with 1 show ?thesis by (rule adds_objects_trans)
  next
    case True
    obtain st w2 where f: "fstat path w1 = (st, w2)" by fastforce
    then have 2: "adds_objects w1 w2" using fstat_state adds_objects_same_fs by blast
    show ?thesis
    proof (cases st)
      case None
      with assms o True f have "w' = w2" by (simp add: add_file_to_cache_def)
      with 1 2 show ?thesis by (auto intro: adds_objects_trans)
    next
      case (Some s)
      obtain q sha1 w3 where i: "index_fd E path (length path) s w2 = ((q, sha1), w3)"
        by (metis surj_pair)
      note 3 = index_fd_adds(1) [OF i assms(2)]
      have "w' = w3 \<or> add_cache_entry (make_ce path s sha1) w3 = Ret r w'"
        using assms o True f Some i by (auto simp: add_file_to_cache_def split: if_splits)
      then have "adds_objects w3 w'"
        using add_cache_entry_same same_but_cache_config adds_objects_same_fs by fastforce
      with 1 2 3 show ?thesis by (blast intro: adds_objects_trans)
    qed
  qed
qed

lemma add_paths_adds:
  assumes "add_paths E noret ps w = Ret b w'" "sha1_ok E"
  shows "adds_objects w w'"
  using assms(1)
proof (induction ps arbitrary: w)
  case (Cons path ps)
  have e: "adds_objects v (eprintf m v)" for m and v :: gitworld
    by (rule adds_objects_same_fs) (simp_all add: out_defs same_config_def)
  show ?case
  proof (cases "verify_path path")
    case False
    with Cons.prems have "add_paths E noret ps (eprintf (str ''Ignoring path '' @ path @ newline) w) = Ret b w'"
      by simp
    from Cons.IH [OF this] e show ?thesis by (rule adds_objects_trans [rotated])
  next
    case True
    with Cons.prems obtain r w1 where r: "add_file_to_cache E noret path w = Ret r w1"
      by (cases "add_file_to_cache E noret path w") auto
    note 1 = add_file_to_cache_adds [OF r assms(2)]
    show ?thesis
    proof (cases "r = 0")
      case True
      with \<open>verify_path path\<close> Cons.prems r have "add_paths E noret ps w1 = Ret b w'" by simp
      from Cons.IH [OF this] 1 show ?thesis by (rule adds_objects_trans [rotated])
    next
      case False
      with \<open>verify_path path\<close> Cons.prems r have "w' = eprintf (str ''Unable to add '' @ path @
          str '' to database'' @ newline) w1"
        by simp
      with 1 e show ?thesis by (auto intro: adds_objects_trans)
    qed
  qed
qed simp


lemma ret_error_state: "ret_error m w = Ret r w' \<Longrightarrow> same_config w w' \<and> fs w' = fs w \<and> r = - 1"
  by (auto simp: ret_error_def error_def out_defs same_config_def)

lemma read_cache_state:
  assumes "read_cache E w = Ret r w'"
  shows "same_config w w' \<and> fs w' = fs w"
proof -
  have l: "same_config u w' \<and> fs w' = fs u" if "load_index E m u = Ret r w'" for u m
    using that by (auto simp: load_index_def verify_hdr_def error_def out_defs Let_def same_config_def
        ret_error_def split: option.splits if_splits)
  show ?thesis
    using assms
    by (auto simp: read_cache_def Let_def sys_defs same_config_def
        dest!: ret_error_state l split: if_splits option.splits inode.splits)
qed

lemma write_fd_frame:
  "write_fd p buf w = (n, w') \<Longrightarrow> same_config w w' \<and> (\<forall>q. q \<noteq> p \<longrightarrow> fs w' q = fs w q) \<and>
    active_cache w' = active_cache w \<and> active_nr w' = active_nr w"
  by (auto simp: write_fd_def Let_def same_config_def split: option.splits inode.splits)

lemma write_fd_full:
  assumes "write_fd p buf w = (length buf, w')" "fs w p = Some (Regular s d)"
  shows "fs w' p = Some (Regular s (d @ buf))"
  using assms by (auto simp: write_fd_def Let_def split: option.splits)

lemma write_entries_frame:
  "write_entries p es w = (r, w') \<Longrightarrow> same_config w w' \<and> (\<forall>q. q \<noteq> p \<longrightarrow> fs w' q = fs w q) \<and>
    active_cache w' = active_cache w \<and> active_nr w' = active_nr w"
proof (induction es arbitrary: w)
  case (Cons ce es)
  obtain n w1 where n: "write_fd p (ce_bytes ce) w = (n, w1)" by fastforce
  from Cons.prems n have "w' = w1 \<or> write_entries p es w1 = (r, w')" by (auto split: if_splits)
  with Cons.IH [of w1] write_fd_frame [OF n] show ?case by (auto intro: same_config_trans)
qed auto

lemma write_entries_full:
  assumes "write_entries p es w = (0, w')" "fs w p = Some (Regular s d)"
    and "\<forall>ce\<in>set es. length (ce_bytes ce) = ce_size ce"
  shows "fs w' p = Some (Regular s (d @ concat (map ce_bytes es)))"
  using assms
proof (induction es arbitrary: w d)
  case (Cons ce es)
  then obtain w1 where n: "write_fd p (ce_bytes ce) w = (length (ce_bytes ce), w1)"
      and rest: "write_entries p es w1 = (0, w')"
    by (auto split: prod.splits if_splits)
  from write_fd_full [OF n Cons.prems(2)] Cons.IH [OF rest] Cons.prems(3) show ?case by auto
qed auto

lemma write_cache_frame:
  "write_cache E p cache nr w = Ret r w' \<Longrightarrow> same_config w w' \<and> (\<forall>q. q \<noteq> p \<longrightarrow> fs w' q = fs w q) \<and>
    active_cache w' = active_cache w \<and> active_nr w' = active_nr w"
  by (auto simp: write_cache_def split: option.splits if_splits prod.splits
      dest!: write_fd_frame write_entries_frame intro: same_config_trans)

text \<open>When \<^verbatim>\<open>write_cache\<close> reports success, the file is complete, however little room there was.\<close>

lemma write_cache_complete:
  assumes "write_cache E p cache nr w = Ret 0 w'" "fs w p = Some (Regular s [])" "sha1_ok E"
  shows "\<exists>es. deref_slots nr cache = Some es \<and> fs w' p = Some (Regular s (index_bytes E es))"
proof -
  obtain es where es: "deref_slots nr cache = Some es"
      "\<forall>ce\<in>set es. \<not> length (put_ce ce) < ce_size ce"
    using assms(1) by (auto simp: write_cache_def split: option.splits if_splits)
  then have len: "\<forall>ce\<in>set es. length (ce_bytes ce) = ce_size ce"
    by (auto simp: ce_bytes_def)
  obtain w1 where h: "write_fd p (index_header E es) w = (length (index_header E es), w1)"
      and rest: "write_entries p es w1 = (0, w')"
    using assms es by (auto simp: write_cache_def length_index_header split: if_splits prod.splits)
  from write_entries_full [OF rest write_fd_full [OF h assms(2)] len] es(1) show ?thesis
    by (auto simp: index_bytes_def)
qed


section \<open>The index is replaced atomically\<close>

text \<open>The ways \<^verbatim>\<open>update_cache\<close> can return.\<close>

lemma update_cache_cases:
  assumes "update_cache E noret argv w = Ret r w'"
  obtains (no_lock) "r = Some (- 1)" "same_config w w'" "fs w' = fs w"
  | (given_up) w1 w2 w3 where "fs w1 = fs w" "same_config w w1" "open_excl index_lock w1 = (True, w2)"
      "adds_objects w2 w3 \<or> \<not> sha1_ok E" "r = None" "same_config w3 w'"
      "\<And>p. p \<noteq> index_lock \<Longrightarrow> fs w' p = fs w3 p"
      "fault w3 SysUnlink index_lock = None \<Longrightarrow> fs w' index_lock = None"
  | (replaced) w1 w2 w3 w4 where "fs w1 = fs w" "same_config w w1"
      "open_excl index_lock w1 = (True, w2)"
      "adds_objects w2 w3 \<or> \<not> sha1_ok E" "r = Some 0"
      "write_cache E index_lock (slots w3) (unat (active_nr w3)) w3 = Ret 0 w4"
      "same_config w3 w'" "active_cache w' = active_cache w3" "active_nr w' = active_nr w3"
      "fs w' = (fs w4)(index_path := fs w4 index_lock, index_lock := None)" "fs w4 index_lock \<noteq> None"
proof -
  obtain nr w1 where rc: "read_cache E w = Ret nr w1"
    using assms by (cases "read_cache E w") (auto simp: update_cache_def)
  note s1 = read_cache_state [OF rc]
  show thesis
  proof (cases "nr < 0")
    case True
    then have "r = Some (- 1)" "w' = perror (str ''cache corrupted'') w1"
      using assms rc by (auto simp: update_cache_def)
    with s1 show thesis by (intro no_lock) (auto simp: out_defs same_config_def)
  next
    case nr: False
    obtain ok w2 where o: "open_excl index_lock w1 = (ok, w2)" by fastforce
    show thesis
    proof (cases ok)
      case False
      with o have "same_config w1 w2 \<and> fs w2 = fs w1"
        by (auto simp: sys_defs same_config_def split: option.splits if_splits)
      moreover have "r = Some (- 1)" "w' = perror (str ''unable to create new cachefile'') w2"
        using assms rc nr o False by (auto simp: update_cache_def)
      ultimately show thesis using s1 by (intro no_lock) (auto simp: out_defs same_config_def)
    next
      case True
      obtain b w3 where a: "add_paths E noret (drop 1 argv) w2 = Ret b w3"
        using assms rc nr o True
        by (cases "add_paths E noret (drop 1 argv) w2") (auto simp: update_cache_def)
      then have add: "adds_objects w2 w3 \<or> \<not> sha1_ok E" using add_paths_adds by blast
      have dl: "v = None \<and> same_config u w' \<and> (\<forall>p. p \<noteq> index_lock \<longrightarrow> fs w' p = fs u p) \<and>
          (fault u SysUnlink index_lock = None \<longrightarrow> fs w' index_lock = None)"
        if "drop_lock u = Ret v w'" for u v
        using that by (auto simp: drop_lock_def sys_defs same_config_def split: option.splits if_splits)
      show thesis
      proof (cases b)
        case False
        then have "drop_lock w3 = Ret r w'" using assms rc nr o True a by (auto simp: update_cache_def)
        from dl [OF this] s1 o True add show thesis by (intro given_up [of w1 w2 w3]) auto
      next
        case b: True
        obtain q w4 where wc: "write_cache E index_lock (slots w3) (unat (active_nr w3)) w3 = Ret q w4"
          using assms rc nr o True a b
          by (cases "write_cache E index_lock (slots w3) (unat (active_nr w3)) w3")
            (auto simp: update_cache_def)
        note wf = write_cache_frame [OF wc]
        obtain ok5 w5 where rn: "rename index_lock index_path w4 = (ok5, w5)" by fastforce
        consider "q \<noteq> 0" "drop_lock w4 = Ret r w'" | "q = 0" "\<not> ok5" "drop_lock w5 = Ret r w'"
          | "q = 0" ok5 "r = Some 0" "w' = w5"
          using assms rc nr o True a b wc rn by (auto simp: update_cache_def split: if_splits)
        then show thesis
        proof cases
          case 1
          from dl [OF 1(2)] wf s1 o True add show thesis
            by (intro given_up [of w1 w2 w3]) (auto intro: same_config_trans simp: same_config_def)
        next
          case 2
          then have "same_config w4 w5 \<and> fs w5 = fs w4"
            using rn by (auto simp: sys_defs same_config_def split: option.splits if_splits)
          with dl [OF 2(3)] wf s1 o True add show thesis
            by (intro given_up [of w1 w2 w3]) (auto intro: same_config_trans simp: same_config_def)
        next
          case 3
          have "same_config w4 w5" "fs w4 index_lock \<noteq> None" "active_cache w5 = active_cache w4"
              "active_nr w5 = active_nr w4"
              "fs w5 = (fs w4)(index_path := fs w4 index_lock, index_lock := None)"
            using rn 3 by (auto simp: sys_defs same_config_def split: option.splits if_splits)
          with 3 wf wc s1 o True add show thesis
            by (intro replaced [of w1 w2 w3 w4]) (auto intro: same_config_trans)
        qed
      qed
    qed
  qed
qed


lemma open_excl_ok: "open_excl p w = (True, w') \<Longrightarrow>
  fs w p = None \<and> same_config w w' \<and> fs w' = (fs w)(p \<mapsto> Regular (new_stat w p) [])"
  by (auto simp: sys_defs same_config_def split: option.splits if_splits)

lemma update_cache_changes:
  assumes "sha1_ok E" "env_ok w" "update_cache E noret argv w = Ret r w'"
  shows "fs w' p \<noteq> fs w p \<longrightarrow> p = index_lock \<or> p \<in> object_paths w \<and> fs w p = None \<or>
      p = index_path \<and> r = Some 0 \<and> (\<exists>st es. deref_slots (unat (active_nr w')) (slots w') = Some es \<and>
        fs w' p = Some (Regular st (index_bytes E es)))"
  using assms(3)
proof (cases rule: update_cache_cases)
  case (given_up w1 w2 w3)
  note o = open_excl_ok [OF given_up(3)]
  have "object_paths w2 = object_paths w"
    using o given_up(2) by (metis object_paths_config same_config_trans)
  moreover have "adds_objects w2 w3" using given_up(4) assms(1) by blast
  ultimately show ?thesis
    using given_up(1) given_up(7) [of p] o adds_objects_diff [of w2 w3 p] by auto
next
  case (replaced w1 w2 w3 w4)
  note o = open_excl_ok [OF replaced(3)]
  have obj: "object_paths w2 = object_paths w"
    using o replaced(2) by (metis object_paths_config same_config_trans)
  have add: "adds_objects w2 w3" using replaced(4) assms(1) by blast
  have "index_lock \<notin> object_paths w2" "index_path \<notin> object_paths w2"
    using index_not_object [OF assms(2)] obj by simp_all
  then have "fs w3 index_lock = Some (Regular (new_stat w1 index_lock) [])"
    using add o by (simp add: adds_objects_def)
  from write_cache_complete [OF replaced(6) this assms(1)] obtain es where
    es: "deref_slots (unat (active_nr w3)) (slots w3) = Some es"
      "fs w4 index_lock = Some (Regular (new_stat w1 index_lock) (index_bytes E es))" by blast
  have sl: "slots w' = slots w3" using replaced(8) by (simp add: slots_def)
  show ?thesis
  proof (cases "p = index_path \<or> p = index_lock")
    case True
    with es replaced sl show ?thesis by auto
  next
    case False
    then have "fs w' p = fs w3 p" "fs w2 p = fs w p"
      using replaced o write_cache_frame [OF replaced(6)] by auto
    with obj show ?thesis using adds_objects_diff [OF add, of p] by auto
  qed
qed auto

lemma update_cache_config:
  assumes "sha1_ok E" "update_cache E noret argv w = Ret r w'"
  shows "same_config w w'"
  using assms(2)
proof (cases rule: update_cache_cases)
  case (given_up w1 w2 w3)
  with assms(1) open_excl_ok [OF given_up(3)] show ?thesis
    by (auto simp: adds_objects_def intro: same_config_trans)
next
  case (replaced w1 w2 w3 w4)
  with assms(1) open_excl_ok [OF replaced(3)] show ?thesis
    by (auto simp: adds_objects_def intro: same_config_trans)
qed

text \<open>\<^verbatim>\<open>update_cache\<close> returns to its caller: none of its steps leaves the process.\<close>

lemma read_cache_no_Exit [simp]: "read_cache E w \<noteq> Exit n w'"
  by (auto simp: read_cache_def load_index_def ret_error_def Let_def split: prod.splits option.splits)

lemma add_paths_no_Exit [simp]: "add_paths E noret ps w \<noteq> Exit n w'"
proof (induction E noret ps w rule: add_paths.induct)
  case (2 E noret path ps w)
  have "add_file_to_cache E noret path w \<noteq> Exit n w'" for w n w'
    by (auto simp: add_file_to_cache_def bindO_Exit_iff split: prod.splits option.splits)
  with 2 show ?case by (auto split: outcome.splits)
qed simp

lemma write_cache_no_Exit [simp]: "write_cache E p c m w \<noteq> Exit n w'"
  by (auto simp: write_cache_def split: option.splits prod.splits)

lemma update_cache_no_Exit: "update_cache E noret argv w \<noteq> Exit n w'"
  by (auto simp: update_cache_def bindO_Exit_iff drop_lock_def split: prod.splits)

text \<open>
  C1: however the calls fail, \<^verbatim>\<open>update_cache\<close> touches no file but the index, its
  lock and new objects; when it does not return 0 the index is the old one, and when it does, the
  index is the complete encoding of the entries in memory.
\<close>

theorem update_cache_atomic:
  assumes "sha1_ok E" "env_ok w" "update_cache E noret argv w = Ret r w'"
  shows "fs w' p \<noteq> fs w p \<longrightarrow> p = index_lock \<or> p \<in> object_paths w \<and> fs w p = None \<or>
      p = index_path \<and> r = Some 0 \<and> (\<exists>st es. deref_slots (unat (active_nr w')) (slots w') = Some es \<and>
        fs w' p = Some (Regular st (index_bytes E es)))"
  using assms by (rule update_cache_changes)

section \<open>Adding a file, when nothing fails\<close>

text \<open>
  The conditions under which the file at \<open>path\<close> can be added: a regular, non-empty file small enough
  for the \<^verbatim>\<open>int\<close> arithmetic of \<^verbatim>\<open>index_fd\<close>, an acceptable name, memory for the output buffer, compressed
  data that fits into it, and an object database that takes the object.
\<close>

definition blob_data :: "extlib \<Rightarrow> bytes \<Rightarrow> bytes" where
  "blob_data E d = deflate E [blob_header (of_nat (length d)), d]"

definition addable :: "extlib \<Rightarrow> bytes \<Rightarrow> stat \<Rightarrow> bytes \<Rightarrow> gitworld \<Rightarrow> bool" where
  "addable E path s d w \<longleftrightarrow>
     fs w path = Some (Regular s d) \<and> d \<noteq> [] \<and> no_fault path w \<and>
     verify_path path \<and> no_nul path \<and> length path < 2 ^ 16 \<and> length d < 2 ^ 30 \<and>
     malloc_ok E (length path + length d + 200) \<and>
     length (blob_data E d) \<le> length path + length d + 200 \<and>
     (let p = object_path (SHA1 E (blob_data E d)) w in
      no_fault p w \<and> room w p = None \<and> is_dir w (parent p) \<and>
      (\<forall>i. fs w p = Some i \<longrightarrow> (\<exists>st. i = Regular st (blob_data E d))))"

lemma ucast_of_nat_u64: "n < 2 ^ 64 \<Longrightarrow> (ucast (of_nat n :: u64) :: u32) = of_nat n"
  by (simp add: unsigned_of_nat take_bit_nat_eq_self)

lemma max_out_bytes_small:
  assumes "len < 2 ^ 16" "n < 2 ^ 30"
  shows "max_out_bytes len (of_nat n) = int (len + n + 200)"
proof -
  have "(of_nat len + of_nat n + 200 :: u64) = of_nat (len + n + 200)" by simp
  moreover have "(ucast (of_nat (len + n + 200) :: u64) :: u32) = of_nat (len + n + 200)"
    using assms by (intro ucast_of_nat_u64) simp
  moreover have "unat (of_nat (len + n + 200) :: u32) = len + n + 200"
    using assms by (subst unat_of_nat) simp
  ultimately show ?thesis
    using assms by (simp add: max_out_bytes_def sint_small)
qed

lemma index_fd_addable:
  assumes "zlib_ok E" "addable E path s d w"
  shows "\<exists>w' st. index_fd E path (length path) (s\<lparr>st_size := of_nat (length d)\<rparr>) w =
      ((0, SHA1 E (blob_data E d)), w') \<and> same_config w w' \<and> active_cache w' = active_cache w \<and>
    active_nr w' = active_nr w \<and> active_alloc w' = active_alloc w \<and> fs w \<subseteq>\<^sub>m fs w' \<and>
    (\<forall>p. p \<noteq> object_path (SHA1 E (blob_data E d)) w \<longrightarrow> fs w' p = fs w p) \<and>
    fs w' (object_path (SHA1 E (blob_data E d)) w) = Some (Regular st (blob_data E d))"
proof -
  let ?sha1 = "SHA1 E (blob_data E d)"
  let ?p = "object_path ?sha1 w"
  have m: "mmap path w = (Some d, w)"
    using assms(2) by (simp add: addable_def no_fault_def mmap_def)
  have mx: "max_out_bytes (length path) (of_nat (length d)) = int (length path + length d + 200)"
    using assms(2) by (intro max_out_bytes_small) (simp_all add: addable_def)
  have nmx: "nat (max_out_bytes (length path) (of_nat (length d))) = length path + length d + 200"
      "\<not> max_out_bytes (length path) (of_nat (length d)) < 0"
    unfolding mx nat_int by simp_all
  have u: "take (unat (ucast (of_nat (length d) :: u64) :: u32)) d = d"
    using assms(2) by (simp add: addable_def ucast_of_nat_u64 unat_of_nat)
  obtain r w1 where wb: "write_sha1_buffer ?sha1 (blob_data E d) w = (r, w1)" by fastforce
  have "index_fd E path (length path) (s\<lparr>st_size := of_nat (length d)\<rparr>) w = ((r, ?sha1), w1)"
    using assms(2) u wb by (simp add: index_fd_def m nmx addable_def Let_def flip: blob_data_def)
  moreover have "r = 0 \<and> fs w \<subseteq>\<^sub>m fs w1 \<and> (\<forall>p. p \<noteq> ?p \<longrightarrow> fs w1 p = fs w p) \<and>
      (\<exists>st. fs w1 ?p = Some (Regular st (blob_data E d)))"
    using wb
  proof (cases rule: write_sha1_buffer_cases)
    case kept
    then show ?thesis using assms(2) by (auto simp: addable_def Let_def)
  next
    case refused
    then show ?thesis using assms(2) by (auto simp: addable_def Let_def no_fault_def)
  next
    case (created n st)
    then show ?thesis using assms(2) by (auto simp: addable_def Let_def map_le_def)
  qed
  ultimately show ?thesis using write_sha1_buffer_config [OF wb] by blast
qed

lemma cache_inv_config:
  "active_cache w' = active_cache w \<Longrightarrow> active_nr w' = active_nr w \<Longrightarrow> active_alloc w' = active_alloc w \<Longrightarrow>
   cache_inv w' = cache_inv w \<and> entries w' = entries w \<and> slots w' = slots w"
  by (simp add: cache_inv_def entries_def slots_def)

lemma add_file_to_cache_addable:
  assumes "zlib_ok E" "sha1_ok E" "addable E path s d w" "cache_inv w" "unat (active_nr w) < 2 ^ 29"
  shows "\<exists>w' st. add_file_to_cache E noret path w = Ret 0 w' \<and> cache_inv w' \<and> same_config w w' \<and>
    entries w' = insert_key ce_name
      (make_ce path (s\<lparr>st_size := of_nat (length d)\<rparr>) (SHA1 E (blob_data E d))) (entries w) \<and>
    fs w \<subseteq>\<^sub>m fs w' \<and> (\<forall>p. p \<noteq> object_path (SHA1 E (blob_data E d)) w \<longrightarrow> fs w' p = fs w p) \<and>
    fs w' (object_path (SHA1 E (blob_data E d)) w) = Some (Regular st (blob_data E d))"
proof -
  let ?s = "s\<lparr>st_size := of_nat (length d)\<rparr>"
  let ?sha1 = "SHA1 E (blob_data E d)"
  have o: "open_rdonly path w = (True, w)" and f: "fstat path w = (Some ?s, w)"
    using assms(3) by (simp_all add: addable_def no_fault_def sys_defs)
  obtain w1 st where i: "index_fd E path (length path) ?s w = ((0, ?sha1), w1)" "same_config w w1"
      "active_cache w1 = active_cache w" "active_nr w1 = active_nr w" "active_alloc w1 = active_alloc w"
      "fs w \<subseteq>\<^sub>m fs w1" "\<forall>p. p \<noteq> object_path ?sha1 w \<longrightarrow> fs w1 p = fs w p"
      "fs w1 (object_path ?sha1 w) = Some (Regular st (blob_data E d))"
    using index_fd_addable [OF assms(1,3)] by blast
  note ci = cache_inv_config [OF i(3-5)]
  have wf: "wf_ce (make_ce path ?s ?sha1)"
    using assms(2,3) by (intro wf_make_ce) (auto simp: addable_def sha1_ok_def)
  obtain w2 where a: "add_cache_entry (make_ce path ?s ?sha1) w1 = Ret 0 w2" "cache_inv w2"
      "same_but_cache w1 w2" "entries w2 = insert_key ce_name (make_ce path ?s ?sha1) (entries w)"
    using add_cache_entry_spec [OF _ wf, of w1] assms(4,5) ci i(4) by auto
  have "add_file_to_cache E noret path w = Ret 0 w2"
    by (simp add: add_file_to_cache_def o f i(1) a(1))
  then show ?thesis
    using a i same_but_cache_config [OF a(3)] by (metis same_config_trans)
qed


text \<open>The index on disk lists the entries \<open>es\<close>; a repository without an index file lists none.\<close>

definition on_disk :: "extlib \<Rightarrow> cache_entry list \<Rightarrow> gitworld \<Rightarrow> bool" where
  "on_disk E es w \<longleftrightarrow> (\<forall>ce\<in>set es. wf_ce ce) \<and> key_sorted ce_name es \<and> length es < 2 ^ 29 \<and>
     (if es = [] then
        active_cache w = None \<and> active_nr w = 0 \<and> active_alloc w = 0 \<and>
        fault w SysAccess (sha1_file_directory w) = None \<and> fs w (sha1_file_directory w) \<noteq> None \<and>
        fault w SysOpen index_path = None \<and> fs w index_path = None
      else index_readable (index_bytes E es) w)"

lemma read_cache_on_disk:
  assumes "sha1_ok E" "on_disk E es w"
  shows "\<exists>w'. read_cache E w = Ret (int (length es)) w' \<and> cache_inv w' \<and> entries w' = es \<and>
    same_config w w' \<and> fs w' = fs w \<and> stdout w' = stdout w"
proof (cases "es = []")
  case True
  let ?w = "w\<lparr>errno := ENOENT\<rparr>"
  have "read_cache E w = Ret 0 ?w"
    using assms(2) True by (intro read_cache_no_index) (auto simp: on_disk_def)
  moreover have "cache_inv ?w" "entries ?w = []"
    using assms(2) True by (auto simp: on_disk_def cache_inv_def entries_def slots_def)
  ultimately show ?thesis using True by (auto simp: same_config_def)
next
  case False
  then have r: "index_readable (index_bytes E es) w" using assms(2) by (simp add: on_disk_def)
  with False assms obtain w' where "read_cache E w = Ret (int (length es)) w'" "cache_inv w'" "entries w' = es"
      "stdout w' = stdout w"
    using read_cache_index_bytes [of E es w] by (auto simp: on_disk_def)
  with read_cache_state show ?thesis by blast
qed

lemma addable_lock:
  assumes "addable E path s d w" "env_ok w" "sha1_ok E" "same_config w w'"
    and "fs w index_lock = None" "fs w' = (fs w)(index_lock \<mapsto> i)"
  shows "addable E path s d w'"
proof -
  let ?p = "object_path (SHA1 E (blob_data E d)) w"
  have "?p \<in> object_paths w" using assms(3) by (auto simp: object_paths_def sha1_ok_def)
  then have "?p \<noteq> index_lock" using index_not_object(2) [OF assms(2)] by auto
  moreover have "path \<noteq> index_lock" using assms(1,5) by (auto simp: addable_def)
  moreover have "is_dir w' (parent ?p)"
    using assms(1,5,6) by (auto simp: addable_def Let_def is_dir_def)
  ultimately show ?thesis
    using assms object_path_config [OF assms(4)]
    by (auto simp: addable_def Let_def no_fault_def same_config_def)
qed

lemma add_missing_file:
  assumes "cache_inv w" "opt \<notin> ce_name ` set (entries w)" "fs w opt = None" "fault w SysOpen opt = None"
  shows "add_file_to_cache E noret opt w = Ret (noret opt (slots w)) (w\<lparr>errno := ENOENT\<rparr>)"
proof -
  let ?w = "w\<lparr>errno := ENOENT\<rparr>"
  have "cache_inv ?w" "entries ?w = entries w" "slots ?w = slots w"
    using cache_inv_config [of ?w w] assms(1) by simp_all
  then have "remove_file_from_cache opt ?w = Ret () ?w"
    using assms(2) by (intro remove_file_from_cache_absent) simp_all
  with assms \<open>slots ?w = slots w\<close> show ?thesis by (simp add: add_file_to_cache_def sys_defs)
qed

lemma inflate_blob_data:
  assumes "zlib_ok E" "length d < 2 ^ 64"
  shows "inflate E (blob_data E d) = frame (str ''blob'') d"
proof -
  have "unat (of_nat (length d) :: u64) = length d" using assms(2) by (simp add: unat_of_nat)
  then show ?thesis
    using assms(1) by (simp add: blob_data_def blob_header_def frame_def zlib_ok_def)
qed

lemma write_and_rename:
  assumes "sha1_ok E" "cache_inv w" "fs w index_lock = Some (Regular s [])" "room w index_lock = None"
    and "fault w SysRename index_lock = None"
  shows "\<exists>w4 w5. write_cache E index_lock (slots w) (unat (active_nr w)) w = Ret 0 w4 \<and>
    rename index_lock index_path w4 = (True, w5) \<and> same_config w w5 \<and> active_cache w5 = active_cache w \<and>
    active_nr w5 = active_nr w \<and> active_alloc w5 = active_alloc w \<and>
    fs w5 = (fs w)(index_path \<mapsto> Regular s (index_bytes E (entries w)), index_lock := None)"
proof -
  have "index_path \<noteq> index_lock" by (simp add: index_path_def index_lock_def)
  then show ?thesis
    using write_cache_ok [OF assms(1-4)] assms(5)
    by (auto simp: rename_def same_config_def fun_upd_twist)
qed


text \<open>
  The option word is itself treated as a path by the loop of \<^verbatim>\<open>update_cache\<close>: it passes \<^verbatim>\<open>verify_path\<close>,
  no such file exists, and the command goes on only if the register happens to hold 0.
\<close>

definition option_ignored :: "noret \<Rightarrow> bytes \<Rightarrow> cache_entry list \<Rightarrow> gitworld \<Rightarrow> bool" where
  "option_ignored noret opt es w \<longleftrightarrow> verify_path opt \<and> opt \<notin> ce_name ` set es \<and> fs w opt = None \<and>
     fault w SysOpen opt = None \<and> (\<forall>a. noret opt a = 0)"

definition lockable :: "gitworld \<Rightarrow> bool" where
  "lockable w \<longleftrightarrow> fs w index_lock = None \<and> no_fault index_lock w \<and> room w index_lock = None \<and>
     is_dir w (parent index_lock)"

lemma update_cache_add_run:
  assumes ok: "zlib_ok E" "sha1_ok E" "env_ok w" and disk: "on_disk E es w" and lock: "lockable w"
    and opt: "option_ignored noret opt es w" and add: "addable E path s d w"
  shows "\<exists>w' st. update_cache E noret [prog, opt, path] w = Ret (Some 0) w' \<and>
    fs w' index_path = Some (Regular st (index_bytes E (insert_key ce_name
      (make_ce path (s\<lparr>st_size := of_nat (length d)\<rparr>) (SHA1 E (blob_data E d))) es))) \<and>
    fs w' index_lock = None \<and>
    stored E w' (SHA1 E (blob_data E d)) = Some (frame (str ''blob'') d)"
proof -
  let ?sha1 = "SHA1 E (blob_data E d)"
  let ?p = "object_path ?sha1 w"
  obtain w1 where r: "read_cache E w = Ret (int (length es)) w1" "cache_inv w1" "entries w1 = es"
      "same_config w w1" "fs w1 = fs w"
    using read_cache_on_disk [OF ok(2) disk] by blast
  have not_lock: "opt \<noteq> index_lock"
    using opt by (auto simp: option_ignored_def verify_path_def index_lock_def)
  let ?i = "Regular (new_stat w1 index_lock) []"
  define w2 where "w2 = w1\<lparr>fs := (fs w1)(index_lock \<mapsto> ?i)\<rparr>"
  have o: "open_excl index_lock w1 = (True, w2)"
    using lock r by (auto simp: lockable_def no_fault_def sys_defs same_config_def w2_def is_dir_def)
  have c2: "same_config w w2" "cache_inv w2" "entries w2 = es" "slots w2 = slots w1"
    using r cache_inv_config [of w2 w1] by (auto simp: w2_def same_config_def)
  have n2: "unat (active_nr w2) < 2 ^ 29"
    using length_entries [OF c2(2)] c2(3) disk by (simp add: on_disk_def)
  have "add_file_to_cache E noret opt w2 = Ret 0 (w2\<lparr>errno := ENOENT\<rparr>)"
    using add_missing_file [OF c2(2), of opt E noret] opt c2 r not_lock
    by (auto simp: option_ignored_def w2_def same_config_def)
  moreover define w3 where "w3 = w2\<lparr>errno := ENOENT\<rparr>"
  ultimately have a1: "add_file_to_cache E noret opt w2 = Ret 0 w3" by simp
  have c3: "same_config w w3" "cache_inv w3" "entries w3 = es" "fs w3 = (fs w)(index_lock \<mapsto> ?i)"
      "unat (active_nr w3) < 2 ^ 29"
    using c2 n2 r cache_inv_config [of w3 w2] by (auto simp: w3_def w2_def same_config_def)
  have add3: "addable E path s d w3"
    using addable_lock [OF add ok(3,2) c3(1) _ c3(4)] lock by (simp add: lockable_def)
  have p3: "object_path ?sha1 w3 = ?p" using c3(1) by (rule object_path_config)
  obtain w4 st where a2: "add_file_to_cache E noret path w3 = Ret 0 w4" "cache_inv w4" "same_config w3 w4"
      "entries w4 = insert_key ce_name (make_ce path (s\<lparr>st_size := of_nat (length d)\<rparr>) ?sha1) es"
      "\<forall>p. p \<noteq> ?p \<longrightarrow> fs w4 p = fs w3 p" "fs w4 ?p = Some (Regular st (blob_data E d))"
    using add_file_to_cache_addable [OF ok(1,2) add3 c3(2,5), of noret] c3(3) p3 by auto
  have "?p \<in> object_paths w" using ok(2) by (auto simp: object_paths_def sha1_ok_def)
  then have np: "?p \<noteq> index_lock" "?p \<noteq> index_path" using index_not_object [OF ok(3)] by auto
  have ap: "add_paths E noret [opt, path] w2 = Ret True w4"
    using opt add a1 a2(1) by (simp add: option_ignored_def addable_def)
  have "fs w4 index_lock = Some ?i" using a2(5) np c3(4) by (metis fun_upd_same)
  moreover have "room w4 index_lock = None" "fault w4 SysRename index_lock = None"
    using lock c3(1) a2(3) by (auto simp: lockable_def no_fault_def same_config_def)
  ultimately obtain w5 w6 where
    wr: "write_cache E index_lock (slots w4) (unat (active_nr w4)) w4 = Ret 0 w5"
      "rename index_lock index_path w5 = (True, w6)" "same_config w4 w6"
      "fs w6 = (fs w4)(index_path \<mapsto> Regular (new_stat w1 index_lock) (index_bytes E (entries w4)),
         index_lock := None)"
    using write_and_rename [OF ok(2) a2(2)] by blast
  have "update_cache E noret [prog, opt, path] w = Ret (Some 0) w6"
    unfolding update_cache_def using r(1) o ap wr by (simp add: bindO.simps)
  moreover have "object_path ?sha1 w6 = ?p"
    using c3(1) a2(3) wr(3) by (metis object_path_config)
  then have "stored E w6 ?sha1 = Some (frame (str ''blob'') d)"
    using wr(4) a2(6) np inflate_blob_data [OF ok(1), of d] add
    by (simp add: stored_def addable_def)
  ultimately show ?thesis
    using wr(4) a2(4) by (auto simp: index_path_def index_lock_def)
qed


end
