(* ===== verification/Show_Diff.thy ===== *)
theory Show_Diff
  imports Update_Cache
begin

text \<open>
  The commands \<^verbatim>\<open>--diff\<close>, \<^verbatim>\<open>--status\<close> and \<^verbatim>\<open>--rm\<close>: \<^verbatim>\<open>src/show-diff.c\<close>, \<^verbatim>\<open>src/status.c\<close> and
  \<^verbatim>\<open>src/remove.c\<close>.
\<close>

section \<open>Comparing an entry with a file (src/show-diff.c)\<close>

definition MTIME_CHANGED :: u32 where "MTIME_CHANGED = 0x0001"
definition CTIME_CHANGED :: u32 where "CTIME_CHANGED = 0x0002"
definition OWNER_CHANGED :: u32 where "OWNER_CHANGED = 0x0004"
definition MODE_CHANGED :: u32 where "MODE_CHANGED = 0x0008"
definition INODE_CHANGED :: u32 where "INODE_CHANGED = 0x0010"
definition DATA_CHANGED :: u32 where "DATA_CHANGED = 0x0020"

definition match_stat :: "cache_entry \<Rightarrow> stat \<Rightarrow> u32" where
  "match_stat ce st =
     (if sec (ce_mtime ce) \<noteq> ucast (st_mtim_sec st) \<or> nsec (ce_mtime ce) \<noteq> ucast (st_mtim_nsec st)
      then MTIME_CHANGED else 0) OR
     (if sec (ce_ctime ce) \<noteq> ucast (st_ctim_sec st) \<or> nsec (ce_ctime ce) \<noteq> ucast (st_ctim_nsec st)
      then CTIME_CHANGED else 0) OR
     (if ce_uid ce \<noteq> st_uid st \<or> ce_gid ce \<noteq> st_gid st then OWNER_CHANGED else 0) OR
     (if ce_mode ce \<noteq> st_mode st then MODE_CHANGED else 0) OR
     (if ce_dev ce \<noteq> ucast (st_dev st) \<or> ce_ino ce \<noteq> ucast (st_ino st) then INODE_CHANGED else 0) OR
     (if ce_st_size ce \<noteq> ucast (st_size st) then DATA_CHANGED else 0)"

text \<open>
  \<^verbatim>\<open>show_differences\<close> hands the old contents to \<^verbatim>\<open>diff -u - name\<close> through a shell.  The command line is
  cut to the 999 characters of \<^verbatim>\<open>cmd\<close>.  What the command prints is not the program's doing: the model
  returns the command and its input, and takes the output as a function \<open>run\<close> of both and the files.
\<close>

type_synonym shell = "bytes \<Rightarrow> bytes \<Rightarrow> (bytes \<Rightarrow> inode option) \<Rightarrow> bytes"

definition diff_command :: "cache_entry \<Rightarrow> bytes" where
  "diff_command ce = take 999 (str ''diff -u - '' @ cstr (name ce))"

definition show_differences :: "shell \<Rightarrow> cache_entry \<Rightarrow> bytes \<Rightarrow> gitworld \<Rightarrow> gitworld" where
  "show_differences run ce old_contents w = printf (run (diff_command ce) old_contents (fs w)) w"

text \<open>
  The body of the loop of \<^verbatim>\<open>show_diff\<close>.  When the object cannot be read, \<^verbatim>\<open>size\<close> is not set and \<^verbatim>\<open>new\<close> is
  null: \<^verbatim>\<open>fwrite\<close> reads through a null pointer.
\<close>

definition show_entry :: "extlib \<Rightarrow> shell \<Rightarrow> cache_entry \<Rightarrow> gitworld \<Rightarrow> (unit, gitworld) outcome" where
  "show_entry E run ce w =
     (case stat_path (cstr (name ce)) w of
        (None, w1) \<Rightarrow> Ret () (printf (cstr (name ce) @ str '': '' @ strerror (errno w1) @ newline) w1)
      | (Some st, w1) \<Rightarrow>
         (if match_stat ce st = 0 then Ret () (printf (cstr (name ce) @ str '': ok'' @ newline) w1)
          else
            bindO (read_sha1_file E (ce_sha1 ce)
                (printf (take (unat (namelen ce)) (cstr (name ce)) @ str '':  '' @
                  concat (map (\<lambda>n. fmt_02x (unat (ce_sha1 ce ! n))) [0..<20]) @ newline) w1))
              (\<lambda>new w2. case new of None \<Rightarrow> Undef
                | Some (type, contents) \<Rightarrow> Ret () (show_differences run ce contents w2))))"

fun show_entries :: "extlib \<Rightarrow> shell \<Rightarrow> cache_entry list \<Rightarrow> gitworld \<Rightarrow> (int, gitworld) outcome" where
  "show_entries E run [] w = Ret 0 w"
| "show_entries E run (ce # es) w = bindO (show_entry E run ce w) (\<lambda>_ w1. show_entries E run es w1)"

definition show_diff :: "extlib \<Rightarrow> shell \<Rightarrow> gitworld \<Rightarrow> (int, gitworld) outcome" where
  "show_diff E run w =
     bindO (read_cache E w) (\<lambda>nr w1.
       if nr < 0 then Exit 1 (perror (str ''read_cache'') w1)
       else (case deref_slots (nat nr) (slots w1) of None \<Rightarrow> Undef
             | Some es \<Rightarrow> show_entries E run es w1))"

section \<open>Is a file in the index (src/status.c)\<close>

fun status_paths :: "cache_entry list \<Rightarrow> bytes list \<Rightarrow> bytes" where
  "status_paths es [] = []"
| "status_paths es (path # ps) =
     (if \<not> verify_path path then []
      else if \<exists>ce\<in>set es. cstr (name ce) = path
      then path @ str '' has been added to cache!'' @ newline
      else path @ str '' has not been added!'' @ newline) @ status_paths es ps"

definition status :: "extlib \<Rightarrow> bytes list \<Rightarrow> gitworld \<Rightarrow> (int, gitworld) outcome" where
  "status E argv w0 =
     (let w = printf (str ''cache entry status:'' @ newline @ newline) w0 in
      bindO (read_cache E w) (\<lambda>nr w1.
        if nr < 0 then Ret (- 1) (perror (str ''cache corrupted'') w1)
        else (case deref_slots (nat nr) (slots w1) of None \<Rightarrow> Undef
              | Some es \<Rightarrow> Ret 0 (printf (status_paths es (drop 2 argv)) w1))))"

section \<open>Removing a file (src/remove.c)\<close>

text \<open>
  \<^verbatim>\<open>cache_name_pos\<close> of \<^verbatim>\<open>remove.c\<close> reads the index first and returns -1 when that fails, the same value
  as for an entry found at position 0.
\<close>

definition rm_cache_name_pos :: "extlib \<Rightarrow> bytes \<Rightarrow> gitworld \<Rightarrow> (int, gitworld) outcome" where
  "rm_cache_name_pos E nm w =
     bindO (read_cache E w) (\<lambda>nr w1.
       if nr < 0 then Ret (- 1) (perror (str ''cache corrupted'') w1)
       else (case cache_name_pos nm (length nm) w1 of None \<Rightarrow> Undef | Some pos \<Rightarrow> Ret pos w1))"

text \<open>\<^verbatim>\<open>printf("%d", pos)\<close>.\<close>

definition fmt_int :: "int \<Rightarrow> bytes" where
  "fmt_int i = (if i < 0 then 45 # fmt_dec (nat (- i)) else fmt_dec (nat i))"

definition rm_remove_file_from_cache :: "extlib \<Rightarrow> bytes \<Rightarrow> gitworld \<Rightarrow> (unit, gitworld) outcome" where
  "rm_remove_file_from_cache E path w =
     bindO (rm_cache_name_pos E path w) (\<lambda>pos w1. remove_at pos (printf (fmt_int pos @ newline) w1))"

text \<open>
  \<^verbatim>\<open>remove_function\<close>: \<^verbatim>\<open>argv[2]\<close> is the path (the option parser guarantees it), then the remaining names
  are printed.  Nothing is written back.
\<close>

definition remove_function :: "extlib \<Rightarrow> bytes list \<Rightarrow> gitworld \<Rightarrow> (unit, gitworld) outcome" where
  "remove_function E argv w =
     (if length argv \<le> 2 then Undef
      else bindO (rm_remove_file_from_cache E (argv ! 2) w) (\<lambda>_ w1.
        case deref_slots (unat (active_nr w1)) (slots w1) of None \<Rightarrow> Undef
        | Some es \<Rightarrow> Ret () (printf (concat (map (\<lambda>ce. cstr (name ce) @ newline) es)) w1)))"


section \<open>Lemmas and properties\<close>

lemmas change_flags = MTIME_CHANGED_def CTIME_CHANGED_def OWNER_CHANGED_def MODE_CHANGED_def
  INODE_CHANGED_def DATA_CHANGED_def

text \<open>
  each bit of \<^verbatim>\<open>match_stat\<close> reports exactly the difference it is named after.
\<close>

theorem match_stat_flags:
  "(match_stat ce st AND MTIME_CHANGED \<noteq> 0 \<longleftrightarrow>
      (sec (ce_mtime ce), nsec (ce_mtime ce)) \<noteq> (ucast (st_mtim_sec st), ucast (st_mtim_nsec st))) \<and>
   (match_stat ce st AND CTIME_CHANGED \<noteq> 0 \<longleftrightarrow>
      (sec (ce_ctime ce), nsec (ce_ctime ce)) \<noteq> (ucast (st_ctim_sec st), ucast (st_ctim_nsec st))) \<and>
   (match_stat ce st AND OWNER_CHANGED \<noteq> 0 \<longleftrightarrow> (ce_uid ce, ce_gid ce) \<noteq> (st_uid st, st_gid st)) \<and>
   (match_stat ce st AND MODE_CHANGED \<noteq> 0 \<longleftrightarrow> ce_mode ce \<noteq> st_mode st) \<and>
   (match_stat ce st AND INODE_CHANGED \<noteq> 0 \<longleftrightarrow>
      (ce_dev ce, ce_ino ce) \<noteq> (ucast (st_dev st), ucast (st_ino st))) \<and>
   (match_stat ce st AND DATA_CHANGED \<noteq> 0 \<longleftrightarrow> ce_st_size ce \<noteq> ucast (st_size st))"
  unfolding match_stat_def change_flags by (simp add: bit.conj_disj_distrib2)

lemma match_stat_make_ce: "match_stat (make_ce path st sha1) st = 0"
  by (simp add: match_stat_def make_ce_def)


lemma deref_entries:
  assumes "cache_inv w" "entries w = es"
  shows "deref_slots (length es) (slots w) = Some es"
  using cache_inv_deref [OF assms(1)] length_entries [OF assms(1)] assms(2) by simp

lemma on_disk_printf: "on_disk E es (printf m w) = on_disk E es w"
  by (simp add: on_disk_def index_readable_def printf_def sha1_file_directory_def getenv_def)

text \<open>The file an entry describes is still the one that was added.\<close>

definition unchanged :: "gitworld \<Rightarrow> cache_entry \<Rightarrow> bool" where
  "unchanged w ce \<longleftrightarrow> fault w SysStat (ce_name ce) = None \<and>
     (case fs w (ce_name ce) of None \<Rightarrow> False | Some i \<Rightarrow> match_stat ce (inode_stat i) = 0)"

lemma show_entry_unchanged:
  assumes "wf_ce ce" "unchanged w ce"
  shows "show_entry E run ce w = Ret () (printf (ce_name ce @ str '': ok'' @ newline) w)"
  using assms by (auto simp: show_entry_def unchanged_def stat_path_def sys_stat_def cstr_name split: option.splits)

lemma unchanged_printf: "unchanged (printf m w) ce = unchanged w ce"
  by (simp add: unchanged_def printf_def)

lemma show_entries_unchanged:
  assumes "\<forall>ce\<in>set es. wf_ce ce \<and> unchanged w ce"
  shows "show_entries E run es w =
    Ret 0 (printf (concat (map (\<lambda>ce. ce_name ce @ str '': ok'' @ newline) es)) w)"
  using assms
proof (induction es arbitrary: w)
  case (Cons ce es)
  then show ?case
    by (simp add: show_entry_unchanged unchanged_printf) (simp add: printf_def)
qed (simp add: printf_def)


text \<open>
  \<^verbatim>\<open>git --status path\<close> says that a path it accepts has been added exactly when the index
  has an entry with that name.
\<close>

theorem status_reports:
  assumes "sha1_ok E" "on_disk E es w" "verify_path path"
  shows "\<exists>w'. status E [prog, opt, path] w = Ret 0 w' \<and> fs w' = fs w \<and>
    stdout w' = stdout w @ str ''cache entry status:'' @ newline @ newline @ path @
      (if path \<in> ce_name ` set es then str '' has been added to cache!'' else str '' has not been added!'') @
      newline"
proof -
  let ?w = "printf (str ''cache entry status:'' @ newline @ newline) w"
  have "on_disk E es ?w" using assms(2) by (simp add: on_disk_printf)
  from read_cache_on_disk [OF assms(1) this] obtain w1 where
    r: "read_cache E ?w = Ret (int (length es)) w1" "cache_inv w1" "entries w1 = es" "fs w1 = fs w"
      "stdout w1 = stdout ?w"
    by auto
  have "(\<exists>ce\<in>set es. cstr (name ce) = path) \<longleftrightarrow> path \<in> ce_name ` set es"
    using assms(2) by (force simp: on_disk_def cstr_name)
  then show ?thesis
    using r assms(3) by (simp add: status_def Let_def deref_entries) (simp add: printf_def)
qed

lemma cache_inv_printf:
  "cache_inv (printf m w) = cache_inv w" "entries (printf m w) = entries w" "slots (printf m w) = slots w"
  by (simp_all add: cache_inv_def entries_def slots_def printf_def)

lemma remove_at_fs: "remove_at pos w = Ret u w' \<Longrightarrow> fs w' = fs w"
  by (auto simp: remove_at_def split: if_splits option.splits)

text \<open>
  C39: \<^verbatim>\<open>git --rm path\<close> takes the entry out of the array in memory and prints
  the names that are left, but no file changes: the index on disk still lists the path.
\<close>

theorem remove_function_keeps_index:
  assumes "sha1_ok E" "on_disk E es w"
  shows "\<exists>w'. remove_function E [prog, opt, path] w = Ret () w' \<and>
    entries w' = delete_key ce_name path es \<and> fs w' = fs w \<and>
    stdout w' = stdout w @ fmt_int (coded_pos path es) @ newline @
      concat (map (\<lambda>ce. ce_name ce @ newline) (delete_key ce_name path es))"
proof -
  obtain w1 where r: "read_cache E w = Ret (int (length es)) w1" "cache_inv w1" "entries w1 = es"
      "fs w1 = fs w" "stdout w1 = stdout w"
    using read_cache_on_disk [OF assms] by blast
  define w2 where "w2 = printf (fmt_int (coded_pos path es) @ newline) w1"
  have inv2: "cache_inv w2" "entries w2 = es" using r by (simp_all add: w2_def cache_inv_printf)
  obtain w3 where a: "remove_at (coded_pos path es) w2 = Ret () w3" "same_but_cache w2 w3" "cache_inv w3"
      "entries w3 = delete_key ce_name path es"
    using remove_at_spec [OF inv2(1), of path] inv2(2) by auto
  have rm: "rm_remove_file_from_cache E path w = Ret () w3"
    using r cache_name_pos_spec [OF r(2), of "length path" path] a(1)
    by (simp add: rm_remove_file_from_cache_def rm_cache_name_pos_def w2_def)
  have d: "deref_slots (unat (active_nr w3)) (slots w3) = Some (delete_key ce_name path es)"
    using cache_inv_deref [OF a(3)] a(4) by simp
  have "\<forall>ce\<in>set (delete_key ce_name path es). cstr (name ce) = ce_name ce"
    using assms(2) by (auto simp: on_disk_def delete_key_def cstr_name)
  then have m: "map (\<lambda>ce. cstr (name ce) @ newline) (delete_key ce_name path es) =
      map (\<lambda>ce. ce_name ce @ newline) (delete_key ce_name path es)" by simp
  have "remove_function E [prog, opt, path] w =
      Ret () (printf (concat (map (\<lambda>ce. ce_name ce @ newline) (delete_key ce_name path es))) w3)"
    by (simp add: remove_function_def rm d m)
  then show ?thesis
    using a r by (simp add: cache_inv_printf) (simp add: printf_def w2_def same_but_cache_def)
qed

text \<open>
  outside a repository \<^verbatim>\<open>git --rm path\<close> takes the error value -1 of its
  \<^verbatim>\<open>cache_name_pos\<close> for a match at position 0; the count of entries wraps to \<^verbatim>\<open>UINT_MAX\<close> and the
  loop that prints the names dereferences a null array.
\<close>

theorem remove_function_no_repository:
  assumes "active_cache w = None" "active_nr w = 0" "fs w (sha1_file_directory w) = None"
  shows "remove_function E [prog, opt, path] w = Undef"
proof -
  have dir: "sha1_file_directory (w\<lparr>errno := e\<rparr>) = sha1_file_directory w" for e
    by (simp add: sha1_file_directory_def getenv_def)
  obtain w1 where r: "read_cache E w = Ret (- 1) w1" "active_cache w1 = None" "active_nr w1 = 0"
    using assms
    by (cases "fault w SysAccess (sha1_file_directory w)")
      (auto simp: read_cache_def sys_defs Let_def dir ret_error_def error_def eprintf_def)
  have "remove_at (- 1) v = Ret () (v\<lparr>active_nr := - 1\<rparr>)"
    if "active_cache v = None" "active_nr v = 0" for v
    using that by (simp add: remove_at_def shift_down.simps slots_def)
  moreover have "0 < unat (- 1 :: u32)" by (simp add: word_less_nat_alt [symmetric] word_neq_0_conv [symmetric] unat_gt_0)
  ultimately show ?thesis
    using r by (simp add: remove_function_def rm_remove_file_from_cache_def rm_cache_name_pos_def
        deref_slots_def slots_def)
qed

end
