(* ===== verification/Tree_Object.thy ===== *)
theory Tree_Object
  imports Show_Diff
begin

text \<open>
  Tree objects: \<^verbatim>\<open>src/write-tree.c\<close> and \<^verbatim>\<open>src/read-tree.c\<close>.  The output buffer is kept as the block of
  memory it is: a store that does not fit into the block is an out-of-range access.
\<close>

section \<open>Blocks of memory\<close>

text \<open>
  What a fresh block contains before it is written is never read by this code; the model fills it
  with zeros.
\<close>

definition poke :: "bytes \<Rightarrow> nat \<Rightarrow> bytes \<Rightarrow> bytes option" where
  "poke block off bs =
     (if off + length bs \<le> length block
      then Some (take off block @ bs @ drop (off + length bs) block) else None)"

definition malloc_bytes :: "extlib \<Rightarrow> nat \<Rightarrow> bytes option" where
  "malloc_bytes E n = (if malloc_ok E n then Some (replicate n 0) else None)"

definition realloc_bytes :: "extlib \<Rightarrow> bytes \<Rightarrow> nat \<Rightarrow> bytes option" where
  "realloc_bytes E block n =
     (if malloc_ok E n then Some (take n block @ replicate (n - length block) 0) else None)"

text \<open>\<^verbatim>\<open>strcpy(dst, src)\<close> on two blocks: it copies up to the first NUL, which must be inside both.\<close>

definition strcpy :: "bytes \<Rightarrow> bytes \<Rightarrow> bytes option" where
  "strcpy dst src = (if no_nul src then None else poke dst 0 (cstr src @ [0]))"

section \<open>Writing a tree (src/write-tree.c)\<close>

text \<open>The \<^verbatim>\<open>do ... while\<close> loop of \<^verbatim>\<open>prepend_integer\<close>; running off the front of the buffer is \<open>None\<close>.\<close>

fun prepend_loop :: "bytes \<Rightarrow> nat \<Rightarrow> u32 \<Rightarrow> (bytes \<times> nat) option" where
  "prepend_loop buffer 0 val = None"
| "prepend_loop buffer (Suc i) val =
     (let buffer' = buffer[i := 48 + ucast (val mod 10)]; val' = val div 10
      in if val' = 0 then Some (buffer', i) else prepend_loop buffer' i val')"

definition prepend_integer :: "bytes \<Rightarrow> u32 \<Rightarrow> nat \<Rightarrow> (bytes \<times> nat) option" where
  "prepend_integer buffer val i =
     (if i = 0 \<or> length buffer < i then None else prepend_loop (buffer[i - 1 := 0]) (i - 1) val)"

definition ORIG_OFFSET :: nat where
  "ORIG_OFFSET = 40"

text \<open>\<^verbatim>\<open>alloc_nr\<close> applied to an \<^verbatim>\<open>unsigned long\<close>.\<close>

definition alloc_nr_ul :: "nat \<Rightarrow> nat" where
  "alloc_nr_ul x = (x + 16) * 3 div 2"

text \<open>The loop over the entries: \<open>buffer\<close> has \<^verbatim>\<open>size\<close> bytes, of which \<open>offset\<close> are used.\<close>

fun tree_entries ::
  "extlib \<Rightarrow> cache_entry list \<Rightarrow> bytes \<Rightarrow> nat \<Rightarrow> gitworld \<Rightarrow> (bytes \<times> nat, gitworld) outcome" where
  "tree_entries E [] buffer offset w = Ret (buffer, offset) w"
| "tree_entries E (ce # es) buffer offset w =
     (case check_valid_sha1 (ce_sha1 ce) w of (r, w1) \<Rightarrow>
        if r < 0 then Exit 1 w1
        else
          (let need = offset + unat (namelen ce) + 60;
               text = fmt_oct (unat (ce_mode ce)) @ 32 # cstr (name ce) in
           case (if length buffer < need then realloc_bytes E buffer (alloc_nr_ul need) else Some buffer) of
             None \<Rightarrow> Undef
           | Some b1 \<Rightarrow>
             (case poke b1 offset (text @ [0]) of None \<Rightarrow> Undef
              | Some b2 \<Rightarrow>
                (case poke b2 (offset + length text + 1) (ce_sha1 ce) of None \<Rightarrow> Undef
                 | Some b3 \<Rightarrow> tree_entries E es b3 (offset + length text + 1 + 20) w1))))"

text \<open>
  The end of \<^verbatim>\<open>write_tree\<close>: the header in front of the entries, the object, and \<^verbatim>\<open>strcpy\<close> of the binary
  name.  \<open>block\<close> is the whole block of \<^verbatim>\<open>_sha1\<close>: the 20 bytes asked for and the bytes behind them that
  the allocator left in it; \<open>sha1\<close> is the block that the caller allocated.
\<close>

definition tree_finish ::
  "extlib \<Rightarrow> bytes \<Rightarrow> bytes \<Rightarrow> bytes \<Rightarrow> nat \<Rightarrow> gitworld \<Rightarrow> (bytes, gitworld) outcome" where
  "tree_finish E block sha1 buffer offset w =
     (case prepend_integer buffer (of_nat (offset - ORIG_OFFSET)) ORIG_OFFSET of None \<Rightarrow> Undef
      | Some (b1, i) \<Rightarrow>
        if i < 5 then Undef
        else (case poke b1 (i - 5) (str ''tree '') of None \<Rightarrow> Undef
          | Some b2 \<Rightarrow>
            (case write_sha1_file E (take (unat (of_nat (offset - (i - 5)) :: u32)) (drop (i - 5) b2)) w of
               ((_, s), w1) \<Rightarrow>
                 (case strcpy sha1 (s @ drop 20 block) of None \<Rightarrow> Undef | Some sha1' \<Rightarrow> Ret sha1' w1))))"

definition write_tree :: "extlib \<Rightarrow> bytes \<Rightarrow> bytes \<Rightarrow> gitworld \<Rightarrow> (bytes, gitworld) outcome" where
  "write_tree E block sha1 w =
     bindO (read_cache E w) (\<lambda>nr w1.
       if nr \<le> 0 then Exit 1 (eprintf (str ''No file-cache to create a tree of'' @ newline) w1)
       else if 2 ^ 31 \<le> nr * 40 + 400 then Undef
       else
         (case (malloc_bytes E (nat (nr * 40 + 400)), deref_slots (nat nr) (slots w1)) of
            (Some buffer, Some es) \<Rightarrow>
              bindO (tree_entries E es buffer ORIG_OFFSET w1)
                (\<lambda>(b, offset) w2. tree_finish E block sha1 b offset w2)
          | _ \<Rightarrow> Undef))"

section \<open>Printing a tree (src/read-tree.c)\<close>

text \<open>
  The loop of \<^verbatim>\<open>unpack\<close> over the rest of the object.  \<^verbatim>\<open>strlen\<close> runs out of the buffer when there is no NUL
  left, and \<^verbatim>\<open>path\<close> is no valid pointer when \<^verbatim>\<open>strchr\<close> finds no space.
\<close>

function unpack_loop :: "bytes \<Rightarrow> gitworld \<Rightarrow> (int, gitworld) outcome" where
  "unpack_loop buffer w =
     (if buffer = [] then Ret 0 w
      else if no_nul buffer then Undef
      else
        (let s = cstr buffer; len = length s + 1 in
         if length buffer < len + 20 then usage (str ''corrupt 'tree' file'') w
         else (case scan_unsigned 8 32 s of None \<Rightarrow> usage (str ''corrupt 'tree' file'') w
           | Some (mode, _) \<Rightarrow>
             if 32 \<notin> set s then Undef
             else unpack_loop (drop (len + 20) buffer)
               (printf (fmt_oct mode @ str '' '' @ tl (dropWhile (\<lambda>c. c \<noteq> 32) s) @ str '' ('' @
                  sha1_to_hex (take 20 (drop len buffer)) @ str '')'' @ newline) w))))"
  by auto
termination by (relation "measure (\<lambda>(buffer, w). length buffer)") auto

declare unpack_loop.simps [simp del]

definition unpack :: "extlib \<Rightarrow> bytes \<Rightarrow> gitworld \<Rightarrow> (int, gitworld) outcome" where
  "unpack E sha1 w =
     bindO (read_sha1_file E sha1 w) (\<lambda>r w1.
       case r of None \<Rightarrow> usage (str ''unable to read sha1 file'') w1
       | Some (type, buffer) \<Rightarrow>
          if type \<noteq> str ''tree'' then usage (str ''expected a 'tree' node'') w1
          else unpack_loop buffer w1)"

definition read_tree :: "extlib \<Rightarrow> bytes list \<Rightarrow> gitworld \<Rightarrow> (int, gitworld) outcome" where
  "read_tree E argv w =
     (if length argv \<noteq> 3 then usage (str ''read-tree <key>'') w
      else (case get_sha1_hex (argv ! 2) of None \<Rightarrow> usage (str ''read-tree <key>'') w
       | Some sha1 \<Rightarrow>
         bindO (unpack E sha1 w) (\<lambda>r w1. if r < 0 then usage (str ''unpack failed'') w1 else Ret 0 w1)))"

section \<open>The contents of a tree\<close>

definition tree_item :: "cache_entry \<Rightarrow> bytes" where
  "tree_item ce = fmt_oct (unat (ce_mode ce)) @ 32 # ce_name ce @ 0 # ce_sha1 ce"

definition tree_body :: "cache_entry list \<Rightarrow> bytes" where
  "tree_body es = concat (map tree_item es)"

lemma tree_body_simps [simp]: "tree_body [] = []" "tree_body (ce # es) = tree_item ce @ tree_body es"
  by (simp_all add: tree_body_def)

lemma length_mode: "length (fmt_oct (unat (m :: u32))) \<le> 11"
proof -
  have "unat m < 8 ^ 11" using unsigned_less [of m, where 'a = nat] by simp
  then show ?thesis by (intro length_digits_le) auto
qed

lemma length_tree_item [lens]:
  assumes "wf_ce ce"
  shows "length (tree_item ce) \<le> unat (namelen ce) + 33"
  using assms length_mode [of "ce_mode ce"]
  by (simp add: tree_item_def wf_ce_def ce_name_def)

lemma poke_ok:
  assumes "off + length bs \<le> length block"
  shows "\<exists>b. poke block off bs = Some b \<and> length b = length block \<and>
    take (off + length bs) b = take off block @ bs"
  using assms by (auto simp: poke_def)

text \<open>The object of an entry can be accessed.\<close>

definition has_object :: "gitworld \<Rightarrow> cache_entry \<Rightarrow> bool" where
  "has_object w ce \<longleftrightarrow> fs w (object_path (ce_sha1 ce) w) \<noteq> None \<and>
     fault w SysAccess (object_path (ce_sha1 ce) w) = None"

lemma check_valid_sha1_ok: "has_object w ce \<Longrightarrow> check_valid_sha1 (ce_sha1 ce) w = (0, w)"
  by (auto simp: check_valid_sha1_def has_object_def sys_defs)

text \<open>The 60 bytes kept free beside the name are enough for mode, separators and object name.\<close>

lemma tree_entries_spec:
  assumes "\<forall>ce\<in>set es. wf_ce ce \<and> has_object w ce" "\<forall>n. malloc_ok E n" "offset \<le> length buffer"
  shows "\<exists>b. tree_entries E es buffer offset w = Ret (b, offset + length (tree_body es)) w \<and>
    offset + length (tree_body es) \<le> length b \<and> 
    take (offset + length (tree_body es)) b = take offset buffer @ tree_body es"
  using assms(1,3)
proof (induction es arbitrary: buffer offset)
  case (Cons ce es)
  let ?need = "offset + unat (namelen ce) + 60"
  define t where "t = (fmt_oct (unat (ce_mode ce)) @ 32 # cstr (name ce)) @ [0]"
  have wf: "wf_ce ce" "has_object w ce" using Cons.prems by auto
  have item: "tree_item ce = t @ ce_sha1 ce" "length (ce_sha1 ce) = 20"
    using cstr_name [OF wf(1)] wf(1) by (simp_all add: tree_item_def wf_ce_def t_def)
  have fits: "offset + length t + 20 \<le> ?need" using length_tree_item [OF wf(1)] item by simp
  obtain b1 where b1: "(if length buffer < ?need then realloc_bytes E buffer (alloc_nr_ul ?need)
      else Some buffer) = Some b1" "?need \<le> length b1" "take offset b1 = take offset buffer"
  proof (cases "length buffer < ?need")
    case True
    then show ?thesis
      using assms(2) Cons.prems(2) that [of "take (alloc_nr_ul ?need) buffer @
          replicate (alloc_nr_ul ?need - length buffer) 0"]
      by (simp add: realloc_bytes_def alloc_nr_ul_def)
  next
    case False
    then show ?thesis using that [of buffer] by simp
  qed
  obtain b2 where b2: "poke b1 offset t = Some b2" "length b2 = length b1"
      "take (offset + length t) b2 = take offset b1 @ t"
    using poke_ok [of offset t b1] fits b1(2) by auto
  obtain b3 where b3: "poke b2 (offset + length t) (ce_sha1 ce) = Some b3" "length b3 = length b1"
      "take (offset + length t + 20) b3 = take (offset + length t) b2 @ ce_sha1 ce"
    using poke_ok [of "offset + length t" "ce_sha1 ce" b2] fits b1(2) b2(2) item by auto
  let ?off = "offset + length (tree_item ce)"
  have off: "?off = offset + length t + 20" using item by simp
  then have taken: "?off \<le> length b3" "take ?off b3 = take offset buffer @ tree_item ce"
    using b3(2,3) b2(3) b1(2,3) fits item(1) by (simp_all only: off) simp_all
  have "tree_entries E (ce # es) buffer offset w = tree_entries E es b3 (offset + length t + 20) w"
    using b1(1) b2(1) b3(1) check_valid_sha1_ok [OF wf(2)] by (simp add: Let_def t_def)
  then have run: "tree_entries E (ce # es) buffer offset w = tree_entries E es b3 ?off w"
    by (simp only: off)
  then show ?case
    using Cons.IH [of ?off b3] Cons.prems(1) taken by (simp add: add.assoc)
qed simp

text \<open>\<^verbatim>\<open>prepend_integer\<close> writes the decimal digits and a NUL in front of position \<open>i\<close>.\<close>

lemma prepend_digit: "(48 + ucast ((val :: u32) mod 10) :: byte) = digit_char (unat val mod 10)"
proof -
  have "(ucast (val mod 10) :: byte) = of_nat (unat (val mod 10))"
    by (simp add: unsigned_of_nat)
  then have "(ucast (val mod 10) :: byte) = of_nat (unat val mod 10)" by (simp add: unat_mod)
  then show ?thesis by (simp add: digit_char_def)
qed

lemma prepend_loop_spec:
  "length (fmt_dec (unat val)) \<le> i \<Longrightarrow> i \<le> length buffer \<Longrightarrow>
   prepend_loop buffer i val =
     Some (take (i - length (fmt_dec (unat val))) buffer @ fmt_dec (unat val) @ drop i buffer,
       i - length (fmt_dec (unat val)))"
proof (induction buffer i val rule: prepend_loop.induct)
  case (2 buffer i val)
  let ?b = "buffer[i := digit_char (unat val mod 10)]"
  have z: "val div 10 = 0 \<longleftrightarrow> unat val < 10"
    by (simp add: word_unat_eq_iff unat_div div_eq_0_iff)
  have b: "take k ?b = take k buffer" "drop i ?b = digit_char (unat val mod 10) # drop (Suc i) buffer"
    if "k \<le> i" for k
    using 2(3) that by (auto simp: Cons_nth_drop_Suc [symmetric] drop_update_cancel)
  show ?case
  proof (cases "unat val < 10")
    case True
    then have "fmt_dec (unat val) = [digit_char (unat val)]" by (simp add: digits.simps)
    moreover have "?b = take i buffer @ digit_char (unat val) # drop (Suc i) buffer"
      using True 2(3) by (simp add: upd_conv_take_nth_drop)
    ultimately show ?thesis using True z by (simp add: prepend_digit Let_def)
  next
    case False
    then have d: "fmt_dec (unat val) = fmt_dec (unat (val div 10)) @ [digit_char (unat val mod 10)]"
      by (subst digits.simps) (simp add: unat_div)
    with 2 False z b show ?thesis by (simp add: prepend_digit Let_def)
  qed
qed simp

lemma length_fmt_dec_u32: "length (fmt_dec (unat (v :: u32))) \<le> 10"
proof -
  have "unat v < 10 ^ 10" using unsigned_less [of v, where 'a = nat] by simp
  then show ?thesis by (intro length_digits_le) auto
qed

lemma prepend_integer_spec:
  fixes val :: u32
  assumes "40 \<le> length buffer"
  defines "ds \<equiv> fmt_dec (unat val)"
  shows "prepend_integer buffer val 40 =
    Some (take (39 - length ds) buffer @ ds @ 0 # drop 40 buffer, 39 - length ds)"
proof -
  have "drop 39 (buffer[39 := 0]) = 0 # drop 40 buffer"
    using assms(1) by (simp add: Cons_nth_drop_Suc [symmetric])
  then show ?thesis
    using assms(1) length_fmt_dec_u32 [of val] prepend_loop_spec [of val 39 "buffer[39 := 0]"]
    by (simp add: prepend_integer_def ds_def)
qed

text \<open>The object that ends up in the buffer is the framed list of entries.\<close>

definition tree_data :: "cache_entry list \<Rightarrow> bytes" where
  "tree_data es = frame (str ''tree'') (tree_body es)"

lemma type_ok_tree [simp]: "type_ok (str ''tree'')"
  by (simp add: type_ok_def is_space_def)

lemma unat_of_nat_u32: "n < 2 ^ 32 \<Longrightarrow> unat (of_nat n :: u32) = n"
  by (simp add: unat_of_nat)

lemma tree_finish_spec:
  assumes "40 + length body \<le> length b" "take (40 + length body) b = take 40 b @ body"
    "length body < 2 ^ 31"
  shows "tree_finish E block sha1 b (40 + length body) w =
    (case write_sha1_file E (frame (str ''tree'') body) w of ((_, s), w1) \<Rightarrow>
       (case strcpy sha1 (s @ drop 20 block) of None \<Rightarrow> Undef | Some sha1' \<Rightarrow> Ret sha1' w1))"
proof -
  define ds where "ds = fmt_dec (length body)"
  have u: "unat (of_nat (length body) :: u32) = length body" using assms(3) by (simp add: unat_of_nat)
  have ds: "length ds \<le> 10" using length_fmt_dec_u32 [of "of_nat (length body)"] u ds_def by simp
  let ?b1 = "take (39 - length ds) b @ ds @ 0 # drop 40 b"
  let ?b2 = "take (34 - length ds) b @ str ''tree '' @ ds @ 0 # drop 40 b"
  have p: "prepend_integer b (of_nat (length body)) 40 = Some (?b1, 39 - length ds)"
    using prepend_integer_spec [of b "of_nat (length body)"] assms(1) u ds_def by simp
  have k: "poke ?b1 (34 - length ds) (str ''tree '') = Some ?b2"
    using ds assms(1) by (simp add: poke_def)
  have body: "take (length body) (drop 40 b) = body"
    using assms(1,2) by (simp add: take_drop add.commute)
  have len: "40 + length body - (34 - length ds) = length (str ''tree '' @ ds @ [0]) + length body"
    using ds by simp
  have "take (40 + length body - (34 - length ds)) (drop (34 - length ds) ?b2) =
      frame (str ''tree'') body"
    unfolding len using ds assms(1) body by (simp add: frame_def ds_def)
  moreover have "unat (of_nat (40 + length body - (34 - length ds)) :: u32) =
      40 + length body - (34 - length ds)"
    using assms(3) by (intro unat_of_nat_u32) simp
  moreover have "\<not> 39 - length ds < 5" "39 - length ds - 5 = 34 - length ds" using ds by simp_all
  ultimately show ?thesis
    unfolding tree_finish_def ORIG_OFFSET_def using p k by (simp only: diff_add_inverse) simp
qed

text \<open>Printing: one line for each entry.\<close>

definition tree_line :: "cache_entry \<Rightarrow> bytes" where
  "tree_line ce = fmt_oct (unat (ce_mode ce)) @ str '' '' @ ce_name ce @ str '' ('' @
     sha1_to_hex (ce_sha1 ce) @ str '')'' @ newline"

lemma mode_no_space: "32 \<notin> set (fmt_oct n)"
proof
  assume "32 \<in> set (fmt_oct n)"
  then obtain d where "d < 8" "32 = digit_char d" using set_digits [of 8 32 n] by auto
  then show False using digit_char_not_space [of d] by (simp add: is_space_def)
qed

lemma unpack_loop_item:
  assumes "wf_ce ce"
  shows "unpack_loop (tree_item ce @ rest) w = unpack_loop rest (printf (tree_line ce) w)"
proof -
  let ?m = "fmt_oct (unat (ce_mode ce))"
  let ?s = "?m @ 32 # ce_name ce"
  have wf: "no_nul (ce_name ce)" "length (ce_sha1 ce) = 20" using assms by (auto simp: wf_ce_def)
  have c: "cstr (tree_item ce @ rest) = ?s"
    using wf(1) cstr_append_nul [of ?s "ce_sha1 ce @ rest"] by (simp add: tree_item_def)
  have su: "scan_unsigned 8 32 (?m @ 32 # ce_name ce) = Some (unat (ce_mode ce), 32 # ce_name ce)"
    using unsigned_less [of "ce_mode ce", where 'a = nat]
    by (intro scan_unsigned_digits) (auto simp: digit_val_def)
  have sp: "dropWhile (\<lambda>c. c \<noteq> 32) ?s = 32 # ce_name ce"
    using mode_no_space by (subst dropWhile_append2) auto
  let ?len = "length ?s + 1"
  have ne: "tree_item ce \<noteq> []" "has_nul (tree_item ce)" by (simp_all add: tree_item_def)
  have len_split: "drop (length xs + 20) (xs @ ce_sha1 ce @ rest) = rest" for xs
    using wf(2) by simp
  have len: "\<not> length (tree_item ce @ rest) < ?len + 20"
      "drop (?len + 20) (tree_item ce @ rest) = rest" "take 20 (drop ?len (tree_item ce @ rest)) = ce_sha1 ce"
    using wf(2) len_split [of "?s @ [0]"] by (simp_all add: tree_item_def)
  show ?thesis
    unfolding unpack_loop.simps [of "tree_item ce @ rest"] c Let_def sp su len(2,3)
    using ne len(1) by (simp add: tree_line_def)
qed

lemma unpack_loop_body:
  "\<forall>ce\<in>set es. wf_ce ce \<Longrightarrow>
   unpack_loop (tree_body es) w = Ret 0 (printf (concat (map tree_line es)) w)"
proof (induction es arbitrary: w)
  case Nil
  show ?case by (simp add: unpack_loop.simps printf_def)
next
  case (Cons ce es)
  then show ?case by (simp add: unpack_loop_item) (simp add: printf_def)
qed


section \<open>A tree that was written can be printed\<close>

lemma tree_entries_refused:
  assumes "ce \<in> set es" "fs w (object_path (ce_sha1 ce) w) = None"
    "tree_entries E es buffer offset w = Ret r w'"
  shows False
  using assms
proof (induction es arbitrary: buffer offset w)
  case (Cons e es)
  obtain n w1 where c: "check_valid_sha1 (ce_sha1 e) w = (n, w1)" by fastforce
  show ?case
  proof (cases "n < 0")
    case True
    with Cons.prems c show ?thesis by simp
  next
    case False
    then have "w1 = w" "fs w (object_path (ce_sha1 e) w) \<noteq> None"
      using c by (auto simp: check_valid_sha1_def sys_defs split: option.splits if_splits)
    with Cons c False show ?thesis
      by (auto simp: Let_def split: option.splits)
  qed
qed simp

lemma write_tree_run:
  assumes "sha1_ok E" "on_disk E es w" "es \<noteq> []" "length es < 50000000" "\<forall>n. malloc_ok E n"
    "\<forall>ce\<in>set es. has_object w ce" "length (tree_body es) < 2 ^ 31"
  shows "\<exists>w1. same_config w w1 \<and> fs w1 = fs w \<and> stdout w1 = stdout w \<and> entries w1 = es \<and>
    write_tree E block sha1 w =
      (case write_sha1_file E (tree_data es) w1 of ((_, s), w2) \<Rightarrow>
         (case strcpy sha1 (s @ drop 20 block) of None \<Rightarrow> Undef | Some sha1' \<Rightarrow> Ret sha1' w2))"
proof -
  obtain w1 where r: "read_cache E w = Ret (int (length es)) w1" "cache_inv w1" "entries w1 = es"
      "fs w1 = fs w" "stdout w1 = stdout w"
    using read_cache_on_disk [OF assms(1,2)] by blast
  have cfg: "same_config w w1" using read_cache_state [OF r(1)] by blast
  have d: "deref_slots (length es) (slots w1) = Some es"
    using cache_inv_deref [OF r(2)] length_entries [OF r(2)] r(3) by simp
  let ?n = "length es * 40 + 400"
  have wf: "\<forall>ce\<in>set es. wf_ce ce \<and> has_object w1 ce"
    using assms(2,6) cfg r(4)
    by (auto simp: on_disk_def has_object_def same_config_def object_path_def sha1_file_directory_def getenv_def)
  obtain b where b: "tree_entries E es (replicate ?n 0) 40 w1 = Ret (b, 40 + length (tree_body es)) w1"
      "40 + length (tree_body es) \<le> length b"
      "take (40 + length (tree_body es)) b = take 40 (replicate ?n 0) @ tree_body es"
    using tree_entries_spec [OF wf assms(5), of 40 "replicate ?n 0"] by auto
  have "take 40 b = take 40 (replicate ?n 0)"
    using arg_cong [OF b(3), of "take 40"] by simp
  then have fin: "tree_finish E block sha1 b (40 + length (tree_body es)) w1 =
    (case write_sha1_file E (tree_data es) w1 of ((_, s), w2) \<Rightarrow>
       (case strcpy sha1 (s @ drop 20 block) of None \<Rightarrow> Undef | Some sha1' \<Rightarrow> Ret sha1' w2))"
    unfolding tree_data_def using b assms(7) by (intro tree_finish_spec) simp_all
  have n: "nat (int (length es) * 40 + 400) = ?n" by simp
  have "write_tree E block sha1 w = tree_finish E block sha1 b (40 + length (tree_body es)) w1"
    using assms(3,4,5) r(1) d b(1) unfolding write_tree_def
    by (simp add: malloc_bytes_def ORIG_OFFSET_def n)
  with fin cfg r(3-5) show ?thesis by auto
qed

lemma write_sha1_file_name:
  assumes "zlib_ok E"
  shows "snd (fst (write_sha1_file E buf w)) = SHA1 E (deflate E [buf])"
proof -
  have "take (deflateBound E (length buf)) (deflate E [buf]) = deflate E [buf]"
    using assms by (simp add: zlib_ok_def)
  then show ?thesis by (simp add: write_sha1_file_def Let_def split: prod.splits)
qed

lemma write_sha1_file_reads:
  assumes "zlib_ok E" "sha1_ok E" "storable E (frame t body) w" "type_ok t" "length body < 2 ^ 64"
    "malloc_ok E (length body)" "write_sha1_file E (frame t body) w = ((r, s), w')"
  shows "read_sha1_file E s w' = Ret (Some (t, body)) w'"
proof -
  obtain st where s: "s = SHA1 E (deflate E [frame t body])"
      "fs w' (object_path s w') = Some (Regular st (deflate E [frame t body]))"
    using write_sha1_file_stores [OF assms(1,3,7)] by blast
  have cfg: "same_config w w'" using write_sha1_file_map_le [OF assms(7)] by blast
  then have nf: "no_fault (object_path s w') w'"
    using assms(3) s(1) object_path_config [OF cfg, of s]
    by (simp add: storable_def Let_def no_fault_def same_config_def)
  have "inflate E (deflate E [frame t body]) = frame t body" "deflate E [frame t body] \<noteq> []"
    using assms(1) by (auto simp: zlib_ok_def)
  then show ?thesis
    using read_sha1_file_stored [OF s(2) _ nf] unpack_frame [OF assms(4,5,6)] by simp
qed


text \<open>
  when the name of the tree contains a zero byte, \<^verbatim>\<open>strcpy\<close> stops there: the caller's
  block gets the bytes up to the first zero only and keeps what it held before behind them, so it
  names the tree only if the rest happened to be there already.
\<close>

theorem write_tree_cut_name:
  fixes E es
  defines "s \<equiv> SHA1 E (deflate E [tree_data es])"
  assumes "sha1_ok E" "zlib_ok E" "\<forall>n. malloc_ok E n" "on_disk E es w" "es \<noteq> []" "length es < 50000000"
    "\<forall>ce\<in>set es. has_object w ce" "length (tree_body es) < 2 ^ 31"
    "has_nul s" "20 \<le> length sha1"
  defines "k \<equiv> Suc (length (cstr s))"
  shows "\<exists>w'. write_tree E block sha1 w = Ret (take k s @ drop k sha1) w' \<and> 
    (take 20 (take k s @ drop k sha1) = s \<longleftrightarrow> take (20 - k) (drop k sha1) = drop k s)"
proof -
  obtain w1 where w1: "write_tree E block sha1 w =
      (case write_sha1_file E (tree_data es) w1 of ((_, s), w2) \<Rightarrow>
         (case strcpy sha1 (s @ drop 20 block) of None \<Rightarrow> Undef | Some sha1' \<Rightarrow> Ret sha1' w2))"
    using write_tree_run [OF assms(2,5,6,7,4,8,9), of block sha1] by blast
  obtain r w2 where w2: "write_sha1_file E (tree_data es) w1 = ((r, s), w2)"
    using write_sha1_file_name [OF assms(3), of "tree_data es" w1] by (metis prod.collapse s_def)
  have len: "length s = 20" "k \<le> 20"
    using assms(2) length_cstr_less [OF assms(10)] by (auto simp: s_def sha1_ok_def k_def)
  have c: "cstr s @ [0] = take k s"
    unfolding k_def cstr_def using assms(10) by (induction s) auto
  have "cstr (s @ drop 20 block) = cstr s"
    unfolding cstr_def using assms(10) by (auto intro: takeWhile_append1)
  then have "strcpy sha1 (s @ drop 20 block) = Some (take k s @ drop k sha1)"
    using assms(10,11) len c by (simp add: strcpy_def poke_def)
  moreover have "take 20 (take k s @ drop k sha1) = s \<longleftrightarrow> take (20 - k) (drop k sha1) = drop k s"
    using len by (simp add: append_eq_conv_conj)
  ultimately show ?thesis using w1 w2 by auto
qed

end
