(* ===== verification/Commit.thy ===== *)
theory Commit
  imports Tree_Object
begin

text \<open>
  The command \<^verbatim>\<open>--commit\<close>: \<^verbatim>\<open>src/commit-tree.c\<close> and \<^verbatim>\<open>src/commit.c\<close>.  The growing buffer is a block of
  memory with its real size, so that a store behind its end is visible.
\<close>

section \<open>The buffer\<close>

definition BLOCKING :: nat where
  "BLOCKING = 2 ^ 14"

definition init_buffer :: "extlib \<Rightarrow> (bytes \<times> u32) option" where
  "init_buffer E =
     (case malloc_bytes E BLOCKING of None \<Rightarrow> None
      | Some buf \<Rightarrow>
        (case poke buf 0 (replicate ORIG_OFFSET 0) of None \<Rightarrow> None
         | Some buf' \<Rightarrow> Some (buf', of_nat ORIG_OFFSET)))"

text \<open>\<^verbatim>\<open>(n + 32767) & ~32767\<close>.\<close>

definition round_32k :: "nat \<Rightarrow> nat" where
  "round_32k n = (n + 32767) div 32768 * 32768"

text \<open>
  \<^verbatim>\<open>add_buffer\<close> with the formatted text \<open>s\<close>: \<^verbatim>\<open>vsnprintf\<close> stores at most 2047 characters and a NUL in
  \<^verbatim>\<open>one_line\<close> but returns the full length, and \<^verbatim>\<open>memcpy\<close> takes that many bytes.
\<close>

definition add_buffer :: "extlib \<Rightarrow> bytes \<times> u32 \<Rightarrow> bytes \<Rightarrow> (bytes \<times> u32) option" where
  "add_buffer E bs s =
     (case bs of (buf, sz) \<Rightarrow>
       let len = length s; one_line = take 2047 s @ [0];
           newsize = unat sz + len; alloc = round_32k (unat sz) in
       if 2048 < len then None
       else
         (case (if alloc < newsize then realloc_bytes E buf (round_32k newsize) else Some buf) of
            None \<Rightarrow> None
          | Some buf' \<Rightarrow>
            map_option (\<lambda>b. (b, of_nat newsize)) (poke buf' (unat sz) (take len one_line))))"

definition finish_buffer :: "bytes \<Rightarrow> bytes \<times> u32 \<Rightarrow> (bytes \<times> u32) option" where
  "finish_buffer tag bs =
     (case bs of (buf, sz) \<Rightarrow>
        (case prepend_integer buf (sz - of_nat ORIG_OFFSET) ORIG_OFFSET of None \<Rightarrow> None
         | Some (b1, off) \<Rightarrow>
           (if off < length tag then None
            else (case poke b1 (off - length tag) tag of None \<Rightarrow> None
              | Some b2 \<Rightarrow> Some (drop (off - length tag) b2, sz - of_nat (off - length tag))))))"

text \<open>\<^verbatim>\<open>remove_special\<close> on a C string: it drops newlines and angle brackets in place.\<close>

fun remove_special :: "bytes \<Rightarrow> bytes" where
  "remove_special [] = []"
| "remove_special (c # p) =
     (if c = 10 \<or> c = 60 \<or> c = 62 then remove_special p else c # remove_special p)"

section \<open>The command\<close>

text \<open>
  What the C library says about the user: \<^verbatim>\<open>getpwuid(getuid())\<close> (\<^verbatim>\<open>pw_name\<close> and \<^verbatim>\<open>pw_gecos\<close>),
  \<^verbatim>\<open>gethostname\<close> and \<^verbatim>\<open>ctime(time())\<close>.
\<close>

record user =
  pw :: "(bytes \<times> bytes) option"
  hostname :: bytes
  ctime_now :: bytes

definition MAXPARENT :: nat where
  "MAXPARENT = 16"

text \<open>The loop over \<^verbatim>\<open>argv[2], argv[4], ...\<close>; \<open>n\<close> names have been stored in \<^verbatim>\<open>parent_sha1\<close>.\<close>

fun parse_parents :: "nat \<Rightarrow> bytes list \<Rightarrow> gitworld \<Rightarrow> (bytes list, gitworld) outcome" where
  "parse_parents n [] w = Ret [] w"
| "parse_parents n (hex # rest) w =
     (if MAXPARENT \<le> n then Undef
      else (case get_sha1_hex hex of None \<Rightarrow> usage (str ''./git --commit <sha1> < changelog'') w
        | Some sha1 \<Rightarrow>
          bindO (case rest of [] \<Rightarrow> Ret [] w | _ # rest' \<Rightarrow> parse_parents (Suc n) rest' w)
            (\<lambda>ps w1. Ret (sha1 # ps) w1)))"

fun add_buffers :: "extlib \<Rightarrow> bytes \<times> u32 \<Rightarrow> bytes list \<Rightarrow> (bytes \<times> u32) option" where
  "add_buffers E bs [] = Some bs"
| "add_buffers E bs (s # ss) =
     (case add_buffer E bs s of None \<Rightarrow> None | Some bs' \<Rightarrow> add_buffers E bs' ss)"

text \<open>\<^verbatim>\<open>fgets(s, n, stdin)\<close>: up to \<open>n - 1\<close> bytes, no further than a newline.\<close>

definition fgets_length :: "nat \<Rightarrow> bytes \<Rightarrow> nat" where
  "fgets_length n xs = min (n - 1) (min (length xs) (length (takeWhile (\<lambda>c. c \<noteq> 10) xs) + 1))"

lemma fgets_progress: "xs \<noteq> [] \<Longrightarrow> length (drop (fgets_length 1000 xs) xs) < length xs"
  by (auto simp: fgets_length_def)

text \<open>The loop that copies the comment.\<close>

function add_comment :: "extlib \<Rightarrow> bytes \<times> u32 \<Rightarrow> bytes \<Rightarrow> (bytes \<times> u32) option" where
  "add_comment E bs input =
     (if input = [] then Some bs
      else (case add_buffer E bs (cstr (take (fgets_length 1000 input) input)) of None \<Rightarrow> None
        | Some bs' \<Rightarrow> add_comment E bs' (drop (fgets_length 1000 input) input)))"
  by auto
termination by (relation "measure (\<lambda>(E, bs, input). length input)") (auto dest: fgets_progress)

declare add_comment.simps [simp del]

text \<open>
  The six calls of \<^verbatim>\<open>remove_special\<close> change the strings in place; doing so again, for a string that two
  names refer to or in a second commit of the same process, changes nothing more.
\<close>

definition committer_strings :: "user \<Rightarrow> bytes \<Rightarrow> bytes \<Rightarrow> gitworld \<Rightarrow> bytes list" where
  "committer_strings u realgecos realemail w =
     (let gecos = (case getenv (str ''COMMITTER_NAME'') w of Some s \<Rightarrow> s | None \<Rightarrow> realgecos);
          email = (case getenv (str ''COMMITTER_EMAIL'') w of Some s \<Rightarrow> s | None \<Rightarrow> realemail);
          date = (case getenv (str ''COMMITTER_DATE'') w of Some s \<Rightarrow> s | None \<Rightarrow> ctime_now u)
      in map remove_special [gecos, email, date, realgecos, realemail, ctime_now u])"

text \<open>The texts of the calls of \<^verbatim>\<open>add_buffer\<close> before the comment.\<close>

definition commit_lines :: "bytes \<Rightarrow> bytes list \<Rightarrow> bytes list \<Rightarrow> bytes list" where
  "commit_lines tree_sha1 parents who =
     (str ''tree '' @ sha1_to_hex tree_sha1 @ newline) #
     map (\<lambda>p. str ''parent '' @ sha1_to_hex p @ newline) parents @
     [str ''author '' @ who ! 0 @ str '' <'' @ who ! 1 @ str ''> '' @ who ! 2 @ newline,
      str ''committer '' @ who ! 3 @ str '' <'' @ who ! 4 @ str ''> '' @ who ! 5 @ newline @ newline]"

text \<open>\<^verbatim>\<open>commit_tree\<close>.  \<^verbatim>\<open>realemail\<close> has 1000 bytes for the user name, an at sign, the host name and a NUL.\<close>

definition commit_tree ::
  "extlib \<Rightarrow> user \<Rightarrow> bytes list \<Rightarrow> bytes \<Rightarrow> gitworld \<Rightarrow> (int, gitworld) outcome" where
  "commit_tree E u argv tree_sha1 w =
     bindO (parse_parents 0 (drop 2 argv) w) (\<lambda>parents w1.
       let w2 = (if parents = []
                 then eprintf (str ''Committing initial tree '' @ sha1_to_hex tree_sha1 @ newline) w1
                 else w1) in
       (case pw u of None \<Rightarrow> usage (str ''You don't exist. Go away!'') w2
        | Some (pw_name, realgecos) \<Rightarrow>
          (let realemail = pw_name @ 64 # hostname u in
           if 1000 < length realemail + 1 then Undef
           else
             (case Option.bind (init_buffer E) (\<lambda>bs0.
                Option.bind (add_buffers E bs0
                    (commit_lines tree_sha1 parents (committer_strings u realgecos realemail w2))) (\<lambda>bs1.
                Option.bind (add_comment E bs1 (stdin w2)) (finish_buffer (str ''commit '')))) of
                None \<Rightarrow> Undef
              | Some (buffer, sz) \<Rightarrow>
                (if length buffer < unat sz then Undef
                 else (case write_sha1_file E (take (unat sz) buffer) (w2\<lparr>stdin := []\<rparr>) of
                         (_, w3) \<Rightarrow> Ret 0 w3))))))"

text \<open>
  \<^verbatim>\<open>commit\<close>: \<open>blocks\<close> are the two blocks of \<^verbatim>\<open>malloc(20)\<close> as the allocator returns them, \<^verbatim>\<open>_sha1\<close> of
  \<^verbatim>\<open>write_tree\<close> and \<^verbatim>\<open>sha1\<close> of \<^verbatim>\<open>commit\<close>.
\<close>

definition commit ::
  "extlib \<Rightarrow> user \<Rightarrow> bytes \<times> bytes \<Rightarrow> bytes list \<Rightarrow> gitworld \<Rightarrow> (unit, gitworld) outcome" where
  "commit E u blocks argv w =
     bindO (write_tree E (fst blocks) (snd blocks) w) (\<lambda>sha1 w1.
       bindO (commit_tree E u argv sha1 w1) (\<lambda>_ w2. Ret () w2))"

section \<open>What the buffer holds\<close>

text \<open>The text collected so far, while the buffer is the block that \<^verbatim>\<open>init_buffer\<close> allocated.\<close>

definition holds :: "bytes \<times> u32 \<Rightarrow> bytes \<Rightarrow> bool" where
  "holds bs tx \<longleftrightarrow> length (fst bs) = BLOCKING \<and> unat (snd bs) = 40 + length tx \<and>
     40 + length tx \<le> BLOCKING \<and> take (length tx) (drop 40 (fst bs)) = tx"

lemma round_32k_small: "0 < n \<Longrightarrow> n \<le> 32768 \<Longrightarrow> round_32k n = 32768"
proof -
  assume n: "0 < n" "n \<le> 32768"
  then have "(n + 32767) div 32768 = 1" by (intro div_nat_eqI) auto
  then show ?thesis by (simp add: round_32k_def)
qed

lemma holds_init: "malloc_ok E BLOCKING \<Longrightarrow> \<exists>bs. init_buffer E = Some bs \<and> holds bs []"
  by (simp add: init_buffer_def malloc_bytes_def poke_def holds_def BLOCKING_def ORIG_OFFSET_def)

lemma add_buffer_holds:
  assumes "holds bs tx" "length s < 2048" "40 + length tx + length s \<le> BLOCKING"
  shows "\<exists>bs'. add_buffer E bs s = Some bs' \<and> holds bs' (tx @ s)"
proof -
  obtain buf sz where bs: "bs = (buf, sz)" by fastforce
  have h: "length buf = 16384" "unat sz = 40 + length tx" "take (length tx) (drop 40 buf) = tx"
    using assms(1) bs by (auto simp: holds_def BLOCKING_def)
  let ?b = "take (unat sz) buf @ s @ drop (unat sz + length s) buf"
  have "\<not> round_32k (unat sz) < unat sz + length s"
    using assms(3) h(2) by (simp add: round_32k_small BLOCKING_def)
  moreover have "take (length s) (take 2047 s @ [0]) = s" using assms(2) by simp
  ultimately have "add_buffer E bs s = Some (?b, of_nat (unat sz + length s))"
    using assms(2,3) h(1,2) bs by (simp add: add_buffer_def Let_def poke_def BLOCKING_def)
  moreover have "unat (of_nat (unat sz + length s) :: u32) = 40 + length (tx @ s)"
    using assms(3) h(2) by (subst unat_of_nat_u32) (simp_all add: BLOCKING_def)
  moreover have "take (length (tx @ s)) (drop 40 ?b) = tx @ s"
    using h assms(3) by (simp add: BLOCKING_def drop_take)
  moreover have "length ?b = 16384" using h assms(3) by (simp add: BLOCKING_def)
  ultimately show ?thesis using assms(3) by (simp add: holds_def BLOCKING_def)
qed

text \<open>
  The block has 16384 bytes, but \<^verbatim>\<open>add_buffer\<close> takes its size for a multiple of 32768: the first text
  that ends between the two is stored behind the end of the block.
\<close>

lemma add_buffer_overflow:
  assumes "holds bs tx" "length s \<le> 2048" "BLOCKING < 40 + length tx + length s"
  shows "add_buffer E bs s = None"
proof -
  obtain buf sz where bs: "bs = (buf, sz)" by fastforce
  have h: "length buf = 16384" "unat sz = 40 + length tx" "40 + length tx \<le> 16384"
    using assms(1) bs by (auto simp: holds_def BLOCKING_def)
  then have "\<not> round_32k (unat sz) < unat sz + length s"
    using assms(2) by (simp add: round_32k_small)
  moreover have "length (take (length s) (take 2047 s @ [0])) = length s" using assms(2) by simp
  ultimately show ?thesis
    using assms(3) h bs by (simp add: add_buffer_def Let_def poke_def BLOCKING_def)
qed


lemma add_buffers_holds:
  assumes "holds bs tx" "\<forall>s\<in>set ss. length s < 2048" "40 + length tx + length (concat ss) \<le> BLOCKING"
  shows "\<exists>bs'. add_buffers E bs ss = Some bs' \<and> holds bs' (tx @ concat ss)"
  using assms
proof (induction ss arbitrary: bs tx)
  case (Cons s ss)
  then obtain bs1 where "add_buffer E bs s = Some bs1" "holds bs1 (tx @ s)"
    using add_buffer_holds [of bs tx s E] by auto
  with Cons.IH [of bs1 "tx @ s"] Cons.prems show ?case by auto
qed simp

lemma fgets_line_bound: "length (take (fgets_length 1000 xs) xs) < 2048"
  by (auto simp: fgets_length_def min_def)

text \<open>The comment: it is copied whole if it fits, otherwise the copy runs out of the block.\<close>

lemma add_comment_holds:
  assumes "holds bs tx" "no_nul input" "40 + length tx + length input \<le> BLOCKING"
  shows "\<exists>bs'. add_comment E bs input = Some bs' \<and> holds bs' (tx @ input)"
  using assms
proof (induction E bs input arbitrary: tx rule: add_comment.induct)
  case (1 E bs input)
  show ?case
  proof (cases "input = []")
    case True
    with 1 show ?thesis by (simp add: add_comment.simps)
  next
    case False
    let ?k = "fgets_length 1000 input"
    let ?line = "take ?k input"
    have nn: "no_nul ?line" "no_nul (drop ?k input)"
      using 1(3) by (auto dest: in_set_takeD in_set_dropD)
    obtain bs1 where b: "add_buffer E bs ?line = Some bs1" "holds bs1 (tx @ ?line)"
      using add_buffer_holds [OF 1(2) fgets_line_bound, of input E] 1(4) by fastforce
    have "40 + length (tx @ ?line) + length (drop ?k input) \<le> BLOCKING" using 1(4) by simp
    then obtain bs' where "add_comment E bs1 (drop ?k input) = Some bs'"
        "holds bs' ((tx @ ?line) @ drop ?k input)"
      using 1(1) [OF False, of bs1 "tx @ ?line"] b nn by auto
    then show ?thesis using False b nn by (simp add: add_comment.simps [of E bs input])
  qed
qed

lemma add_comment_overflow:
  assumes "holds bs tx" "no_nul input" "BLOCKING < 40 + length tx + length input"
  shows "add_comment E bs input = None"
  using assms
proof (induction E bs input arbitrary: tx rule: add_comment.induct)
  case (1 E bs input)
  have ne: "input \<noteq> []" using 1(2,4) by (auto simp: holds_def)
  let ?k = "fgets_length 1000 input"
  let ?line = "take ?k input"
  have nn: "no_nul ?line" "no_nul (drop ?k input)"
    using 1(3) by (auto dest: in_set_takeD in_set_dropD)
  show ?case
  proof (cases "40 + length tx + length ?line \<le> BLOCKING")
    case True
    obtain bs1 where b: "add_buffer E bs ?line = Some bs1" "holds bs1 (tx @ ?line)"
      using add_buffer_holds [OF 1(2) fgets_line_bound, of input E] True by auto
    have "BLOCKING < 40 + length (tx @ ?line) + length (drop ?k input)" using 1(4) by simp
    with 1(1) [OF ne, of bs1 "tx @ ?line"] b nn ne show ?thesis
      by (simp add: add_comment.simps [of E bs input])
  next
    case False
    then have "add_buffer E bs ?line = None"
      using fgets_line_bound [of input] by (intro add_buffer_overflow [OF 1(2)]) simp_all
    with nn ne show ?thesis by (simp add: add_comment.simps [of E bs input])
  qed
qed

lemma finish_buffer_holds:
  assumes "holds bs tx" "length tag \<le> 8"
  shows "\<exists>buf sz. finish_buffer tag bs = Some (buf, sz) \<and> unat sz \<le> length buf \<and>
    take (unat sz) buf = tag @ fmt_dec (length tx) @ 0 # tx"
proof -
  obtain buf sz where bs: "bs = (buf, sz)" by fastforce
  have h: "length buf = 16384" "unat sz = 40 + length tx" "40 + length tx \<le> 16384"
      "take (length tx) (drop 40 buf) = tx"
    using assms(1) bs by (auto simp: holds_def BLOCKING_def)
  define ds where "ds = fmt_dec (length tx)"
  have sz: "sz = of_nat (40 + length tx)" using h(2) by (metis of_nat_unat ucast_id)
  then have v: "unat (sz - 40) = length tx" using h(3) by (simp add: unat_of_nat_u32)
  have ds: "length ds \<le> 10" using length_fmt_dec_u32 [of "sz - 40"] v ds_def by simp
  let ?off = "39 - length ds - length tag"
  let ?b1 = "take (39 - length ds) buf @ ds @ 0 # drop 40 buf"
  let ?b2 = "take ?off buf @ tag @ ds @ 0 # drop 40 buf"
  have p: "prepend_integer buf (sz - 40) 40 = Some (?b1, 39 - length ds)"
    using prepend_integer_spec [of buf "sz - 40"] h(1) v ds_def by simp
  have k: "poke ?b1 ?off tag = Some ?b2"
    using ds assms(2) h(1) by (simp add: poke_def)
  have "unat (sz - of_nat ?off) = 40 + length tx - ?off"
    using h(2) by (subst unat_sub) (simp_all add: word_le_nat_alt unat_of_nat_u32)
  then have u: "unat (sz - of_nat ?off) = length (tag @ ds @ [0]) + length tx"
    using ds assms(2) by simp
  have "drop ?off ?b2 = tag @ ds @ 0 # drop 40 buf" using h(1) by simp
  then have "finish_buffer tag bs = Some (tag @ ds @ 0 # drop 40 buf, sz - of_nat ?off)"
    using bs p k ds assms(2) by (simp add: finish_buffer_def ORIG_OFFSET_def)
  then show ?thesis using u h by (simp add: ds_def)
qed


section \<open>The commit object\<close>

fun every_other :: "'a list \<Rightarrow> 'a list" where
  "every_other [] = []"
| "every_other [x] = [x]"
| "every_other (x # y # zs) = x # every_other zs"

lemma parse_parents_hex:
  "every_other args = map sha1_to_hex ps \<Longrightarrow> \<forall>p\<in>set ps. length p = 20 \<Longrightarrow> n + length ps \<le> MAXPARENT \<Longrightarrow>
   parse_parents n args w = Ret ps w"
proof (induction args arbitrary: n ps rule: every_other.induct)
  case (2 x)
  then show ?case using get_sha1_hex_to_hex [of _ "[]"] by (auto simp: MAXPARENT_def)
next
  case (3 x y zs)
  then obtain p qs where "ps = p # qs" "x = sha1_to_hex p" "every_other zs = map sha1_to_hex qs" by auto
  with 3 show ?case using get_sha1_hex_to_hex [of p "[]"] by auto
qed simp

text \<open>The user's real address, and everything that goes into the object before the comment.\<close>

definition real_email :: "user \<Rightarrow> bytes \<Rightarrow> bytes" where
  "real_email u pw_name = pw_name @ 64 # hostname u"

definition commit_header :: "user \<Rightarrow> bytes \<Rightarrow> bytes list \<Rightarrow> gitworld \<Rightarrow> bytes list" where
  "commit_header u tree_sha1 parents w =
     (case pw u of Some (pw_name, gecos) \<Rightarrow>
        commit_lines tree_sha1 parents (committer_strings u gecos (real_email u pw_name) w) | None \<Rightarrow> [])"

text \<open>The user exists, the address fits and so does every line of the header.\<close>

definition committable :: "extlib \<Rightarrow> user \<Rightarrow> bytes \<Rightarrow> bytes list \<Rightarrow> gitworld \<Rightarrow> bool" where
  "committable E u tree_sha1 parents w \<longleftrightarrow> malloc_ok E BLOCKING \<and>
     (\<exists>pw_name gecos. pw u = Some (pw_name, gecos) \<and> length (real_email u pw_name) < 1000) \<and>
     length parents \<le> MAXPARENT \<and> (\<forall>p\<in>set parents. length p = 20) \<and>
     (\<forall>s\<in>set (commit_header u tree_sha1 parents w). length s < 2048) \<and>
     40 + length (concat (commit_header u tree_sha1 parents w)) \<le> BLOCKING \<and> no_nul (stdin w)"

definition commit_body :: "user \<Rightarrow> bytes \<Rightarrow> bytes list \<Rightarrow> gitworld \<Rightarrow> bytes" where
  "commit_body u tree_sha1 parents w = concat (commit_header u tree_sha1 parents w) @ stdin w"

text \<open>The state in which the object is written.\<close>

definition commit_start :: "bytes \<Rightarrow> bytes list \<Rightarrow> gitworld \<Rightarrow> gitworld" where
  "commit_start tree_sha1 parents w = (if parents = []
     then eprintf (str ''Committing initial tree '' @ sha1_to_hex tree_sha1 @ newline) w else w)\<lparr>stdin := []\<rparr>"

lemma commit_tree_start:
  assumes "committable E u tree_sha1 parents w" "every_other (drop 2 argv) = map sha1_to_hex parents"
  obtains bs where "holds bs (concat (commit_header u tree_sha1 parents w))"
    "commit_tree E u argv tree_sha1 w =
       (case Option.bind (add_comment E bs (stdin w)) (finish_buffer (str ''commit '')) of None \<Rightarrow> Undef
        | Some (buffer, sz) \<Rightarrow>
          (if length buffer < unat sz then Undef
           else (case write_sha1_file E (take (unat sz) buffer) (commit_start tree_sha1 parents w) of
                   (_, w3) \<Rightarrow> Ret 0 w3)))"
proof -
  obtain pw_name gecos where pw: "pw u = Some (pw_name, gecos)" "length (real_email u pw_name) < 1000"
    using assms(1) by (auto simp: committable_def)
  obtain bs0 where 0: "init_buffer E = Some bs0" "holds bs0 []"
    using holds_init [of E] assms(1) by (auto simp: committable_def)
  obtain bs where 1: "add_buffers E bs0 (commit_header u tree_sha1 parents w) = Some bs"
      "holds bs (concat (commit_header u tree_sha1 parents w))"
    using add_buffers_holds [OF 0(2), of "commit_header u tree_sha1 parents w" E] assms(1)
    by (auto simp: committable_def)
  have h: "commit_lines tree_sha1 parents (committer_strings u gecos (real_email u pw_name) v) =
      commit_header u tree_sha1 parents w" if "env v = env w" for v
    using pw that by (simp add: commit_header_def committer_strings_def getenv_def)
  have pp: "parse_parents 0 (drop 2 argv) w = Ret parents w"
    using parse_parents_hex [OF assms(2)] assms(1) by (simp add: committable_def)
  define v where "v = (if parents = []
    then eprintf (str ''Committing initial tree '' @ sha1_to_hex tree_sha1 @ newline) w else w)"
  have v: "env v = env w" "stdin v = stdin w" "commit_start tree_sha1 parents w = v\<lparr>stdin := []\<rparr>"
    by (simp_all add: v_def eprintf_def commit_start_def)
  show thesis
    by (rule that [OF 1(2)], unfold commit_tree_def pp bindO.simps Let_def v_def [symmetric] v(3))
      (use pw 0(1) 1(1) h [OF v(1)] v(2) in \<open>simp add: real_email_def\<close>)
qed

lemma commit_start_same [simp]:
  "same_config w (commit_start t ps w)" "fs (commit_start t ps w) = fs w"
  "stdout (commit_start t ps w) = stdout w"
  by (simp_all add: commit_start_def same_config_def eprintf_def)

lemma type_ok_commit: "type_ok (str ''commit'')"
  by (simp add: type_ok_def is_space_def)

text \<open>
  C30: a commit whose text fits into the first block is stored as a \<^verbatim>\<open>commit\<close> object that
  reads back as the tree line, one parent line for every second argument, the author, the committer,
  an empty line and the whole standard input.
\<close>

theorem commit_tree_object:
  assumes "zlib_ok E" "sha1_ok E" "\<forall>n. malloc_ok E n"
    "committable E u tree_sha1 parents w" "every_other (drop 2 argv) = map sha1_to_hex parents"
    "40 + length (commit_body u tree_sha1 parents w) \<le> BLOCKING"
    "storable E (frame (str ''commit'') (commit_body u tree_sha1 parents w)) w"
  shows "\<exists>w' s. commit_tree E u argv tree_sha1 w = Ret 0 w' \<and> stdout w' = stdout w @ sha1_to_hex s @ newline \<and>
    read_sha1_file E s w' = Ret (Some (str ''commit'', commit_body u tree_sha1 parents w)) w'"
proof -
  let ?body = "commit_body u tree_sha1 parents w" and ?v = "commit_start tree_sha1 parents w"
  obtain bs where bs: "holds bs (concat (commit_header u tree_sha1 parents w))"
    "commit_tree E u argv tree_sha1 w =
       (case Option.bind (add_comment E bs (stdin w)) (finish_buffer (str ''commit '')) of None \<Rightarrow> Undef
        | Some (buffer, sz) \<Rightarrow>
          (if length buffer < unat sz then Undef
           else (case write_sha1_file E (take (unat sz) buffer) ?v of (_, w3) \<Rightarrow> Ret 0 w3)))"
    by (rule commit_tree_start [OF assms(4,5)])
  obtain bs' where c: "add_comment E bs (stdin w) = Some bs'" "holds bs' ?body"
    using add_comment_holds [OF bs(1), of "stdin w" E] assms(4,6)
    by (auto simp: committable_def commit_body_def)
  obtain buf sz where f: "finish_buffer (str ''commit '') bs' = Some (buf, sz)" "unat sz \<le> length buf"
      "take (unat sz) buf = frame (str ''commit'') ?body"
    using finish_buffer_holds [OF c(2), of "str ''commit ''"] by (auto simp: frame_def)
  obtain r s w' where w': "write_sha1_file E (frame (str ''commit'') ?body) ?v = ((r, s), w')"
    by (metis prod.collapse)
  have run: "commit_tree E u argv tree_sha1 w = Ret 0 w'" using bs(2) c(1) f w' by simp
  have st: "storable E (frame (str ''commit'') ?body) ?v"
    using assms(7) storable_cong [of w ?v] by simp
  have "length ?body < 2 ^ 64" using assms(6) by (simp add: BLOCKING_def)
  then have "read_sha1_file E s w' = Ret (Some (str ''commit'', ?body)) w'"
    using write_sha1_file_reads [OF assms(1,2) st type_ok_commit _ _ w'] assms(3) by blast
  with run write_sha1_file_stores [OF assms(1) st w'] show ?thesis by auto
qed

text \<open>
  C37: as soon as the text of a commit is longer than the 16384 bytes of the first block
  less the 40 reserved ones, the comment is copied behind the end of that block.
\<close>

theorem commit_tree_overflow:
  assumes "committable E u tree_sha1 parents w" "every_other (drop 2 argv) = map sha1_to_hex parents"
    "BLOCKING < 40 + length (commit_body u tree_sha1 parents w)"
  shows "commit_tree E u argv tree_sha1 w = Undef"
proof -
  obtain bs where bs: "holds bs (concat (commit_header u tree_sha1 parents w))"
    "commit_tree E u argv tree_sha1 w =
       (case Option.bind (add_comment E bs (stdin w)) (finish_buffer (str ''commit '')) of None \<Rightarrow> Undef
        | Some (buffer, sz) \<Rightarrow>
          (if length buffer < unat sz then Undef
           else (case write_sha1_file E (take (unat sz) buffer) (commit_start tree_sha1 parents w) of
                   (_, w3) \<Rightarrow> Ret 0 w3)))"
    by (rule commit_tree_start [OF assms(1,2)])
  have "add_comment E bs (stdin w) = None"
    using add_comment_overflow [OF bs(1), of "stdin w"] assms(1,3)
    by (simp add: committable_def commit_body_def)
  with bs(2) show ?thesis by simp
qed

end
