(* ===== verification/Init.thy ===== *)
theory Init
  imports Commit
begin

text \<open>The command \<^verbatim>\<open>--init\<close>: \<^verbatim>\<open>src/init-db.c\<close>.\<close>

section \<open>Definitions\<close>

definition dircache_dir :: bytes where
  "dircache_dir = str ''.dircache''"

text \<open>\<^verbatim>\<open>sprintf(path+len, "/%02x", i)\<close>.\<close>

definition fanout_dir :: "bytes \<Rightarrow> nat \<Rightarrow> bytes" where
  "fanout_dir sha1_dir i = sha1_dir @ 47 # fmt_02x i"

text \<open>\<^verbatim>\<open>mkdir\<close> where an existing directory is good enough; any other failure ends the process.\<close>

definition mkdir_or_exit :: "bytes \<Rightarrow> gitworld \<Rightarrow> (unit, gitworld) outcome" where
  "mkdir_or_exit p w =
     (case mkdir p w of (ok, w1) \<Rightarrow>
        if \<not> ok \<and> errno w1 \<noteq> EEXIST then Exit 1 (perror p w1) else Ret () w1)"

fun make_fanout :: "bytes \<Rightarrow> nat list \<Rightarrow> gitworld \<Rightarrow> (unit, gitworld) outcome" where
  "make_fanout sha1_dir [] w = Ret () w"
| "make_fanout sha1_dir (i # is) w =
     bindO (mkdir_or_exit (fanout_dir sha1_dir i) w) (\<lambda>_ w1. make_fanout sha1_dir is w1)"

text \<open>
  \<^verbatim>\<open>init\<close>.  The test \<^verbatim>\<open>!stat(sha1_dir, &st) < 0\<close> compares 0 or 1 with 0: it is never true, and only the
  message and the change of \<^verbatim>\<open>errno\<close> by \<^verbatim>\<open>stat\<close> are left of that branch.
\<close>

definition init :: "gitworld \<Rightarrow> (int, gitworld) outcome" where
  "init w =
     (case mkdir dircache_dir w of (ok, w1) \<Rightarrow>
        if \<not> ok then Exit 1 (perror (str ''unable to create .dircache'') w1)
        else
          (let w2 = (case getenv DB_ENVIRONMENT w1 of None \<Rightarrow> w1
              | Some dir \<Rightarrow>
                (case stat_path dir w1 of (st, w') \<Rightarrow>
                   eprintf (str ''DB_ENVIRONMENT set to bad directory '' @ dir @ str '': '') w'));
             w3 = eprintf (str ''defaulting to private storage area'' @ newline) w2 in
           bindO (mkdir_or_exit DEFAULT_DB_ENVIRONMENT w3) (\<lambda>_ w4.
           bindO (make_fanout DEFAULT_DB_ENVIRONMENT [0..<256] w4) (\<lambda>_ w5. Ret 0 w5))))"

section \<open>A directory for every object\<close>

lemma parent_append: "47 \<notin> set q \<Longrightarrow> parent (p @ 47 # q) = p"
proof -
  assume "47 \<notin> set q"
  then have "dropWhile (\<lambda>c. c \<noteq> 47) (rev q @ 47 # rev p) = 47 # rev p"
    by (subst dropWhile_append2) auto
  then show ?thesis by (simp add: parent_def)
qed

lemma no_slash_digits: "2 \<le> b \<Longrightarrow> b \<le> 16 \<Longrightarrow> 47 \<notin> set (digits b n)"
proof
  assume b: "2 \<le> b" "b \<le> 16" "47 \<in> set (digits b n)"
  then obtain d where "d < b" "47 = digit_char d" using set_digits by blast
  moreover from this b(2) have "d < 16" by simp
  then have "digit_char d \<noteq> 47"
    by (auto simp: digit_char_def word_unat_eq_iff unat_word_ariths unat_of_nat)
  ultimately show False by simp
qed

lemma no_slash_02x: "47 \<notin> set (fmt_02x n)"
  using no_slash_digits [of 16 n] by (simp add: fmt_02x_def Let_def)

text \<open>Directories are never removed, and each call that succeeds leaves its directory behind.\<close>

definition keeps_dirs :: "gitworld \<Rightarrow> gitworld \<Rightarrow> bool" where
  "keeps_dirs w w' \<longleftrightarrow> same_config w w' \<and> (\<forall>p. is_dir w p \<longrightarrow> is_dir w' p) \<and> stdout w' = stdout w \<and>
     active_cache w' = active_cache w \<and> active_nr w' = active_nr w \<and> active_alloc w' = active_alloc w"

lemma keeps_dirs_trans: "keeps_dirs u v \<Longrightarrow> keeps_dirs v w \<Longrightarrow> keeps_dirs u w"
  unfolding keeps_dirs_def by (auto intro: same_config_trans)

lemma mkdir_or_exit_new:
  assumes "fault w SysMkdir p = None" "is_dir w (parent p)" "fs w p = None"
  shows "\<exists>w'. mkdir_or_exit p w = Ret () w' \<and> keeps_dirs w w' \<and> is_dir w' p \<and>
    fs w' = (fs w)(p \<mapsto> Directory (new_stat w p)) \<and> stderr w' = stderr w"
  using assms
  by (simp add: mkdir_or_exit_def sys_defs keeps_dirs_def same_config_def is_dir_def)

lemma make_fanout_new:
  assumes "\<forall>i\<in>set is. fault w SysMkdir (fanout_dir d i) = None" "is_dir w d"
    "\<forall>i\<in>set is. fs w (fanout_dir d i) = None" "distinct (map (fanout_dir d) is)"
  shows "\<exists>w'. make_fanout d is w = Ret () w' \<and> keeps_dirs w w' \<and> (\<forall>i\<in>set is. is_dir w' (fanout_dir d i)) \<and>
    (\<forall>p. p \<notin> fanout_dir d ` set is \<longrightarrow> fs w' p = fs w p) \<and> stderr w' = stderr w"
  using assms
proof (induction "is" arbitrary: w)
  case Nil
  then show ?case by (simp add: keeps_dirs_def)
next
  case (Cons i "is")
  let ?p = "fanout_dir d i"
  have "parent ?p = d" using no_slash_02x by (simp add: fanout_dir_def parent_append)
  then obtain w1 where 1: "mkdir_or_exit ?p w = Ret () w1" "keeps_dirs w w1" "is_dir w1 ?p"
      "fs w1 = (fs w)(?p \<mapsto> Directory (new_stat w ?p))" "stderr w1 = stderr w"
    using mkdir_or_exit_new [of w ?p] Cons.prems by auto
  have ne: "\<forall>j\<in>set is. fanout_dir d j \<noteq> ?p" using Cons.prems(4) by (auto simp: image_iff)
  have "\<exists>w'. make_fanout d is w1 = Ret () w' \<and> keeps_dirs w1 w' \<and> (\<forall>i\<in>set is. is_dir w' (fanout_dir d i)) \<and>
      (\<forall>p. p \<notin> fanout_dir d ` set is \<longrightarrow> fs w' p = fs w1 p) \<and> stderr w' = stderr w1"
    using Cons.prems 1 ne by (intro Cons.IH) (auto simp: keeps_dirs_def same_config_def)
  then obtain w' where 2: "make_fanout d is w1 = Ret () w'" "keeps_dirs w1 w'"
      "\<forall>i\<in>set is. is_dir w' (fanout_dir d i)" "\<forall>p. p \<notin> fanout_dir d ` set is \<longrightarrow> fs w' p = fs w1 p"
      "stderr w' = stderr w1"
    by blast
  have "is_dir w' ?p" using 1(3) 2(2) by (auto simp: keeps_dirs_def)
  with 1 2 keeps_dirs_trans [OF 1(2) 2(2)] show ?case by auto
qed


text \<open>The directory names are the first two digits that \<^verbatim>\<open>sha1_file_name\<close> uses.\<close>

lemma hex_table_digit: "n < 16 \<Longrightarrow> hex_table ! n = digit_char n"
  by (erule less_16_cases) (simp_all add: hex_table_def digit_char_def)

lemma fmt_02x_hex2: "fmt_02x (unat v) = hex2 v"
proof -
  let ?h = "unat (drop_bit 4 v)" and ?l = "unat (v AND 0xf)"
  have h: "?h = unat v div 16" by (simp add: drop_bit_eq_div unat_div)
  have l: "?l = unat v mod 16" unfolding low_nibble_eq by (simp add: take_bit_eq_mod unat_mod)
  have h2: "hex2 v = [digit_char (unat v div 16), digit_char (unat v mod 16)]"
    using hex_table_digit [OF unat_high_nibble, of v] hex_table_digit [OF unat_low_nibble, of v]
    by (simp only: hex2_def h l)
  show ?thesis
  proof (cases "unat v < 16")
    case True
    then have "digits 16 (unat v) = [digit_char (unat v)]" by (simp add: digits.simps)
    then show ?thesis using True h2 by (simp add: fmt_02x_def digit_char_def [of 0])
  next
    case False
    have "unat v div 16 < 16" using unat_high_nibble [of v] h by simp
    then have "digits 16 (unat v) = hex2 v"
      using False h2 by (subst digits.simps) (simp add: digits.simps [of 16 "unat v div 16"])
    then show ?thesis by (simp add: fmt_02x_def)
  qed
qed

lemma fanout_dir_hex2: "i < 256 \<Longrightarrow> fanout_dir d i = d @ 47 # hex2 (of_nat i)"
  using fmt_02x_hex2 [of "of_nat i"] by (simp add: fanout_dir_def unat_of_nat)

lemma hex2_inj: "hex2 u = hex2 v \<Longrightarrow> u = v"
  using get_sha1_hex_loop_hex2 [of "[u]" 1 "[]"] get_sha1_hex_loop_hex2 [of "[v]" 1 "[]"] by simp

lemma distinct_fanout: "distinct (map (fanout_dir d) [0..<256])"
proof -
  have "i = j" if "i < 256" "j < 256" "fanout_dir d i = fanout_dir d j" for i j
  proof -
    have "(of_nat i :: byte) = of_nat j" using that by (simp add: fanout_dir_hex2 hex2_inj)
    then have "unat (of_nat i :: byte) = unat (of_nat j :: byte)" by (rule arg_cong)
    with that(1,2) show ?thesis by (simp add: unat_of_nat)
  qed
  then show ?thesis by (auto simp: distinct_map intro!: inj_onI)
qed

lemma no_slash_hex2: "47 \<notin> set (hex2 v)"
  using no_slash_02x [of "unat v"] fmt_02x_hex2 [of v] by simp

lemma parent_object_path:
  assumes "length sha1 = 20" "no_nul d"
  shows "parent (sha1_file_name d sha1) = fanout_dir d (unat (hd sha1))"
proof -
  have "47 \<notin> set (concat (map hex2 (tl sha1)))" using no_slash_hex2 by auto
  then show ?thesis
    using parent_append [of "concat (map hex2 (tl sha1))" "d @ 47 # hex2 (hd sha1)"] assms
    by (simp add: sha1_file_name_eq fanout_dir_def fmt_02x_hex2)
qed

text \<open>Nothing of a repository is there, and no directory is refused.\<close>

definition creatable :: "gitworld \<Rightarrow> bool" where
  "creatable w \<longleftrightarrow> (\<forall>p. fault w SysMkdir p = None) \<and>
     (\<forall>p. take (length dircache_dir) p = dircache_dir \<longrightarrow> fs w p = None)"

definition init_dirs :: "bytes set" where
  "init_dirs = {dircache_dir, DEFAULT_DB_ENVIRONMENT} \<union> fanout_dir DEFAULT_DB_ENVIRONMENT ` {..<256}"

text \<open>What is printed about \<^verbatim>\<open>SHA1_FILE_DIRECTORY\<close>.\<close>

definition init_messages :: "gitworld \<Rightarrow> bytes" where
  "init_messages w =
     (case getenv DB_ENVIRONMENT w of None \<Rightarrow> []
      | Some dir \<Rightarrow> str ''DB_ENVIRONMENT set to bad directory '' @ dir @ str '': '') @
     str ''defaulting to private storage area'' @ newline"

lemma init_run:
  assumes "creatable w"
  shows "\<exists>w'. init w = Ret 0 w' \<and> keeps_dirs w w' \<and> (\<forall>p\<in>init_dirs. is_dir w' p) \<and>
    (\<forall>p. p \<notin> init_dirs \<longrightarrow> fs w' p = fs w p) \<and> stderr w' = stderr w @ init_messages w"
proof -
  let ?d = "DEFAULT_DB_ENVIRONMENT"
  have none: "fs w dircache_dir = None" "fs w ?d = None" "\<And>i. fs w (fanout_dir ?d i) = None"
    using assms by (simp_all add: creatable_def dircache_dir_def DEFAULT_DB_ENVIRONMENT_def fanout_dir_def)
  have nf: "fault w SysMkdir p = None" for p using assms by (simp add: creatable_def)
  have par: "parent dircache_dir = []" "parent ?d = dircache_dir"
    by (simp_all add: parent_def dircache_dir_def DEFAULT_DB_ENVIRONMENT_def)
  have neq: "?d \<noteq> dircache_dir" "fanout_dir ?d i \<noteq> dircache_dir" "fanout_dir ?d i \<noteq> ?d" for i
    by (simp_all add: dircache_dir_def DEFAULT_DB_ENVIRONMENT_def fanout_dir_def)
  let ?w1 = "w\<lparr>fs := (fs w)(dircache_dir \<mapsto> Directory (new_stat w dircache_dir))\<rparr>"
  have m: "mkdir dircache_dir w = (True, ?w1)"
    using nf none(1) par(1) by (simp add: sys_defs is_dir_def)
  define w3 where "w3 = eprintf (str ''defaulting to private storage area'' @ newline)
    (case getenv DB_ENVIRONMENT ?w1 of None \<Rightarrow> ?w1
     | Some dir \<Rightarrow> (case stat_path dir ?w1 of (st, w') \<Rightarrow>
         eprintf (str ''DB_ENVIRONMENT set to bad directory '' @ dir @ str '': '') w'))"
  have w3: "fs w3 = fs ?w1" "keeps_dirs w w3" "stderr w3 = stderr w @ init_messages w"
    using none(1) by (auto simp: w3_def sys_defs keeps_dirs_def same_config_def eprintf_def is_dir_def
        init_messages_def getenv_def split: option.splits)
  have f3: "fault w3 = fault w" using w3(2) by (simp add: keeps_dirs_def same_config_def)
  obtain w4 where w4: "mkdir_or_exit ?d w3 = Ret () w4" "keeps_dirs w3 w4" "is_dir w4 ?d"
      "fs w4 = (fs w3)(?d \<mapsto> Directory (new_stat w3 ?d))" "stderr w4 = stderr w3"
    using mkdir_or_exit_new [of w3 ?d] nf none(2) par(2) neq(1) w3(1) f3 by (auto simp: is_dir_def)
  have f4: "fault w4 = fault w" using w4(2) f3 by (simp add: keeps_dirs_def same_config_def)
  have "\<forall>i. fs w4 (fanout_dir ?d i) = None" using none(3) neq w3(1) w4(4) by simp
  with make_fanout_new [of "[0..<256]" w4 ?d] obtain w5 where
    w5: "make_fanout ?d [0..<256] w4 = Ret () w5" "keeps_dirs w4 w5"
      "\<forall>i\<in>{..<256}. is_dir w5 (fanout_dir ?d i)"
      "\<forall>p. p \<notin> fanout_dir ?d ` {..<256} \<longrightarrow> fs w5 p = fs w4 p"
      "stderr w5 = stderr w4"
    using nf f4 w4(3) distinct_fanout by (auto simp: atLeast0LessThan)
  have run: "init w = Ret 0 w5"
    unfolding init_def m prod.case Let_def w3_def [symmetric]
    by (simp add: w4(1) w5(1) del: upt_rec_numeral)
  have "is_dir w3 dircache_dir" using w3(1) by (simp add: is_dir_def)
  then have "\<forall>p\<in>init_dirs. is_dir w5 p"
    using w4(2,3) w5(2,3) by (auto simp: init_dirs_def keeps_dirs_def)
  moreover have "\<forall>p. p \<notin> init_dirs \<longrightarrow> fs w5 p = fs w p"
    using w3(1) w4(4) w5(4) by (auto simp: init_dirs_def)
  moreover have "stderr w5 = stderr w @ init_messages w" using w3(3) w4(5) w5(5) by simp
  ultimately show ?thesis
    using run keeps_dirs_trans [OF keeps_dirs_trans [OF w3(2) w4(2)] w5(2)] by blast
qed

lemma no_nul_default [simp]: "no_nul DEFAULT_DB_ENVIRONMENT"
  by (simp add: DEFAULT_DB_ENVIRONMENT_def)

lemma object_parent_init_dir:
  "length sha1 = 20 \<Longrightarrow> parent (sha1_file_name DEFAULT_DB_ENVIRONMENT sha1) \<in> init_dirs"
  using parent_object_path [of sha1 DEFAULT_DB_ENVIRONMENT] by (auto simp: init_dirs_def)

text \<open>
  where no repository exists yet, \<^verbatim>\<open>git --init\<close> succeeds, makes a directory for
  every possible object name in \<^verbatim>\<open>.dircache/objects\<close> and leaves all other files alone.
\<close>

theorem init_makes_object_dirs:
  assumes "creatable w"
  shows "\<exists>w'. init w = Ret 0 w' \<and> same_config w w' \<and>
    (length sha1 = 20 \<longrightarrow> is_dir w' (parent (sha1_file_name DEFAULT_DB_ENVIRONMENT sha1))) \<and>
    (p \<notin> init_dirs \<longrightarrow> fs w' p = fs w p)"
  using init_run [OF assms] object_parent_init_dir [of sha1] by (auto simp: keeps_dirs_def)

text \<open>
  the branch that would accept the directory of \<^verbatim>\<open>SHA1_FILE_DIRECTORY\<close> is dead: a
  process with that variable set, to a directory or not, makes the same private storage area as one
  without it, after a complaint about a bad directory.
\<close>

theorem init_ignores_environment:
  assumes "env w DB_ENVIRONMENT = Some dir" "creatable w"
  shows "\<exists>w'. init w = Ret 0 w' \<and> (\<forall>p\<in>init_dirs. is_dir w' p) \<and>
    stderr w' = stderr w @ str ''DB_ENVIRONMENT set to bad directory '' @ dir @ str '': '' @
      str ''defaulting to private storage area'' @ newline"
  using init_run [OF assms(2)] assms(1) by (auto simp: init_messages_def getenv_def)

text \<open>
  in a directory that has a \<^verbatim>\<open>.dircache\<close> already, \<^verbatim>\<open>git --init\<close> changes no file and
  ends the process with status 1, so \<^verbatim>\<open>main\<close> never prints its message about an existing repository there.
\<close>

theorem init_existing:
  assumes "fs w dircache_dir \<noteq> None"
  shows "\<exists>w'. init w = Exit 1 w' \<and> fs w' = fs w \<and> stdout w' = stdout w"
  using assms by (auto simp: init_def sys_defs out_defs split: option.splits)

end
