(* ===== verification/Command.thy ===== *)
theory Command
  imports Init
begin

text \<open>
  The program itself: \<^verbatim>\<open>main\<close> of \<^verbatim>\<open>src/command.c\<close>, which runs a command for each option that
  \<^verbatim>\<open>getopt_long\<close> finds.  The C library's option scanner, with the permutation of \<^verbatim>\<open>argv\<close> that the
  commands see, is modelled first.
\<close>

section \<open>The option scanner\<close>

text \<open>
  The scanner has looked at \<^verbatim>\<open>argv[0 .. optind-1]\<close>, the list \<open>seen\<close>, in which the non-options that were
  skipped last are those from \<open>first_nonopt\<close> to \<open>last_nonopt - 1\<close>; \<open>todo\<close> is the rest of \<^verbatim>\<open>argv\<close>, and
  \<open>nextchar\<close> what is left of a cluster of short options at its head.
\<close>

record scanner =
  seen :: "bytes list"
  todo :: "bytes list"
  first_nonopt :: nat
  last_nonopt :: nat
  nextchar :: bytes

record long_option =
  opt_name :: bytes
  has_arg :: bool
  val :: byte

definition argv_now :: "scanner \<Rightarrow> bytes list" where
  "argv_now g = seen g @ todo g"

text \<open>The non-options change places with the options found behind them.\<close>

definition exchange :: "scanner \<Rightarrow> scanner" where
  "exchange g = g\<lparr>seen := take (first_nonopt g) (seen g) @ drop (last_nonopt g) (seen g) @
       take (last_nonopt g - first_nonopt g) (drop (first_nonopt g) (seen g)),
     first_nonopt := first_nonopt g + (length (seen g) - last_nonopt g),
     last_nonopt := length (seen g)\<rparr>"

definition is_nonoption :: "bytes \<Rightarrow> bool" where
  "is_nonoption a \<longleftrightarrow> a = [] \<or> hd a \<noteq> 45 \<or> tl a = []"

text \<open>Rearranging and skipping non-options before the next element is looked at.\<close>

definition permute :: "scanner \<Rightarrow> scanner" where
  "permute g =
     (let g1 = (if first_nonopt g \<noteq> last_nonopt g \<and> last_nonopt g \<noteq> length (seen g) then exchange g
                else if last_nonopt g \<noteq> length (seen g) then g\<lparr>first_nonopt := length (seen g)\<rparr>
                else g);
          skipped = takeWhile is_nonoption (todo g1)
      in g1\<lparr>seen := seen g1 @ skipped, todo := dropWhile is_nonoption (todo g1),
            last_nonopt := length (seen g1) + length skipped\<rparr>)"

text \<open>What one call returns: an option character and its argument, or the end with the final \<^verbatim>\<open>optind\<close>.\<close>

datatype scan = Opt byte "bytes option" scanner | Done nat "bytes list"

text \<open>The element at the head of \<open>todo\<close> has been consumed.\<close>

definition advance :: "scanner \<Rightarrow> scanner" where
  "advance g = g\<lparr>seen := seen g @ take 1 (todo g), todo := drop 1 (todo g)\<rparr>"

text \<open>A short option: \<open>nextchar\<close> starts with its character.\<close>

fun short_arg :: "bytes \<Rightarrow> byte \<Rightarrow> bool option" where
  "short_arg [] c = None"
| "short_arg (o' # os) c = (if o' = c then Some (os \<noteq> [] \<and> hd os = 58) else short_arg os c)"

definition short_option :: "bytes \<Rightarrow> scanner \<Rightarrow> scan" where
  "short_option optstring g =
     (let c = hd (nextchar g); rest = tl (nextchar g);
          g1 = (if rest = [] then advance g else g)\<lparr>nextchar := rest\<rparr> in
      case (if c = 58 \<or> c = 59 then None else short_arg optstring c) of
        None \<Rightarrow> Opt 63 None g1
      | Some False \<Rightarrow> Opt c None g1
      | Some True \<Rightarrow>
          (if rest \<noteq> [] then Opt c (Some rest) ((advance g1)\<lparr>nextchar := []\<rparr>)
           else (case todo g1 of [] \<Rightarrow> Opt 63 None g1
                 | a # _ \<Rightarrow> Opt c (Some a) (advance g1))))"

text \<open>A long option: an exact name, or an abbreviation that is not ambiguous.\<close>

definition find_long :: "long_option list \<Rightarrow> bytes \<Rightarrow> long_option option" where
  "find_long opts nm =
     (case filter (\<lambda>o'. opt_name o' = nm) opts of p # _ \<Rightarrow> Some p
      | [] \<Rightarrow> (case filter (\<lambda>o'. take (length nm) (opt_name o') = nm) opts of [] \<Rightarrow> None
               | p # ps \<Rightarrow> (if \<forall>q\<in>set ps. has_arg q = has_arg p \<and> val q = val p then Some p else None)))"

definition long_option_at :: "long_option list \<Rightarrow> scanner \<Rightarrow> scan" where
  "long_option_at opts g =
     (let s = drop 2 (hd (todo g)); nm = takeWhile (\<lambda>c. c \<noteq> 61) s; after = drop (length nm) s;
          g1 = advance g in
      case find_long opts nm of None \<Rightarrow> Opt 63 None g1
      | Some p \<Rightarrow>
        (if after \<noteq> [] then (if has_arg p then Opt (val p) (Some (tl after)) g1 else Opt 63 None g1)
         else if has_arg p then
           (case todo g1 of [] \<Rightarrow> Opt 63 None g1 | a # _ \<Rightarrow> Opt (val p) (Some a) (advance g1))
         else Opt (val p) None g1))"

definition getopt_long :: "bytes \<Rightarrow> long_option list \<Rightarrow> scanner \<Rightarrow> scan" where
  "getopt_long optstring opts g0 =
     (if nextchar g0 \<noteq> [] then short_option optstring g0
      else
        (let g = permute g0 in
         case todo g of
           [] \<Rightarrow> Done (if first_nonopt g \<noteq> last_nonopt g then first_nonopt g else length (seen g)) (argv_now g)
         | a # rest \<Rightarrow>
           (if a = str ''--'' then
              (let g1 = advance g;
                   g2 = (if first_nonopt g1 \<noteq> last_nonopt g1 \<and> last_nonopt g1 \<noteq> length (seen g1)
                         then exchange g1
                         else if first_nonopt g1 = last_nonopt g1
                         then g1\<lparr>first_nonopt := length (seen g1)\<rparr> else g1);
                   argc = length (argv_now g2) in
               Done (if first_nonopt g2 \<noteq> argc then first_nonopt g2 else argc) (argv_now g2))
            else if take 2 a = str ''--'' then long_option_at opts g
            else short_option optstring (g\<lparr>nextchar := tl a\<rparr>))))"

section \<open>The program\<close>

text \<open>What the C library, the allocator and the shell contribute to a run.\<close>

record platform =
  p_ext :: extlib
  p_noret :: noret
  p_shell :: shell
  p_user :: user
  p_tmp :: "gitworld \<Rightarrow> bytes"
  p_blocks :: "gitworld \<Rightarrow> bytes \<times> bytes"

definition opts :: "long_option list" where
  "opts =
     [\<lparr>opt_name = str ''init'', has_arg = False, val = of_char CHR ''i''\<rparr>,
      \<lparr>opt_name = str ''status'', has_arg = True, val = of_char CHR ''s''\<rparr>,
      \<lparr>opt_name = str ''diff'', has_arg = False, val = of_char CHR ''d''\<rparr>,
      \<lparr>opt_name = str ''add'', has_arg = True, val = of_char CHR ''a''\<rparr>,
      \<lparr>opt_name = str ''commit'', has_arg = False, val = of_char CHR ''c''\<rparr>,
      \<lparr>opt_name = str ''reset'', has_arg = False, val = of_char CHR ''r''\<rparr>,
      \<lparr>opt_name = str ''rm'', has_arg = True, val = of_char CHR ''m''\<rparr>,
      \<lparr>opt_name = str ''cat-file'', has_arg = True, val = of_char CHR ''f''\<rparr>,
      \<lparr>opt_name = str ''read-tree'', has_arg = True, val = of_char CHR ''e''\<rparr>]"

definition optstring :: bytes where
  "optstring = str ''is:da:c:rm:f:e:''"

definition usage_text :: bytes where
  "usage_text = str ''Usage : '' @ newline @ str ''--init : init a git repository'' @ newline @
     str ''--status : current status of git repository'' @ newline @
     str ''--add : add file to cache'' @ newline @
     str ''--commit : commit cache into commit history'' @ newline @
     str ''--reset : reset commit'' @ newline @
     str ''--rm : remove file from cache'' @ newline"

text \<open>
  The \<^verbatim>\<open>switch\<close>: \<open>True\<close> when the loop goes on, \<open>False\<close> for the \<^verbatim>\<open>return 1\<close> after the usage text, into
  which the case of \<^verbatim>\<open>read_tree\<close> falls through.  The results of the commands are dropped.
\<close>

definition run_option ::
  "platform \<Rightarrow> byte \<Rightarrow> bytes option \<Rightarrow> bytes list \<Rightarrow> gitworld \<Rightarrow> (bool, gitworld) outcome" where
  "run_option P c optarg argv w =
     (let E = p_ext P; arg = (case optarg of Some a \<Rightarrow> a | None \<Rightarrow> str ''(null)'') in
      if c = of_char CHR ''i'' then
        bindO (init w) (\<lambda>_ w1.
          Ret True (printf (str ''Reinitialized existing Git repository!'' @ newline) w1))
      else if c = of_char CHR ''s'' then
        bindO (status E argv w) (\<lambda>_ w1. Ret True (printf (str ''On branch master'' @ newline) w1))
      else if c = of_char CHR ''a'' then
        bindO (update_cache E (p_noret P) argv w) (\<lambda>_ w1.
          Ret True (printf (arg @ str '' is added to cache!'' @ newline) w1))
      else if c = of_char CHR ''d'' then
        bindO (show_diff E (p_shell P) w) (\<lambda>_ w1. Ret True w1)
      else if c = of_char CHR ''c'' then
        bindO (commit E (p_user P) (p_blocks P w) argv w) (\<lambda>_ w1.
          Ret True (printf (str ''Completed to commmit!'' @ newline) w1))
      else if c = of_char CHR ''r'' then Ret True (printf (str ''Completed to Reset!'' @ newline) w)
      else if c = of_char CHR ''m'' then
        bindO (remove_function E argv w) (\<lambda>_ w1.
          Ret True (printf (arg @ str '' has been removed!'' @ newline) w1))
      else if c = of_char CHR ''f'' then
        bindO (cat_file E (p_tmp P w) argv w) (\<lambda>_ w1. Ret True w1)
      else if c = of_char CHR ''e'' then
        bindO (read_tree E argv w) (\<lambda>_ w1. Ret False (printf usage_text w1))
      else if c = of_char CHR ''?'' then Ret False (printf usage_text w)
      else Ret True w)"

text \<open>Each option the scanner returns leaves less to scan, which bounds the loop of \<^verbatim>\<open>main\<close>.\<close>

definition scan_left :: "scanner \<Rightarrow> nat" where
  "scan_left g = (if nextchar g = [] then sum_list (map (\<lambda>a. length a + 1) (todo g))
     else length (nextchar g) + sum_list (map (\<lambda>a. length a + 1) (drop 1 (todo g))))"

lemma short_option_progress:
  assumes "short_option os g = Opt c a g'" "nextchar g \<noteq> []"
  shows "scan_left g' < scan_left g"
  using assms
  by (cases "nextchar g"; cases "todo g"; cases "tl (todo g)")
    (auto simp: short_option_def Let_def scan_left_def advance_def split: option.splits if_splits bool.splits list.splits)

lemma permute_left: "nextchar g = [] \<Longrightarrow>
  nextchar (permute g) = [] \<and> sum_list (map (\<lambda>a. length a + 1) (todo (permute g))) \<le> scan_left g"
proof -
  assume n: "nextchar g = []"
  have "sum_list (map (\<lambda>a. length a + 1) (dropWhile is_nonoption xs)) \<le>
      sum_list (map (\<lambda>a. length a + 1) xs)" for xs :: "bytes list"
    by (induction xs) auto
  with n show ?thesis by (auto simp: permute_def exchange_def Let_def scan_left_def)
qed

lemma permute_head: "todo (permute g) = a # rest \<Longrightarrow> a \<noteq> [] \<and> tl a \<noteq> []"
proof -
  assume t: "todo (permute g) = a # rest"
  then have "\<not> is_nonoption a"
    by (auto simp: permute_def exchange_def Let_def dropWhile_eq_Cons_conv split: if_splits)
  then show ?thesis by (auto simp: is_nonoption_def)
qed

lemma long_option_progress:
  assumes "long_option_at os g = Opt c a g'" "todo g = b # rest" "nextchar g = []"
  shows "scan_left g' < sum_list (map (\<lambda>a. length a + 1) (todo g))"
  using assms
  by (cases rest) (auto simp: long_option_at_def Let_def scan_left_def advance_def
      split: option.splits if_splits list.splits)

lemma getopt_long_progress:
  assumes "getopt_long os ls g = Opt c a g'"
  shows "scan_left g' < scan_left g"
proof (cases "nextchar g = []")
  case False
  with assms show ?thesis by (auto simp: getopt_long_def intro: short_option_progress)
next
  case True
  note p = permute_left [OF True]
  obtain b rest where t: "todo (permute g) = b # rest"
    using assms True by (cases "todo (permute g)") (auto simp: getopt_long_def Let_def)
  note h = permute_head [OF t]
  show ?thesis
  proof (cases "take 2 b = str ''--''")
    case True
    with assms \<open>nextchar g = []\<close> t have "long_option_at ls (permute g) = Opt c a g'"
      by (auto simp: getopt_long_def Let_def split: if_splits)
    from long_option_progress [OF this t] p show ?thesis by simp
  next
    case False
    have ne: "b \<noteq> str ''--''" using False by auto
    let ?g = "permute g\<lparr>nextchar := tl b\<rparr>"
    have "short_option os ?g = Opt c a g'"
      using assms \<open>nextchar g = []\<close> t False ne by (simp add: getopt_long_def Let_def del: str_Cons)
    then have "scan_left g' < scan_left ?g" using h by (intro short_option_progress) auto
    moreover have "scan_left ?g < sum_list (map (\<lambda>a. length a + 1) (todo (permute g)))"
      using h t by (simp add: scan_left_def)
    ultimately show ?thesis using p by simp
  qed
qed

function main_loop :: "platform \<Rightarrow> scanner \<Rightarrow> gitworld \<Rightarrow> (int, gitworld) outcome" where
  "main_loop P g w =
     (case getopt_long optstring opts g of
        Done optind argv \<Rightarrow>
          Ret 0 (printf (concat (map (\<lambda>a. str ''Non-option argument '' @ a @ newline) (drop optind argv))) w)
      | Opt c optarg g' \<Rightarrow>
          bindO (run_option P c optarg (argv_now g') w) (\<lambda>goes_on w1.
            if goes_on then main_loop P g' w1 else Ret 1 w1))"
  by pat_completeness auto
termination
  by (relation "measure (\<lambda>(P, g, w). scan_left g)") (auto dest: getopt_long_progress)

declare main_loop.simps [simp del]

definition scanner_start :: "bytes list \<Rightarrow> scanner" where
  "scanner_start argv = \<lparr>seen = take 1 argv, todo = drop 1 argv, first_nonopt = 1, last_nonopt = 1, nextchar = []\<rparr>"

definition main :: "platform \<Rightarrow> bytes list \<Rightarrow> gitworld \<Rightarrow> (int, gitworld) outcome" where
  "main P argv w = main_loop P (scanner_start argv) w"

end
