(* ===== verification/Session.thy ===== *)
theory Session
  imports Command
begin

text \<open>
  Sequences of runs of the program on one directory, and what every run keeps: an object that was
  written is never changed or removed again, and the index file only ever changes to the complete
  encoding of a list of entries.
\<close>

section \<open>Relations that every step of a run respects\<close>

definition leads_to :: "('w \<Rightarrow> 'w \<Rightarrow> bool) \<Rightarrow> 'w \<Rightarrow> ('a, 'w) outcome \<Rightarrow> bool" where
  "leads_to R w out \<longleftrightarrow> (\<forall>w'. outcome_world out = Some w' \<longrightarrow> R w w')"

lemma leads_to_simps [simp]:
  "leads_to R w (Ret a w') \<longleftrightarrow> R w w'" "leads_to R w (Exit n w') \<longleftrightarrow> R w w'" "leads_to R w Undef"
  by (simp_all add: leads_to_def)

locale run_relation =
  fixes R :: "'w \<Rightarrow> 'w \<Rightarrow> bool"
  assumes R_refl [simp]: "R w w" and R_trans: "R u v \<Longrightarrow> R v w \<Longrightarrow> R u w"
begin

lemma leads_to_bindO:
  assumes "leads_to R w m" "\<And>a w1. m = Ret a w1 \<Longrightarrow> leads_to R w1 (f a w1)"
  shows "leads_to R w (bindO m f)"
  using assms by (cases m) (auto simp: leads_to_def intro: R_trans)

lemma leads_to_step: "R w v \<Longrightarrow> leads_to R v out \<Longrightarrow> leads_to R w out"
  by (auto simp: leads_to_def intro: R_trans)

end

text \<open>The relation: nothing but new files, the lock and complete index files.\<close>

definition safe_change :: "extlib \<Rightarrow> gitworld \<Rightarrow> gitworld \<Rightarrow> bool" where
  "safe_change E w w' \<longleftrightarrow> (env_ok w \<longrightarrow> same_config w w' \<and>
     (\<forall>p. fs w' p \<noteq> fs w p \<longrightarrow> fs w p = None \<and> p \<noteq> index_path \<or> p = index_lock \<or>
        p = index_path \<and> (\<exists>st es. fs w' p = Some (Regular st (index_bytes E es)))))"

lemma env_ok_config: "same_config w w' \<Longrightarrow> env_ok w' = env_ok w"
  by (simp add: env_ok_def same_config_def sha1_file_directory_def getenv_def)

lemma safe_change_trans: "safe_change E u v \<Longrightarrow> safe_change E v w \<Longrightarrow> safe_change E u w"
  unfolding safe_change_def
proof (intro impI conjI allI)
  assume uv: "env_ok u \<longrightarrow> same_config u v \<and> (\<forall>p. fs v p \<noteq> fs u p \<longrightarrow>
      fs u p = None \<and> p \<noteq> index_path \<or> p = index_lock \<or>
      p = index_path \<and> (\<exists>st es. fs v p = Some (Regular st (index_bytes E es))))"
    and vw: "env_ok v \<longrightarrow> same_config v w \<and> (\<forall>p. fs w p \<noteq> fs v p \<longrightarrow>
      fs v p = None \<and> p \<noteq> index_path \<or> p = index_lock \<or>
      p = index_path \<and> (\<exists>st es. fs w p = Some (Regular st (index_bytes E es))))"
    and ok: "env_ok u"
  then have v: "env_ok v" using env_ok_config by blast
  show "same_config u w" using uv vw ok v same_config_trans by blast
  fix p assume "fs w p \<noteq> fs u p"
  then show "fs u p = None \<and> p \<noteq> index_path \<or> p = index_lock \<or>
      p = index_path \<and> (\<exists>st es. fs w p = Some (Regular st (index_bytes E es)))"
  proof -
    have "fs v p \<noteq> fs u p \<longrightarrow> fs u p = None \<and> p \<noteq> index_path \<or> p = index_lock \<or>
        p = index_path \<and> (\<exists>st es. fs v p = Some (Regular st (index_bytes E es)))"
      "fs w p \<noteq> fs v p \<longrightarrow> fs v p = None \<and> p \<noteq> index_path \<or> p = index_lock \<or>
        p = index_path \<and> (\<exists>st es. fs w p = Some (Regular st (index_bytes E es)))"
      using uv vw ok v by blast+
    with \<open>fs w p \<noteq> fs u p\<close> show ?thesis by (cases "fs v p = fs u p"; cases "fs w p = fs v p") auto
  qed
qed

interpretation safe: run_relation "safe_change E" for E
proof
  show "safe_change E w w" for w by (simp add: safe_change_def)
  show "safe_change E u v \<Longrightarrow> safe_change E v w \<Longrightarrow> safe_change E u w" for u v w
    by (rule safe_change_trans)
qed

abbreviation safely :: "extlib \<Rightarrow> gitworld \<Rightarrow> ('a, gitworld) outcome \<Rightarrow> bool" where
  "safely E \<equiv> leads_to (safe_change E)"

lemma safe_same_fs: "same_config w w' \<Longrightarrow> fs w' = fs w \<Longrightarrow> safe_change E w w'"
  by (simp add: safe_change_def)

lemma safe_out [simp]:
  "safe_change E w (printf s w)" "safe_change E w (eprintf s w)" "safe_change E w (perror s w)"
  by (simp_all add: safe_same_fs out_defs same_config_def)

lemma safe_new:
  "same_config w w' \<Longrightarrow> fs w' = (fs w)(p \<mapsto> i) \<Longrightarrow> fs w p = None \<Longrightarrow> p \<noteq> index_path \<Longrightarrow> safe_change E w w'"
  by (auto simp: safe_change_def)

lemma safe_new_file:
  assumes "same_config w w'" "\<forall>p. p \<noteq> q \<longrightarrow> fs w' p = fs w p" "fs w q = None" "q \<noteq> index_path"
  shows "safe_change E w w'"
proof -
  have "p = q" if "fs w' p \<noteq> fs w p" for p using assms(2) that by blast
  with assms show ?thesis unfolding safe_change_def by metis
qed

lemma safe_adds: "adds_objects w w' \<Longrightarrow> safe_change E w w'"
  using adds_objects_diff [of w w'] index_not_object [of w]
  by (auto simp: safe_change_def adds_objects_def)

section \<open>Every command\<close>

lemma safely_usage [simp]: "safely E w (usage m w)"
  by (simp add: usage_def)

lemma safely_read_cache: "safely E w (read_cache E w)"
  using read_cache_state [of E w] read_cache_no_Exit [of E w]
  by (cases "read_cache E w") (auto intro: safe_same_fs)

lemma read_sha1_file_state:
  "read_sha1_file E s w = Ret r w' \<Longrightarrow> same_config w w' \<and> fs w' = fs w"
  by (auto simp: read_sha1_file_def unpack_object_def sys_defs out_defs Let_def same_config_def
      split: option.splits if_splits inode.splits)

lemma safely_read_sha1_file: "safely E w (read_sha1_file E s w)"
proof -
  have "read_sha1_file E s w \<noteq> Exit n w'" for n w'
    by (auto simp: read_sha1_file_def unpack_object_def Let_def split: prod.splits option.splits)
  then show ?thesis
    using read_sha1_file_state [of E s w] by (cases "read_sha1_file E s w") (auto intro: safe_same_fs)
qed

lemma safely_show_diff: "safely E w (show_diff E run w)"
proof -
  have entry: "safely E w (show_entry E run ce w)" for ce w
  proof (cases "stat_path (cstr (name ce)) w")
    case (Pair st w1)
    then have "same_config w w1" "fs w1 = fs w"
      by (auto simp: sys_defs same_config_def split: option.splits)
    then have 1: "safe_change E w (printf m w1)" for m
      by (intro safe_same_fs) (simp_all add: printf_def same_config_def)
    have 2: "safely E w (bindO (read_sha1_file E s (printf m w1)) f)"
      if "\<And>r v. safely E v (f r v)" for s m f
      by (rule safe.leads_to_step [OF 1 [of m]], rule safe.leads_to_bindO)
        (rule safely_read_sha1_file, rule that)
    show ?thesis
      unfolding show_entry_def Pair
      by (auto simp: show_differences_def 1 intro!: 2 split: option.splits)
  qed
  have entries: "safely E w (show_entries E run es w)" for es w
    by (induction es arbitrary: w) (auto intro: safe.leads_to_bindO entry)
  show ?thesis
    unfolding show_diff_def
    by (rule safe.leads_to_bindO [OF safely_read_cache]) (auto intro: entries split: option.splits)
qed

lemma safely_status: "safely E w (status E argv w)"
  unfolding status_def Let_def
  by (rule safe.leads_to_step [OF safe_out(1)], rule safe.leads_to_bindO [OF safely_read_cache])
    (auto split: option.splits)

lemma remove_at_state: "remove_at pos w = Ret u w' \<Longrightarrow> same_config w w' \<and> fs w' = fs w"
  by (auto simp: remove_at_def same_config_def split: if_splits option.splits)

lemma safely_remove_function: "safely E w (remove_function E argv w)"
proof -
  have at: "safely E w (remove_at pos w)" for pos w
  proof -
    have "remove_at pos w \<noteq> Exit n w'" for n w'
      by (auto simp: remove_at_def split: option.splits)
    then show ?thesis
      using remove_at_state [of pos w] by (cases "remove_at pos w") (auto intro: safe_same_fs)
  qed
  have pos: "safely E w (rm_cache_name_pos E nm w)" for nm
    unfolding rm_cache_name_pos_def
    by (rule safe.leads_to_bindO [OF safely_read_cache]) (auto split: option.splits)
  have rm: "safely E w (rm_remove_file_from_cache E path w)" for path
    unfolding rm_remove_file_from_cache_def
    by (rule safe.leads_to_bindO [OF pos]) (rule safe.leads_to_step [OF safe_out(1) at])
  show ?thesis
    unfolding remove_function_def
    by (auto intro!: safe.leads_to_bindO [OF rm] split: option.splits)
qed

lemma safely_update_cache:
  assumes "sha1_ok E"
  shows "safely E w (update_cache E noret argv w)"
proof (cases "update_cache E noret argv w")
  case (Ret r w')
  have "safe_change E w w'"
    unfolding safe_change_def
  proof (intro impI conjI allI)
    fix p assume "env_ok w" "fs w' p \<noteq> fs w p"
    with update_cache_changes [OF assms _ Ret, of p] index_not_object(1) [of w]
    show "fs w p = None \<and> p \<noteq> index_path \<or> p = index_lock \<or>
        p = index_path \<and> (\<exists>st es. fs w' p = Some (Regular st (index_bytes E es)))" by auto
  qed (rule update_cache_config [OF assms Ret])
  with Ret show ?thesis by simp
qed (use update_cache_no_Exit in auto)

lemma safe_write_sha1_file:
  assumes "sha1_ok E" "write_sha1_file E buf w = (r, w')"
  shows "safe_change E w w'"
proof -
  let ?c = "take (deflateBound E (length buf)) (deflate E [buf])"
  obtain q w1 where q: "write_sha1_buffer (SHA1 E ?c) ?c w = (q, w1)" by fastforce
  have 1: "safe_change E w w1"
    using write_sha1_buffer_adds [OF q] assms(1) by (intro safe_adds) (simp add: sha1_ok_def)
  have "w' = w1 \<or> (\<exists>m. w' = printf m w1)"
    using assms(2) q by (auto simp: write_sha1_file_def Let_def split: if_splits)
  then show ?thesis using 1 safe.R_trans [OF 1 safe_out(1)] by auto
qed

lemma check_valid_sha1_safe: "check_valid_sha1 s w = (r, w') \<Longrightarrow> safe_change E w w'"
  by (auto simp: check_valid_sha1_def sys_defs out_defs same_config_def intro!: safe_same_fs
      split: option.splits if_splits)

lemma safely_write_tree:
  assumes "sha1_ok E"
  shows "safely E w (write_tree E block sha1 w)"
proof -
  have entries: "safely E w (tree_entries E es b off w)" for es b off w
  proof (induction es arbitrary: b off w)
    case (Cons ce es)
    obtain r w1 where c: "check_valid_sha1 (ce_sha1 ce) w = (r, w1)" by fastforce
    note s = check_valid_sha1_safe [OF c, of E]
    show ?case
      using s by (auto simp: c Let_def intro: safe.leads_to_step [OF s Cons.IH] split: option.splits)
  qed simp
  have finish: "safely E w (tree_finish E block sha1 b off w)" for b off w
    unfolding tree_finish_def
    by (auto intro: safe_write_sha1_file [OF assms] split: option.splits prod.splits)
  show ?thesis
    unfolding write_tree_def
    by (rule safe.leads_to_bindO [OF safely_read_cache])
      (auto intro!: safe.leads_to_bindO [OF entries] finish split: option.splits prod.splits)
qed

lemma safely_parse_parents: "safely E w (parse_parents n ps w)"
proof (induction n ps w rule: parse_parents.induct)
  case (2 n hex rest w)
  show ?case
  proof (cases "MAXPARENT \<le> n \<or> get_sha1_hex hex = None")
    case True
    then show ?thesis by (auto split: option.splits)
  next
    case False
    then obtain s where s: "get_sha1_hex hex = Some s" "\<not> MAXPARENT \<le> n" by auto
    have "safely E w (case rest of [] \<Rightarrow> Ret [] w | _ # rest' \<Rightarrow> parse_parents (Suc n) rest' w)"
      using 2 s by (cases rest) auto
    then show ?thesis using s by (auto intro: safe.leads_to_bindO)
  qed
qed simp

lemma safely_commit:
  assumes "sha1_ok E"
  shows "safely E w (commit E u blocks argv w)"
proof -
  have tree: "safely E w (commit_tree E u argv t w)" for t w
  proof -
    have k: "safely E v (case pw u of None \<Rightarrow> usage m v
        | Some (n, g) \<Rightarrow> (let e = n @ 64 # hostname u in if 1000 < length e + 1 then Undef
           else (case F n g e v of None \<Rightarrow> Undef | Some (b, sz) \<Rightarrow>
             (if length b < unat sz then Undef
              else (case write_sha1_file E (take (unat sz) b) (v\<lparr>stdin := []\<rparr>) of (_, w3) \<Rightarrow> Ret 0 w3)))))"
      for v m F
    proof -
      have "safe_change E v (v\<lparr>stdin := []\<rparr>)" by (intro safe_same_fs) (simp_all add: same_config_def)
      then show ?thesis
        by (auto simp: Let_def intro: safe.R_trans safe_write_sha1_file [OF assms] split: option.splits prod.splits)
    qed
    show ?thesis
      unfolding commit_tree_def Let_def [of "if _ then _ else _"]
      by (rule safe.leads_to_bindO [OF safely_parse_parents])
        (rule safe.leads_to_step [OF _ k], simp)
  qed
  show ?thesis
    unfolding commit_def
    by (intro safe.leads_to_bindO safely_write_tree assms tree) simp
qed

lemma safely_read_tree: "safely E w (read_tree E argv w)"
proof -
  have loop: "safely E w (unpack_loop b w)" for b w
  proof (induction "length b" arbitrary: b w rule: less_induct)
    case less
    have "safely E w (unpack_loop (drop (length (cstr b) + 1 + 20) b) (printf m w))" if "b \<noteq> []" for m
      by (rule safe.leads_to_step [OF safe_out(1)], rule less) (use that in simp)
    then show ?case
      unfolding unpack_loop.simps [of b w] Let_def by (simp del: str_Cons split: option.splits)
  qed
  have "safely E w (unpack E s w)" for s
    unfolding unpack_def
    by (rule safe.leads_to_bindO [OF safely_read_sha1_file]) (auto intro: loop split: option.splits)
  then show ?thesis
    unfolding read_tree_def by (auto intro!: safe.leads_to_bindO split: option.splits)
qed


lemma safe_sys_create:
  assumes "sys_create op node p w = (ok, w')" "p \<noteq> index_path"
  shows "safe_change E w w' \<and> (ok \<longrightarrow> fs w p = None \<and> fs w' = (fs w)(p \<mapsto> node (new_stat w p)) \<and> same_config w w')"
proof (cases ok)
  case True
  then show ?thesis
    using assms by (auto simp: sys_create_def fail_def same_config_def
        intro!: safe_new [where p = p and i = "node (new_stat w p)"] split: option.splits if_splits)
next
  case False
  then show ?thesis
    using assms by (auto simp: sys_create_def fail_def same_config_def intro!: safe_same_fs
        split: option.splits if_splits)
qed

lemma safely_init: "safely E w (init w)"
proof -
  have neq: "dircache_dir \<noteq> index_path" "DEFAULT_DB_ENVIRONMENT \<noteq> index_path"
    "fanout_dir DEFAULT_DB_ENVIRONMENT i \<noteq> index_path" for i
    by (simp_all add: dircache_dir_def DEFAULT_DB_ENVIRONMENT_def fanout_dir_def index_path_def)
  have mk: "safely E w (mkdir_or_exit p w)" if "p \<noteq> index_path" for p w
  proof (cases "mkdir p w")
    case (Pair ok w1)
    then have "safe_change E w w1" using safe_sys_create [OF _ that] by (simp add: mkdir_def)
    then show ?thesis by (auto simp: mkdir_or_exit_def Pair intro: safe.R_trans)
  qed
  have fan: "safely E w (make_fanout DEFAULT_DB_ENVIRONMENT is w)" for "is" w
    by (induction "is" arbitrary: w) (auto intro!: safe.leads_to_bindO mk neq)
  obtain ok w1 where m: "mkdir dircache_dir w = (ok, w1)" by fastforce
  then have 1: "safe_change E w w1" using safe_sys_create [OF _ neq(1)] by (simp add: mkdir_def)
  have 2: "safe_change E w1 (eprintf x (case getenv DB_ENVIRONMENT w1 of None \<Rightarrow> w1
      | Some dir \<Rightarrow> (case stat_path dir w1 of (st, w') \<Rightarrow> eprintf (y dir) w')))" for x y
    by (intro safe_same_fs)
      (auto simp: sys_defs same_config_def eprintf_def split: option.splits)
  show ?thesis
    unfolding init_def m prod.case Let_def
    using 1 safe.R_trans [OF 1 safe_out(3)]
    by (auto intro!: safe.leads_to_step [OF safe.R_trans [OF 1 2]] safe.leads_to_bindO mk fan neq)
qed

text \<open>The name that \<^verbatim>\<open>mkstemp\<close> makes from its template.\<close>

definition platform_ok :: "platform \<Rightarrow> bool" where
  "platform_ok P \<longleftrightarrow> sha1_ok (p_ext P) \<and>
     (\<forall>w. take 14 (p_tmp P w) = str ''temp_git_file_'')"

lemma safely_cat_file:
  assumes "tmp \<noteq> index_path"
  shows "safely E w (cat_file E tmp argv w)"
proof -
  have out: "safely E v (case mkstemp tmp v of (ok, w2) \<Rightarrow> if \<not> ok then usage m w2
      else (case write_fd tmp buf w2 of (n, w3) \<Rightarrow> Ret () (printf (f n) w3)))" for v m buf f
  proof (cases "mkstemp tmp v")
    case (Pair ok w2)
    then have c: "safe_change E v w2"
        "ok \<Longrightarrow> fs v tmp = None \<and> (\<exists>i. fs w2 = (fs v)(tmp \<mapsto> i)) \<and> same_config v w2"
      using safe_sys_create [OF _ assms] by (auto simp: mkstemp_def)
    show ?thesis
    proof (cases ok)
      case False
      then show ?thesis using c(1) by (simp add: Pair safe.leads_to_step)
    next
      case True
      obtain n w3 where w: "write_fd tmp buf w2 = (n, w3)" by fastforce
      then have "same_config w2 w3" "\<forall>p. p \<noteq> tmp \<longrightarrow> fs w3 p = fs w2 p"
        by (auto simp: write_fd_def Let_def same_config_def split: option.splits inode.splits)
      then have "safe_change E v w3"
        using c(2) [OF True] assms same_config_trans [of v w2 w3]
        by (intro safe_new_file [of _ _ tmp]) auto
      then show ?thesis using True Pair w by (auto intro: safe.R_trans)
    qed
  qed
  show ?thesis
    unfolding cat_file_def
    by (auto intro!: safe.leads_to_bindO [OF safely_read_sha1_file] out split: option.splits)
qed

lemma safely_run_option:
  assumes "platform_ok P"
  shows "safely (p_ext P) w (run_option P c a argv w)"
proof -
  have ok: "sha1_ok (p_ext P)" using assms by (simp add: platform_ok_def)
  have "take 14 (p_tmp P w) \<noteq> take 14 index_path"
    using assms by (simp add: platform_ok_def index_path_def)
  then have tmp: "p_tmp P w \<noteq> index_path" by metis
  show ?thesis
    unfolding run_option_def Let_def
    by (auto intro!: safe.leads_to_bindO safely_init safely_status safely_update_cache [OF ok]
        safely_show_diff safely_commit [OF ok] safely_remove_function safely_cat_file [OF tmp]
        safely_read_tree simp del: str_Cons)
qed

lemma safely_main_loop:
  "platform_ok P \<Longrightarrow> safely (p_ext P) w (main_loop P g w)"
proof (induction P g w rule: main_loop.induct)
  case (1 P g w)
  show ?case
  proof (cases "getopt_long optstring opts g")
    case (Opt c a g')
    have "safely (p_ext P) w1 (if b then main_loop P g' w1 else Ret 1 w1)" for b w1
      using 1 Opt by simp
    then show ?thesis
      unfolding main_loop.simps [of P g w] Opt scan.case
      by (intro safe.leads_to_bindO safely_run_option 1(2))
  next
    case (Done n argv)
    then show ?thesis by (simp add: main_loop.simps [of P g w] del: str_Cons)
  qed
qed

section \<open>Sequences of runs\<close>

text \<open>A new process starts with its globals cleared and its own standard streams.\<close>

definition start_process :: "bytes \<Rightarrow> gitworld \<Rightarrow> gitworld" where
  "start_process input w = w\<lparr>active_cache := None, active_nr := 0, active_alloc := 0,
     stdin := input, stdout := [], stderr := []\<rparr>"

text \<open>
  Between the runs the user may do anything to the files that are neither the index nor objects, and
  the behaviour of the operating system may change.
\<close>

definition outside_edit :: "gitworld \<Rightarrow> gitworld \<Rightarrow> bool" where
  "outside_edit w w' \<longleftrightarrow> sha1_file_directory w' = sha1_file_directory w \<and>
     fs w' index_path = fs w index_path \<and> (\<forall>p\<in>object_paths w. fs w' p = fs w p)"

inductive session :: "platform \<Rightarrow> gitworld \<Rightarrow> gitworld \<Rightarrow> bool" for P where
  session_start: "session P w w"
| session_run: "session P w v \<Longrightarrow> outcome_world (main P argv (start_process input v)) = Some v' \<Longrightarrow>
    session P w v'"
| session_edit: "session P w v \<Longrightarrow> outside_edit v v' \<Longrightarrow> session P w v'"

definition repo_kept :: "extlib \<Rightarrow> gitworld \<Rightarrow> gitworld \<Rightarrow> bool" where
  "repo_kept E w w' \<longleftrightarrow> (env_ok w \<longrightarrow> sha1_file_directory w' = sha1_file_directory w \<and>
     (\<forall>p\<in>object_paths w. fs w p \<noteq> None \<longrightarrow> fs w' p = fs w p) \<and>
     (fs w' index_path = fs w index_path \<or>
      (\<exists>st es. fs w' index_path = Some (Regular st (index_bytes E es)))))"

lemma same_dir:
  assumes "sha1_file_directory w' = sha1_file_directory w"
  shows "env_ok w' = env_ok w" "object_paths w' = object_paths w" "object_path s w' = object_path s w"
  using assms by (simp_all add: env_ok_def object_paths_def object_path_def)

lemma repo_kept_trans: "repo_kept E u v \<Longrightarrow> repo_kept E v w \<Longrightarrow> repo_kept E u w"
  unfolding repo_kept_def
proof (intro impI conjI ballI)
  assume uv: "env_ok u \<longrightarrow> sha1_file_directory v = sha1_file_directory u \<and>
      (\<forall>p\<in>object_paths u. fs u p \<noteq> None \<longrightarrow> fs v p = fs u p) \<and>
      (fs v index_path = fs u index_path \<or> (\<exists>st es. fs v index_path = Some (Regular st (index_bytes E es))))"
    and vw: "env_ok v \<longrightarrow> sha1_file_directory w = sha1_file_directory v \<and>
      (\<forall>p\<in>object_paths v. fs v p \<noteq> None \<longrightarrow> fs w p = fs v p) \<and>
      (fs w index_path = fs v index_path \<or> (\<exists>st es. fs w index_path = Some (Regular st (index_bytes E es))))"
    and ok: "env_ok u"
  then have d: "sha1_file_directory v = sha1_file_directory u" by blast
  note v = same_dir [OF d]
  show "sha1_file_directory w = sha1_file_directory u" using vw v ok d by simp
  show "fs w index_path = fs u index_path \<or> (\<exists>st es. fs w index_path = Some (Regular st (index_bytes E es)))"
    using uv vw ok v(1) by auto
  show "fs w p = fs u p" if "p \<in> object_paths u" "fs u p \<noteq> None" for p
    using uv vw ok v that by simp
qed

interpretation kept: run_relation "repo_kept E" for E
proof
  show "repo_kept E w w" for w by (simp add: repo_kept_def)
  show "repo_kept E u v \<Longrightarrow> repo_kept E v w \<Longrightarrow> repo_kept E u w" for u v w
    by (rule repo_kept_trans)
qed

lemma safe_changeD:
  assumes "safe_change E w w'" "env_ok w" "fs w' p \<noteq> fs w p"
  shows "fs w p = None \<and> p \<noteq> index_path \<or> p = index_lock \<or>
    p = index_path \<and> (\<exists>st es. fs w' p = Some (Regular st (index_bytes E es)))"
  using assms by (simp add: safe_change_def)

lemma safe_change_kept:
  assumes "safe_change E w w'"
  shows "repo_kept E w w'"
  unfolding repo_kept_def
proof (intro impI conjI ballI)
  assume ok: "env_ok w"
  show "sha1_file_directory w' = sha1_file_directory w"
    using assms ok by (simp add: safe_change_def same_config_def sha1_file_directory_def getenv_def)
  have "index_path \<noteq> index_lock" by (simp add: index_path_def index_lock_def)
  then show "fs w' index_path = fs w index_path \<or> (\<exists>st es. fs w' index_path = Some (Regular st (index_bytes E es)))"
    using safe_changeD [OF assms ok, of index_path] by auto
  fix p assume "p \<in> object_paths w" "fs w p \<noteq> None"
  moreover from this have "p \<noteq> index_lock" "p \<noteq> index_path" using index_not_object [OF ok] by auto
  ultimately show "fs w' p = fs w p" by (cases "fs w' p = fs w p") (use safe_changeD [OF assms ok, of p] in simp_all)
qed

lemma session_kept:
  assumes "platform_ok P" "session P w w'"
  shows "repo_kept (p_ext P) w w'"
  using assms(2)
proof induction
  case (session_run w v argv input v')
  have "repo_kept (p_ext P) v (start_process input v)"
    by (simp add: repo_kept_def start_process_def sha1_file_directory_def getenv_def)
  moreover have "safe_change (p_ext P) (start_process input v) v'"
    using safely_main_loop [OF assms(1), of "start_process input v" "scanner_start argv"] session_run
    by (simp add: main_def leads_to_def)
  ultimately show ?case
    using kept.R_trans [OF session_run.IH kept.R_trans [OF _ safe_change_kept]] by blast
next
  case (session_edit w v v')
  then have "repo_kept (p_ext P) v v'" by (simp add: outside_edit_def repo_kept_def)
  with session_edit.IH show ?case by (rule kept.R_trans)
qed simp



end
