(* ===== verification/Examples.thy ===== *)
theory Examples
  imports Session
begin

text \<open>
  Small concrete instances: libraries that satisfy the documented behaviour of OpenSSL and zlib, a
  machine on which nothing fails, and a few repositories.  They show that the hypotheses of the
  properties can hold together.
\<close>

section \<open>Libraries\<close>

text \<open>\<^verbatim>\<open>deflate\<close> puts one byte in front of the data; a digest is a prefix with the zeros replaced.\<close>

definition toy :: extlib where
  "toy = \<lparr>SHA1 = (\<lambda>x. map (\<lambda>b. if b = 0 then 1 else b) (take 20 (x @ replicate 20 1))),
     deflate = (\<lambda>xs. 120 # concat xs), deflateBound = Suc, inflate = tl, malloc_ok = (\<lambda>_. True)\<rparr>"

text \<open>The same with digests that are all zeros.\<close>

definition toy0 :: extlib where
  "toy0 = toy\<lparr>SHA1 := (\<lambda>_. replicate 20 0)\<rparr>"

lemma toy_ok [simp]: "sha1_ok toy" "zlib_ok toy" "malloc_ok toy n" "sha1_ok toy0" "zlib_ok toy0"
    "malloc_ok toy0 n"
  by (auto simp: toy_def toy0_def sha1_ok_def zlib_ok_def)

lemma toy_sha1 [simp]: "no_nul (SHA1 toy x)" "length (SHA1 toy x) = 20"
  by (auto simp: toy_def)

section \<open>Repositories\<close>

definition toy_stat :: stat where
  "toy_stat = \<lparr>st_dev = 1, st_ino = 2, st_mode = 0x81a4, st_uid = 0, st_gid = 0, st_size = 0,
     st_mtim_sec = 3, st_mtim_nsec = 4, st_ctim_sec = 5, st_ctim_nsec = 6\<rparr>"

text \<open>The directories that \<^verbatim>\<open>init\<close> makes, described by their names.\<close>

definition repo_dir :: "bytes \<Rightarrow> bool" where
  "repo_dir p \<longleftrightarrow> p = dircache_dir \<or> p = DEFAULT_DB_ENVIRONMENT \<or>
     take 18 p = DEFAULT_DB_ENVIRONMENT @ [47] \<and> length p = 20"

lemma repo_dir_simps [simp]:
  "repo_dir dircache_dir" "repo_dir DEFAULT_DB_ENVIRONMENT" "i < 256 \<Longrightarrow> repo_dir (fanout_dir DEFAULT_DB_ENVIRONMENT i)"
  "\<not> repo_dir index_path" "\<not> repo_dir index_lock" "\<not> repo_dir (str ''f'')" "\<not> repo_dir (str ''--add'')"
  by (simp_all add: repo_dir_def dircache_dir_def DEFAULT_DB_ENVIRONMENT_def fanout_dir_def length_fmt_02x
      index_path_def index_lock_def)

definition world_of :: "(bytes \<Rightarrow> inode option) \<Rightarrow> gitworld" where
  "world_of files = \<lparr>fs = files, env = (\<lambda>_. None), fault = (\<lambda>_ _. None), room = (\<lambda>_. None),
     new_stat = (\<lambda>_. toy_stat), errno = E_OK, stdin = [], stdout = [], stderr = [],
     active_cache = None, active_nr = 0, active_alloc = 0\<rparr>"

lemma world_of_simps [simp]:
  "fs (world_of f) = f" "env (world_of f) = (\<lambda>_. None)" "fault (world_of f) = (\<lambda>_ _. None)"
  "room (world_of f) = (\<lambda>_. None)" "active_cache (world_of f) = None" "active_nr (world_of f) = 0"
  "active_alloc (world_of f) = 0" "stdin (world_of f) = []" "stdout (world_of f) = []" "no_fault p (world_of f)"
  by (simp_all add: world_of_def no_fault_def)

lemma world_of_dir [simp]: "sha1_file_directory (world_of f) = DEFAULT_DB_ENVIRONMENT" "env_ok (world_of f)"
  by (simp_all add: sha1_file_directory_def getenv_def env_ok_def)

text \<open>A directory with one file of two bytes and no repository.\<close>

definition one_file :: "bytes \<Rightarrow> inode option" where
  "one_file = [str ''f'' \<mapsto> Regular toy_stat (str ''hi'')]"

text \<open>A repository without an index, and the same with an index file and some objects.\<close>

definition empty_repo :: "bytes \<Rightarrow> inode option" where
  "empty_repo p = (if repo_dir p then Some (Directory toy_stat) else one_file p)"

lemma empty_repo_simps [simp]:
  "empty_repo index_path = None" "empty_repo index_lock = None"
  "empty_repo [102] = Some (Regular toy_stat (str ''hi''))" "empty_repo [45, 45, 97, 100, 100] = None"
  "empty_repo dircache_dir = Some (Directory toy_stat)"
  "empty_repo DEFAULT_DB_ENVIRONMENT = Some (Directory toy_stat)"
  by (simp_all add: empty_repo_def)
    (simp_all add: one_file_def index_path_def index_lock_def repo_dir_def dircache_dir_def
      DEFAULT_DB_ENVIRONMENT_def)

definition repo_with :: "bytes \<Rightarrow> bytes list \<Rightarrow> bytes \<Rightarrow> inode option" where
  "repo_with index objs p =
     (if p = index_path then Some (Regular toy_stat index)
      else if p \<in> sha1_file_name DEFAULT_DB_ENVIRONMENT ` set objs then Some (Regular toy_stat [120])
      else empty_repo p)"

lemma object_name_length: "length s = 20 \<Longrightarrow> length (sha1_file_name DEFAULT_DB_ENVIRONMENT s) = 59"
  using length_object_path [of "world_of Map.empty" s]
  by (simp add: object_path_def DEFAULT_DB_ENVIRONMENT_def)

lemma object_not_dir: "length s = 20 \<Longrightarrow> \<not> repo_dir (sha1_file_name DEFAULT_DB_ENVIRONMENT s)"
  using object_name_length [of s] by (auto simp: repo_dir_def dircache_dir_def DEFAULT_DB_ENVIRONMENT_def)

lemma object_parent_repo_dir:
  "length s = 20 \<Longrightarrow> repo_dir (parent (sha1_file_name DEFAULT_DB_ENVIRONMENT s))"
  by (simp add: parent_object_path)

lemma object_none:
  assumes "length s = 20" "s \<notin> set objs" "\<forall>t\<in>set objs. length t = 20"
  shows "repo_with d objs (sha1_file_name DEFAULT_DB_ENVIRONMENT s) = None"
    "empty_repo (sha1_file_name DEFAULT_DB_ENVIRONMENT s) = None"
proof -
  note l = object_name_length [OF assms(1)]
  have "sha1_file_name DEFAULT_DB_ENVIRONMENT s \<noteq> index_path" "sha1_file_name DEFAULT_DB_ENVIRONMENT s \<noteq> str ''f''"
    using l by (auto simp: index_path_def)
  moreover have "sha1_file_name DEFAULT_DB_ENVIRONMENT s \<notin> sha1_file_name DEFAULT_DB_ENVIRONMENT ` set objs"
    using assms sha1_file_name_inj [of DEFAULT_DB_ENVIRONMENT s] by auto
  ultimately show "repo_with d objs (sha1_file_name DEFAULT_DB_ENVIRONMENT s) = None"
    "empty_repo (sha1_file_name DEFAULT_DB_ENVIRONMENT s) = None"
    using object_not_dir [OF assms(1)] by (simp_all add: repo_with_def empty_repo_def one_file_def del: str_Cons)
qed

section \<open>Adding a file\<close>

lemma toy_on_disk_empty [simp]: "on_disk E [] (world_of empty_repo)"
  by (simp add: on_disk_def)

lemma parent_lock [simp]: "parent index_lock = dircache_dir"
  by (simp add: parent_def index_lock_def dircache_dir_def)

lemma toy_lockable [simp]: "lockable (world_of empty_repo)"
  by (simp add: lockable_def is_dir_def)

lemma toy_option [simp]: "option_ignored (\<lambda>_ _. 0) (str ''--add'') [] (world_of empty_repo)"
  by (simp add: option_ignored_def verify_path_def)

lemma toy_addable [simp]: "addable toy (str ''f'') toy_stat (str ''hi'') (world_of empty_repo)"
proof -
  let ?s = "SHA1 toy (blob_data toy (str ''hi''))"
  have "length (blob_data toy (str ''hi'')) \<le> 1 + 2 + 200"
    by (simp add: blob_data_def toy_def blob_header_def) (simp add: digits.simps)
  moreover have "is_dir (world_of empty_repo) (parent (object_path ?s (world_of empty_repo)))"
    using object_parent_repo_dir [of ?s] by (simp add: is_dir_def object_path_def empty_repo_def)
  moreover have "empty_repo (object_path ?s (world_of empty_repo)) = None"
    using object_none(2) [of ?s "[]"] by (simp add: object_path_def)
  ultimately show ?thesis by (simp add: addable_def Let_def verify_path_def)
qed

section \<open>An index with two entries\<close>

definition toy_name :: bytes where
  "toy_name = replicate 20 5"

definition two_entries :: "cache_entry list" where
  "two_entries = [make_ce (str ''a'') toy_stat toy_name, make_ce (str ''f'') toy_stat toy_name]"

lemma wf_two_entries [simp]: "\<forall>ce\<in>set two_entries. wf_ce ce" "map ce_name two_entries = [str ''a'', str ''f'']"
    "length two_entries = 2" "two_entries \<noteq> []" "\<forall>ce\<in>set two_entries. ce_sha1 ce = toy_name"
  by (simp_all add: two_entries_def wf_make_ce toy_name_def) (simp_all add: make_ce_def)

lemma two_entries_sorted [simp]: "key_sorted ce_name two_entries"
  using wf_make_ce(2) [of "str ''a''" toy_name toy_stat] wf_make_ce(2) [of "str ''f''" toy_name toy_stat]
  by (simp add: two_entries_def key_sorted_Cons toy_name_def)

definition two_repo :: gitworld where
  "two_repo = world_of (repo_with (index_bytes toy two_entries) [toy_name])"

lemma index_length: "sha1_ok E \<Longrightarrow> length (index_bytes E two_entries) < 2 ^ 64"
  using wf_two_entries(1)
  by (simp add: index_bytes_def length_index_header two_entries_def length_ce_bytes)
    (simp add: ce_size_def make_ce_def cache_entry_size_def)

lemma two_on_disk: "sha1_ok E \<Longrightarrow> on_disk E two_entries (world_of (repo_with (index_bytes E two_entries) objs))"
  using index_length [of E]
  by (simp add: on_disk_def index_readable_def repo_with_def)


text \<open>The array in memory after that index was read.\<close>

definition loaded :: "gitworld \<Rightarrow> gitworld" where
  "loaded w = w\<lparr>active_cache := Some (map Some two_entries @ [None]), active_nr := 2, active_alloc := 3\<rparr>"

lemma loaded_simps [simp]: "fs (loaded w) = fs w" "fault (loaded w) = fault w" "room (loaded w) = room w"
    "active_nr (loaded w) = 2" "slots (loaded w) = map Some two_entries @ [None]" "entries (loaded w) = two_entries"
    "no_fault p (loaded w) = no_fault p w" "env_ok (loaded w) = env_ok w"
  by (simp_all add: loaded_def slots_def entries_def no_fault_def env_ok_def sha1_file_directory_def getenv_def)

lemma loaded_inv [simp]: "cache_inv (loaded w)"
proof -
  have "slots (loaded w) ! i \<noteq> None" if "i < 2" for i using that by (simp add: nth_append)
  then show ?thesis
    unfolding cache_inv_def by (simp) (simp add: loaded_def)
qed

definition toy_user :: user where
  "toy_user = \<lparr>pw = Some (str ''u'', str ''U''), hostname = str ''h'', ctime_now = str ''now''\<rparr>"

definition toy_platform :: platform where
  "toy_platform = \<lparr>p_ext = toy, p_noret = (\<lambda>_ _. 0), p_shell = (\<lambda>_ _ _. []), p_user = toy_user,
     p_tmp = (\<lambda>_. str ''temp_git_file_abcdef''), p_blocks = (\<lambda>_. (replicate 24 0, replicate 24 0))\<rparr>"

lemma toy_platform_simps [simp]: "p_ext toy_platform = toy" "platform_ok toy_platform"
    "p_noret toy_platform = (\<lambda>_ _. 0)"
  by (simp_all add: toy_platform_def platform_ok_def)

end
