(* ===== verification/Git_Memory.thy ===== *)
theory Git_Memory
  imports Prelude
begin

text \<open>
  What the models of the bundled git 0.99.1 share: results of code that may touch memory it does not own, and stores
  into a buffer of limited size.
\<close>

section \<open>Results\<close>

text \<open>An access outside of a buffer, a null pointer, or a value.\<close>

datatype 'a res = Oob | Null | Val 'a

fun bindR :: "'a res \<Rightarrow> ('a \<Rightarrow> 'b res) \<Rightarrow> 'b res" where
  "bindR Oob f = Oob"
| "bindR Null f = Null"
| "bindR (Val a) f = f a"

lemma bindR_Val_iff: "bindR m f = Val b \<longleftrightarrow> (\<exists>a. m = Val a \<and> f a = Val b)"
  by (cases m) auto

section \<open>Stores\<close>

text \<open>The length of a path buffer, from \<^verbatim>\<open>limits.h\<close>.\<close>

definition PATH_MAX :: nat where "PATH_MAX = 4096"

text \<open>A store at the end of the output, which has room for \<open>outsize\<close> bytes.\<close>

definition emit :: "nat \<Rightarrow> byte \<Rightarrow> bytes \<Rightarrow> bytes res" where
  "emit outsize b out = (if length out < outsize then Val (out @ [b]) else Oob)"

fun emits :: "nat \<Rightarrow> bytes \<Rightarrow> bytes \<Rightarrow> bytes res" where
  "emits outsize [] out = Val out"
| "emits outsize (b # bs) out = bindR (emit outsize b out) (emits outsize bs)"

text \<open>\<^verbatim>\<open>strcpy\<close> to the end of the output, before the NUL that the next store overwrites.\<close>

definition put_str :: "nat \<Rightarrow> bytes \<Rightarrow> bytes \<Rightarrow> bytes res" where
  "put_str outsize s out = (if length out + length s + 1 \<le> outsize then Val (out @ s) else Oob)"

lemma emits_ok: "length out + length bs \<le> outsize \<Longrightarrow> emits outsize bs out = Val (out @ bs)"
  by (induction bs arbitrary: out) (auto simp: emit_def)

end
