(* ===== verification/Git_Delta.thy ===== *)
theory Git_Delta
  imports Git_Memory
begin

text \<open>
  Deltas of the bundled git 0.99.1: \<^verbatim>\<open>diff_delta\<close> of \<^verbatim>\<open>src/git-0.99.1/diff-delta.c\<close>, \<^verbatim>\<open>patch_delta\<close> of
  \<^verbatim>\<open>patch-delta.c\<close>, \<^verbatim>\<open>count_delta\<close> of \<^verbatim>\<open>count-delta.c\<close> and \<^verbatim>\<open>get_delta_hdr_size\<close> of \<^verbatim>\<open>delta.h\<close>.  Buffers are
  byte lists, pointers into them positions; whether \<^verbatim>\<open>malloc(n)\<close> succeeds is an argument.
\<close>

section \<open>Fingerprints (diff-delta.c)\<close>

definition BLK_SIZE :: nat where "BLK_SIZE = 16"
definition GR_PRIME :: u32 where "GR_PRIME = 0x9e370001"
definition BASE :: u32 where "BASE = 65521"
definition NMAX :: nat where "NMAX = 5552"

definition HASH :: "u32 \<Rightarrow> nat \<Rightarrow> nat" where
  "HASH v b = unat (drop_bit (32 - b) (v * GR_PRIME))"

text \<open>\<^verbatim>\<open>DO1\<close>: one byte into the two running sums.\<close>

definition DO1 :: "byte \<Rightarrow> u32 \<times> u32 \<Rightarrow> u32 \<times> u32" where
  "DO1 c s = (case s of (s1, s2) \<Rightarrow> let s1' = s1 + ucast c in (s1', s2 + s1'))"

text \<open>The outer loop of \<^verbatim>\<open>adler32\<close>: at most \<^verbatim>\<open>NMAX\<close> bytes between two reductions.\<close>

function adler_loop :: "u32 \<times> u32 \<Rightarrow> bytes \<Rightarrow> u32 \<times> u32" where
  "adler_loop s buf =
     (if buf = [] then s
      else (let k = min (length buf) NMAX in
            case fold DO1 (take k buf) s of (s1, s2) \<Rightarrow> adler_loop (s1 mod BASE, s2 mod BASE) (drop k buf)))"
  by auto
termination by (relation "measure (\<lambda>(s, buf). length buf)") (auto simp: NMAX_def)

declare adler_loop.simps [simp del]

definition adler32 :: "u32 \<Rightarrow> bytes \<Rightarrow> u32" where
  "adler32 adler buf =
     (case adler_loop (adler AND 0xffff, drop_bit 16 adler) buf of (s1, s2) \<Rightarrow> push_bit 16 s2 OR s1)"

function hashbits_loop :: "u32 \<Rightarrow> u32 \<Rightarrow> nat \<Rightarrow> nat" where
  "hashbits_loop sz val bits =
     (if val < sz \<and> bits < 32 then hashbits_loop sz (push_bit 1 val) (Suc bits) else bits)"
  by auto
termination by (relation "measure (\<lambda>(sz, val, bits). 32 - bits)") auto

declare hashbits_loop.simps [simp del]

definition hashbits :: "u32 \<Rightarrow> nat" where
  "hashbits sz = (let bits = hashbits_loop sz 1 0 in if bits \<noteq> 0 then bits else 1)"

text \<open>
  \<^verbatim>\<open>bdrecord_t\<close>: fingerprint and position of a block; \<^verbatim>\<open>bdfile_t\<close>: the source and the hash table, whose
  chains are lists.  The records come from the pool of \<^verbatim>\<open>cha_alloc\<close>, which grows by \<^verbatim>\<open>malloc\<close>.
\<close>

record bdrecord =
  fp :: u32
  ptr :: nat

record bdfile =
  bdata :: bytes
  fphbits :: nat
  fphash :: "bdrecord list list"

text \<open>
  \<^verbatim>\<open>chastore_t\<close> with the fields that decide about allocations: the bytes used of the current node (none
  yet: \<open>None\<close>), the size of a record and of a node.
\<close>

record chastore =
  isize :: nat
  nsize :: nat
  icurr :: "nat option"

definition cha_init :: "nat \<Rightarrow> nat \<Rightarrow> chastore" where
  "cha_init sz icount = \<lparr>isize = sz, nsize = icount * sz, icurr = None\<rparr>"

definition cha_alloc :: "(nat \<Rightarrow> bool) \<Rightarrow> chastore \<Rightarrow> chastore option" where
  "cha_alloc malloc cha =
     (if icurr cha = None \<or> icurr cha = Some (nsize cha) then
        (if malloc (16 + nsize cha) then Some (cha\<lparr>icurr := Some (isize cha)\<rparr>) else None)
      else Some (cha\<lparr>icurr := map_option (\<lambda>i. i + isize cha) (icurr cha)\<rparr>))"

text \<open>The loop of \<^verbatim>\<open>delta_prepare\<close> over the blocks, from the last one down; each goes to the front of its chain.\<close>

fun prepare_blocks ::
  "(nat \<Rightarrow> bool) \<Rightarrow> bytes \<Rightarrow> nat \<Rightarrow> nat list \<Rightarrow> chastore \<Rightarrow> bdrecord list list \<Rightarrow> bdrecord list list option" where
  "prepare_blocks malloc buf bits [] cha h = Some h"
| "prepare_blocks malloc buf bits (off # offs) cha h =
     (case cha_alloc malloc cha of None \<Rightarrow> None
      | Some cha' \<Rightarrow>
        (let f = adler32 0 (take BLK_SIZE (drop off buf)); i = HASH f bits
         in prepare_blocks malloc buf bits offs cha' (h[i := \<lparr>fp = f, ptr = off\<rparr> # h ! i])))"

definition delta_prepare :: "(nat \<Rightarrow> bool) \<Rightarrow> bytes \<Rightarrow> bdfile option" where
  "delta_prepare malloc buf =
     (let bits = hashbits (of_nat (length buf div BLK_SIZE + 1)); hsize = 2 ^ bits;
          blocks = (if length buf div BLK_SIZE * BLK_SIZE = length buf then length buf div BLK_SIZE
                    else length buf div BLK_SIZE + 1) in
      if \<not> malloc (hsize * 8) then None
      else map_option (\<lambda>h. \<lparr>bdata = buf, fphbits = bits, fphash = h\<rparr>)
        (prepare_blocks malloc buf bits (rev (map (\<lambda>k. k * BLK_SIZE) [0..<blocks]))
           (cha_init 24 (hsize div 4 + 1)) (replicate hsize [])))"

section \<open>Making a delta (diff-delta.c)\<close>

definition nz :: "nat \<Rightarrow> nat" where
  "nz b = (if b = 0 then 0 else 1)"

definition COPYOP_SIZE :: "nat \<Rightarrow> nat \<Rightarrow> nat" where
  "COPYOP_SIZE off sz = nz (off mod 256) + nz (off div 256 mod 256) + nz (off div 65536 mod 256) +
     nz (off div 16777216 mod 256) + nz (sz mod 256) + nz (sz div 256 mod 256) + 1"

text \<open>The comparison loop: how far two buffers agree.\<close>

fun match_len :: "bytes \<Rightarrow> bytes \<Rightarrow> nat" where
  "match_len (x # xs) (y # ys) = (if x = y then Suc (match_len xs ys) else 0)"
| "match_len _ _ = 0"

text \<open>The loop over a chain: the longest match, no longer than 0x10000 bytes.\<close>

fun best_match :: "bytes \<Rightarrow> bytes \<Rightarrow> u32 \<Rightarrow> bdrecord list \<Rightarrow> nat \<times> nat \<Rightarrow> nat \<times> nat" where
  "best_match src data f [] m = m"
| "best_match src data f (b # bs) (moff, msize) =
     (if fp b = f then
        (let csize = match_len (drop (ptr b) src) data in
         if msize < csize then
           (if 0x10000 \<le> csize then (ptr b, 0x10000) else best_match src data f bs (ptr b, csize))
         else best_match src data f bs (moff, msize))
      else best_match src data f bs (moff, msize))"

text \<open>The loop that stores a size, seven bits at a time.\<close>

function hdr_bytes :: "nat \<Rightarrow> bytes" where
  "hdr_bytes n = (if n div 128 = 0 then [of_nat n] else (of_nat n OR 0x80) # hdr_bytes (n div 128))"
  by auto
termination by (relation "measure id") auto

declare hdr_bytes.simps [simp del]

text \<open>The operand bytes that are not zero, lowest first, and the bits of the command that announce them.\<close>

fun operands :: "nat list \<Rightarrow> nat \<Rightarrow> nat \<times> bytes" where
  "operands [] m = (0, [])"
| "operands (v # vs) m =
     (case operands vs (2 * m) of (cmd, bs) \<Rightarrow>
        if v = 0 then (cmd, bs) else (cmd + m, of_nat v # bs))"

definition copy_op :: "nat \<Rightarrow> nat \<Rightarrow> bytes" where
  "copy_op moff msize =
     (case operands [moff mod 256, moff div 256 mod 256, moff div 65536 mod 256, moff div 16777216 mod 256,
         msize mod 256, msize div 256 mod 256] 1 of (cmd, bs) \<Rightarrow> of_nat (0x80 + cmd) # bs)"

text \<open>The number of literals in front of them; the byte was skipped when the first was stored.\<close>

definition close_insert :: "nat \<Rightarrow> bytes \<Rightarrow> bytes" where
  "close_insert inscnt out = (if inscnt = 0 then out else out[length out - inscnt - 1 := of_nat inscnt])"

definition add_literal :: "nat \<Rightarrow> byte \<Rightarrow> bytes \<Rightarrow> nat \<Rightarrow> (bytes \<times> nat) res" where
  "add_literal outsize c out inscnt =
     bindR (emits outsize (if inscnt = 0 then [0, c] else [c]) out) (\<lambda>out1.
       if inscnt + 1 = 0x7f then Val (close_insert 0x7f out1, 0) else Val (out1, inscnt + 1))"

definition add_copy :: "nat \<Rightarrow> nat \<Rightarrow> nat \<Rightarrow> bytes \<Rightarrow> nat \<Rightarrow> (bytes \<times> nat) res" where
  "add_copy outsize moff msize out inscnt =
     bindR (emits outsize (copy_op moff msize) (close_insert inscnt out)) (\<lambda>out1. Val (out1, 0))"

text \<open>The main loop, on the rest \<open>data\<close> of the target.\<close>

function diff_loop ::
  "(nat \<Rightarrow> bool) \<Rightarrow> bdfile \<Rightarrow> nat \<Rightarrow> bytes \<Rightarrow> bytes \<Rightarrow> nat \<Rightarrow> nat \<Rightarrow> nat \<Rightarrow> bytes res" where
  "diff_loop malloc bdf max_size data out outsize inscnt moff0 =
     (if data = [] then Val (close_insert inscnt out)
      else
        (let f = adler32 0 (take BLK_SIZE data) in
         case best_match (bdata bdf) data f (fphash bdf ! HASH f (fphbits bdf)) (moff0, 0) of
           (moff, msize) \<Rightarrow>
             (let lit = (msize = 0 \<or> msize < COPYOP_SIZE moff msize);
                  n = (if lit then 1 else msize) in
              bindR (if lit then add_literal outsize (hd data) out inscnt
                     else add_copy outsize moff msize out inscnt) (\<lambda>(out1, inscnt1).
                if 0 < max_size \<and> max_size < length out1 then Null
                else if outsize - 8 < length out1 then
                  (if 2 ^ 31 \<le> outsize * 3 then Oob
                   else if malloc (outsize * 3 div 2)
                   then diff_loop malloc bdf max_size (drop n data) out1 (outsize * 3 div 2) inscnt1 moff
                   else Null)
                else diff_loop malloc bdf max_size (drop n data) out1 outsize inscnt1 moff))))"
  by pat_completeness auto
termination
  by (relation "measure (\<lambda>(m, b, x, data, r). length data)") auto

declare diff_loop.simps [simp del]

text \<open>
  \<^verbatim>\<open>moff\<close> has been shifted away by a copy operation; the value carried into the next turn is only used
  after another match has set it.
\<close>

definition diff_delta :: "(nat \<Rightarrow> bool) \<Rightarrow> bytes \<Rightarrow> bytes \<Rightarrow> nat \<Rightarrow> bytes res" where
  "diff_delta malloc from to max_size =
     (if from = [] \<or> to = [] then Null
      else (case delta_prepare malloc from of None \<Rightarrow> Null
        | Some bdf \<Rightarrow>
          (if \<not> malloc 8192 then Null
           else bindR (emits 8192 (hdr_bytes (length from) @ hdr_bytes (length to)) [])
             (\<lambda>out. diff_loop malloc bdf max_size to out 8192 0 0))))"

section \<open>Applying a delta (patch-delta.c, delta.h)\<close>

definition DELTA_SIZE_MIN :: nat where "DELTA_SIZE_MIN = 4"

text \<open>
  \<^verbatim>\<open>get_delta_hdr_size\<close>: the size and the rest of the data.  The shift is one of an \<^verbatim>\<open>int\<close>: a byte that
  would be shifted out of it is undefined, and so is a shift by more than its width.
\<close>

fun hdr_loop :: "bytes \<Rightarrow> nat \<Rightarrow> nat \<Rightarrow> (nat \<times> bytes) res" where
  "hdr_loop [] sz i = Oob"
| "hdr_loop (cmd # data) sz i =
     (if 32 \<le> i \<or> 2 ^ 31 \<le> unat (cmd AND 0x7f) * 2 ^ i then Oob
      else (let sz' = sz + unat (cmd AND 0x7f) * 2 ^ i in
            if cmd AND 0x80 \<noteq> 0 then hdr_loop data sz' (i + 7) else Val (sz', data)))"

definition get_delta_hdr_size :: "bytes \<Rightarrow> (nat \<times> bytes) res" where
  "get_delta_hdr_size data = hdr_loop data 0 0"

text \<open>The operands that the bits of a command announce.\<close>

fun get_operands :: "byte \<Rightarrow> nat list \<Rightarrow> bytes \<Rightarrow> (nat list \<times> bytes) res" where
  "get_operands cmd [] data = Val ([], data)"
| "get_operands cmd (k # ks) data =
     (if bit cmd k then
        (case data of [] \<Rightarrow> Oob
         | b # data' \<Rightarrow> bindR (get_operands cmd ks data') (\<lambda>(vs, rest). Val (unat b # vs, rest)))
      else bindR (get_operands cmd ks data) (\<lambda>(vs, rest). Val (0 # vs, rest)))"

text \<open>A copy command: what it appends to the output \<open>out\<close> of \<open>sz\<close> bytes.\<close>

definition copy_bytes :: "bytes \<Rightarrow> nat \<Rightarrow> byte \<Rightarrow> nat list \<Rightarrow> bytes \<Rightarrow> bytes res" where
  "copy_bytes src sz cmd vs out =
     (let cp_off = vs ! 0 + vs ! 1 * 256 + vs ! 2 * 65536 + vs ! 3 * 16777216;
          cp = vs ! 4 + vs ! 5 * 256; cp_size = (if cp = 0 then 0x10000 else cp);
          buf = (if bit cmd 6 then out else src) in
      if 128 \<le> vs ! 3 \<or> length buf < cp_off + cp_size \<or> sz < length out + cp_size then Oob
      else Val (out @ take cp_size (drop cp_off buf)))"

text \<open>One command: the output after it and the rest of the delta.\<close>

definition patch_step :: "bytes \<Rightarrow> nat \<Rightarrow> byte \<Rightarrow> bytes \<Rightarrow> bytes \<Rightarrow> (bytes \<times> bytes) res" where
  "patch_step src sz cmd data out =
     (if bit cmd 7 then
        bindR (get_operands cmd [0, 1, 2, 3, 4, 5] data) (\<lambda>(vs, rest).
          bindR (copy_bytes src sz cmd vs out) (\<lambda>out'. Val (out', rest)))
      else if length data < unat cmd \<or> sz < length out + unat cmd then Oob
      else Val (out @ take (unat cmd) data, drop (unat cmd) data))"

lemma get_operands_length: "get_operands cmd ks data = Val (vs, rest) \<Longrightarrow> length rest \<le> length data"
  by (induction cmd ks data arbitrary: vs rest rule: get_operands.induct)
    (fastforce simp: bindR_Val_iff split: if_splits list.splits)+

declare get_operands.simps [simp del]

lemma patch_step_length: "patch_step src sz cmd data out = Val (out', rest) \<Longrightarrow> length rest \<le> length data"
  by (cases "bit cmd 7") (auto simp: patch_step_def bindR_Val_iff split: if_splits dest: get_operands_length)

function patch_loop :: "bytes \<Rightarrow> nat \<Rightarrow> bytes \<Rightarrow> bytes \<Rightarrow> bytes res" where
  "patch_loop src sz [] out = (if length out = sz then Val out else Null)"
| "patch_loop src sz (cmd # data) out =
     (case patch_step src sz cmd data out of Oob \<Rightarrow> Oob | Null \<Rightarrow> Null
      | Val (out', rest) \<Rightarrow> patch_loop src sz rest out')"
  by pat_completeness auto
termination
  by (relation "measure (\<lambda>(src, sz, data, out). length data)")
    (auto simp: less_Suc_eq_le dest: patch_step_length)

definition patch_delta :: "(nat \<Rightarrow> bool) \<Rightarrow> bytes \<Rightarrow> bytes \<Rightarrow> bytes res" where
  "patch_delta malloc src delta =
     (if length delta < DELTA_SIZE_MIN then Null
      else bindR (get_delta_hdr_size delta) (\<lambda>(sz1, d1).
        if sz1 \<noteq> length src then Null
        else bindR (get_delta_hdr_size d1) (\<lambda>(sz2, d2).
          if \<not> malloc sz2 then Null else patch_loop src sz2 d2 [])))"


section \<open>Measuring a delta (count-delta.c)\<close>

text \<open>The counters are \<^verbatim>\<open>copied_from_source\<close>, \<^verbatim>\<open>added_literal\<close> and \<^verbatim>\<open>out\<close>; literals are skipped, not read.\<close>

definition count_step :: "byte \<Rightarrow> bytes \<Rightarrow> nat \<times> nat \<times> nat \<Rightarrow> ((nat \<times> nat \<times> nat) \<times> bytes) res" where
  "count_step cmd data c =
     (case c of (copied, added, n) \<Rightarrow>
        if bit cmd 7 then
          bindR (get_operands cmd [0, 1, 2, 3, 4, 5] data) (\<lambda>(vs, rest).
            let cp = vs ! 4 + vs ! 5 * 256; cp_size = (if cp = 0 then 0x10000 else cp) in
            Val ((if bit cmd 6 then copied else copied + cp_size, added, n + cp_size), rest))
        else if length data < unat cmd then Null
        else Val ((copied, added + unat cmd, n + unat cmd), drop (unat cmd) data))"

lemma count_step_length: "count_step cmd data c = Val (c', rest) \<Longrightarrow> length rest \<le> length data"
  by (cases c; cases "bit cmd 7")
    (auto simp: count_step_def bindR_Val_iff Let_def split: if_splits dest: get_operands_length)

function count_loop :: "nat \<Rightarrow> bytes \<Rightarrow> nat \<times> nat \<times> nat \<Rightarrow> (nat \<times> nat) res" where
  "count_loop dst_size [] c = (case c of (copied, added, n) \<Rightarrow> if n = dst_size then Val (copied, added) else Null)"
| "count_loop dst_size (cmd # data) c =
     (case count_step cmd data c of Oob \<Rightarrow> Oob | Null \<Rightarrow> Null
      | Val (c', rest) \<Rightarrow> count_loop dst_size rest c')"
  by pat_completeness auto
termination
  by (relation "measure (\<lambda>(sz, data, c). length data)") (auto simp: less_Suc_eq_le dest: count_step_length)

definition count_delta :: "bytes \<Rightarrow> (nat \<times> nat) res" where
  "count_delta delta =
     (if length delta < DELTA_SIZE_MIN then Null
      else bindR (get_delta_hdr_size delta) (\<lambda>(src_size, d1).
        bindR (get_delta_hdr_size d1) (\<lambda>(dst_size, d2). count_loop dst_size d2 (0, 0, 0))))"

section \<open>Sizes\<close>

text \<open>The top bit and the low bits of a byte.\<close>

lemma byte_and_128: "(x :: byte) AND 0x80 \<noteq> 0 \<longleftrightarrow> bit x 7"
  using and_exp_eq_0_iff_not_bit [of x 7] by simp

lemma byte_low7: "unat ((x :: byte) AND 0x7f) = unat x mod 128"
proof -
  have "x AND 0x7f = take_bit 7 x" by (simp add: take_bit_eq_mask mask_eq_exp_minus_1)
  then show ?thesis by (simp add: take_bit_eq_mod unat_mod)
qed

lemma bit7_or: "bit ((x :: byte) OR 0x80) 7"
proof -
  have "bit (2 ^ 7 :: byte) 7" by (simp only: bit_exp_iff) simp
  then show ?thesis by (simp add: bit_or_iff)
qed

lemma bit7_unat: "bit (x :: byte) 7 \<longleftrightarrow> 128 \<le> unat x"
proof -
  have "bit x 7 \<longleftrightarrow> bit (unat x) 7" by (simp add: bit_unsigned_iff)
  also have "\<dots> \<longleftrightarrow> 128 \<le> unat x"
  proof -
    have "unat x div 128 < 2" using unsigned_less [of x, where 'a = nat] by (intro less_mult_imp_div_less) simp
    then have "odd (unat x div 128) \<longleftrightarrow> unat x div 128 \<noteq> 0" by (auto simp: less_2_cases_iff)
    then show ?thesis by (simp add: bit_iff_odd div_eq_0_iff not_less)
  qed
  finally show ?thesis .
qed

lemma low7_or: "unat (((x :: byte) OR 0x80) AND 0x7f) = unat x mod 128"
proof -
  have "(x OR 0x80) AND 0x7f = x AND (0x7f :: byte)"
    by (simp only: bit.conj_disj_distrib2) simp
  then show ?thesis by (simp add: byte_low7)
qed

lemma hdr_loop_bytes:
  assumes "n * 2 ^ i < 2 ^ 31" "0 < n \<or> i = 0"
  shows "hdr_loop (hdr_bytes n @ rest) sz i = Val (sz + n * 2 ^ i, rest)"
  using assms
proof (induction n arbitrary: sz i rule: hdr_bytes.induct)
  case (1 n)
  have i: "i < 32"
  proof (rule ccontr)
    assume "\<not> i < 32"
    then have "(2 :: nat) ^ 32 \<le> 2 ^ i" by (intro power_increasing) auto
    moreover have "0 < n" using 1(3) \<open>\<not> i < 32\<close> by auto
    then have "2 ^ i \<le> n * 2 ^ i" by simp
    ultimately have "(2 :: nat) ^ 32 < 2 ^ 31" using 1(2) by (meson le_less_trans order_trans)
    then show False by simp
  qed
  have le: "n mod 128 * 2 ^ i \<le> n * 2 ^ i" by simp
  have u: "unat (of_nat n :: byte) mod 128 = n mod 128"
    by (simp add: unat_of_nat mod_mod_cancel)
  show ?case
  proof (cases "n div 128 = 0")
    case True
    then have n: "n < 128" by (simp add: div_eq_0_iff)
    then have "\<not> bit (of_nat n :: byte) 7" by (simp add: bit7_unat unat_of_nat)
    then have "(of_nat n :: byte) AND 0x80 = 0" using byte_and_128 by blast
    with True n i 1(2) u show ?thesis
      by (simp add: hdr_bytes.simps [of n] byte_low7 del: unsigned_and_eq)
  next
    case False
    have e: "n mod 128 + n div 128 * 128 = n" by simp
    have "n div 128 * 2 ^ (i + 7) \<le> n * 2 ^ i"
    proof -
      have "n div 128 * 2 ^ (i + 7) = (n div 128 * 128) * 2 ^ i" by (simp add: power_add)
      also have "\<dots> \<le> n * 2 ^ i" by (intro mult_right_mono) auto
      finally show ?thesis .
    qed
    then have "n div 128 * 2 ^ (i + 7) < 2 ^ 31" using 1(2) by linarith
    then have IH: "hdr_loop (hdr_bytes (n div 128) @ rest) (sz + n mod 128 * 2 ^ i) (i + 7) =
        Val (sz + n mod 128 * 2 ^ i + n div 128 * 2 ^ (i + 7), rest)"
      using 1(1) False by auto
    have "sz + a * 2 ^ i + b * 2 ^ (i + 7) = sz + (a + b * 128) * 2 ^ i" for a b :: nat
      by (simp add: power_add algebra_simps)
    then have s: "sz + n mod 128 * 2 ^ i + n div 128 * 2 ^ (i + 7) = sz + n * 2 ^ i" by (simp only: e)
    have b: "((of_nat n :: byte) OR 0x80) AND 0x80 \<noteq> 0" using byte_and_128 bit7_or by blast
    show ?thesis
      using False i le_less_trans [OF le 1(2)] IH b by (simp add: hdr_bytes.simps [of n] low7_or u s not_le del: unsigned_and_eq unsigned_or_eq)
  qed
qed

lemma get_delta_hdr_size_bytes [codec]:
  "n < 2 ^ 31 \<Longrightarrow> get_delta_hdr_size (hdr_bytes n @ rest) = Val (n, rest)"
  using hdr_loop_bytes [of n 0 rest 0] by (simp add: get_delta_hdr_size_def)


section \<open>Copy commands\<close>

text \<open>The command announces exactly the operands that are not zero.\<close>

lemma operands_scale: "operands vs (2 * m) = (2 * fst (operands vs m), snd (operands vs m))"
proof (induction vs arbitrary: m)
  case (Cons v vs)
  show ?case using Cons [of "2 * m"] by (auto split: prod.splits)
qed simp

lemma operands_bits:
  "fst (operands vs 1) < 2 ^ length vs \<and> (\<forall>j<length vs. bit (fst (operands vs 1)) j \<longleftrightarrow> vs ! j \<noteq> 0)"
proof (induction vs)
  case (Cons v vs)
  let ?c = "fst (operands vs 1)"
  have c: "fst (operands (v # vs) 1) = of_bool (v \<noteq> 0) + 2 * ?c"
    using operands_scale [of vs 1] by (simp split: prod.splits)
  have "bit (of_bool (v \<noteq> 0) + 2 * ?c) j \<longleftrightarrow> (v # vs) ! j \<noteq> 0" if "j < Suc (length vs)" for j
    using that Cons by (cases j) (simp_all add: bit_0 bit_Suc)
  then show ?case using Cons unfolding c by auto
qed simp

lemma get_operands_bytes:
  assumes "\<forall>j<length vs. bit (c :: byte) (k + j) \<longleftrightarrow> vs ! j \<noteq> 0" "\<forall>v\<in>set vs. v < 256"
  shows "get_operands c [k..<k + length vs] (snd (operands vs m) @ rest) = Val (vs, rest)"
  using assms
proof (induction vs arbitrary: k m)
  case (Cons v vs)
  define us where "us = [Suc k..<Suc k + length vs]"
  have IH: "get_operands c us (snd (operands vs (2 * m)) @ rest) = Val (vs, rest)"
    unfolding us_def using Cons.prems by (intro Cons.IH) force+
  have up: "[k..<k + length (v # vs)] = k # us" by (simp add: us_def upt_rec)
  have "bit c k \<longleftrightarrow> v \<noteq> 0" using Cons.prems(1) by force
  moreover have "unat (of_nat v :: byte) = v" using Cons.prems(2) by (simp add: unat_of_nat)
  moreover have "snd (operands (v # vs) m) = (if v = 0 then [] else [of_nat v]) @ snd (operands vs (2 * m))"
    by (simp split: prod.splits)
  ultimately show ?case
    unfolding up using IH by (cases "v = 0") (simp_all add: get_operands.simps del: operands.simps)
qed (simp add: get_operands.simps)

lemma upt_6: "[0..<0 + length [v0, v1, v2, v3, v4, v5 :: nat]] = [0, 1, 2, 3, 4, 5]"
  by (simp add: upt_rec)

lemma command_bits:
  assumes "cmd < 64"
  shows "j < 6 \<Longrightarrow> bit (of_nat (0x80 + cmd) :: byte) j \<longleftrightarrow> bit cmd j"
    "bit (of_nat (0x80 + cmd) :: byte) 7" "\<not> bit (of_nat (0x80 + cmd) :: byte) 6"
proof -
  let ?c = "of_nat (0x80 + cmd) :: byte"
  have u: "unat ?c = 128 + cmd" by (subst unat_of_nat) (use assms in simp)
  have b: "bit ?c j \<longleftrightarrow> bit (128 + cmd) j" for j
    using bit_unsigned_iff [of ?c j, where 'a = nat] u by simp
  have d: "(128 + cmd) div 2 ^ j = 2 ^ (7 - j) + cmd div 2 ^ j" if "j \<le> 7" for j
  proof -
    have "(128 :: nat) = 2 ^ (7 - j) * 2 ^ j" using that by (simp flip: power_add)
    then show ?thesis by (metis div_mult_self3 power_not_zero zero_neq_numeral add.commute mult.commute)
  qed
  show "bit ?c j \<longleftrightarrow> bit cmd j" if "j < 6" using b d [of j] that by (simp add: bit_iff_odd)
  show "bit ?c 7" unfolding b using d [of 7] assms by (simp add: bit_iff_odd)
  show "\<not> bit ?c 6" unfolding b using d [of 6] assms by (simp add: bit_iff_odd)
qed

lemma offset_bytes:
  assumes "n < (2 ^ 31 :: nat)"
  shows "n mod 256 + n div 256 mod 256 * 256 + n div 65536 mod 256 * 65536 + n div 16777216 mod 256 * 16777216 = n"
    "n div 16777216 mod 256 < 128"
proof -
  define q1 q2 q3 where "q1 = n div 256" and "q2 = n div 65536" and "q3 = n div 16777216"
  have q: "q2 = q1 div 256" "q3 = q2 div 256"
    by (simp_all add: q1_def q2_def q3_def div_mult2_eq [symmetric])
  have q3: "q3 < 128" unfolding q3_def using assms by (intro less_mult_imp_div_less) simp
  then show "n div 16777216 mod 256 < 128" by (simp add: q3_def)
  have "q1 * 256 + n mod 256 = n" "q2 * 256 + q1 mod 256 = q1" "q3 * 256 + q2 mod 256 = q2" "q3 mod 256 = q3"
    using q3 by (simp_all add: q1_def q)
  then show "n mod 256 + n div 256 mod 256 * 256 + n div 65536 mod 256 * 65536 +
      n div 16777216 mod 256 * 16777216 = n"
    unfolding q1_def [symmetric] q2_def [symmetric] q3_def [symmetric] by linarith
qed

lemma size_bytes:
  assumes "0 < n" "n \<le> (0x10000 :: nat)"
  shows "(if n mod 256 + n div 256 mod 256 * 256 = 0 then 0x10000 else n mod 256 + n div 256 mod 256 * 256) = n"
proof (cases "n = 0x10000")
  case False
  then have "n div 256 < 256" using assms(2) by (intro less_mult_imp_div_less) simp
  then have "n mod 256 + n div 256 mod 256 * 256 = n" by simp
  with assms(1) show ?thesis by simp
qed simp

lemma copy_bytes_val:
  assumes "vs ! 0 + vs ! 1 * 256 + vs ! 2 * 65536 + vs ! 3 * 16777216 = off"
    "(if vs ! 4 + vs ! 5 * 256 = 0 then 0x10000 else vs ! 4 + vs ! 5 * 256) = n"
    "\<not> bit cmd 6" "vs ! 3 < 128" "off + n \<le> length src" "length out + n \<le> sz"
  shows "copy_bytes src sz cmd vs out = Val (out @ take n (drop off src))"
  unfolding copy_bytes_def Let_def assms(1,2) using assms(3-6) by simp

lemma patch_step_copy_op:
  assumes "moff + msize \<le> length src" "length src < 2 ^ 31" "0 < msize" "msize \<le> 0x10000" "length out + msize \<le> sz"
  shows "patch_loop src sz (copy_op moff msize @ rest) out = patch_loop src sz rest (out @ take msize (drop moff src))"
proof -
  let ?vs = "[moff mod 256, moff div 256 mod 256, moff div 65536 mod 256, moff div 16777216 mod 256,
      msize mod 256, msize div 256 mod 256]"
  obtain cmd bs where o: "operands ?vs 1 = (cmd, bs)" by fastforce
  have cmd: "cmd < 64" "\<forall>j<6. bit cmd j \<longleftrightarrow> ?vs ! j \<noteq> 0"
    using operands_bits [of ?vs] o by auto
  let ?c = "of_nat (0x80 + cmd) :: byte"
  have "get_operands ?c [0..<0 + length ?vs] (snd (operands ?vs 1) @ rest) = Val (?vs, rest)"
    using cmd command_bits(1) [OF cmd(1)] by (intro get_operands_bytes) auto
  then have g: "get_operands ?c [0, 1, 2, 3, 4, 5] (bs @ rest) = Val (?vs, rest)"
    unfolding upt_6 o by simp
  note off = offset_bytes [of moff] and sz = size_bytes [OF assms(3,4)]
  have "copy_bytes src sz ?c ?vs out = Val (out @ take msize (drop moff src))"
    using off command_bits(3) [OF cmd(1)] assms(1,2,5) sz
    by (intro copy_bytes_val) (simp_all split: if_splits)
  with g command_bits [OF cmd(1)] have "patch_step src sz ?c (bs @ rest) out = Val (out @ take msize (drop moff src), rest)"
    by (simp add: patch_step_def)
  then show ?thesis using o by (simp add: copy_op_def)
qed

lemma length_operands: "length (snd (operands vs m)) = sum_list (map nz vs)"
  by (induction vs arbitrary: m) (auto simp: nz_def split: prod.splits, metis snd_conv)

lemma length_copy_op: "length (copy_op moff msize) = COPYOP_SIZE moff msize"
  using length_operands [of "[moff mod 256, moff div 256 mod 256, moff div 65536 mod 256, moff div 16777216 mod 256,
    msize mod 256, msize div 256 mod 256]" 1]
  by (simp add: copy_op_def COPYOP_SIZE_def case_prod_unfold del: operands.simps)


section \<open>Matches\<close>

lemma match_len_take: "take (match_len xs ys) xs = take (match_len xs ys) ys \<and>
  match_len xs ys \<le> length xs \<and> match_len xs ys \<le> length ys"
  by (induction xs ys rule: match_len.induct) auto

text \<open>What a match found by \<^verbatim>\<open>diff_delta\<close> promises, whichever block it started from.\<close>

definition true_match :: "bytes \<Rightarrow> bytes \<Rightarrow> nat \<times> nat \<Rightarrow> bool" where
  "true_match src data m \<longleftrightarrow> (case m of (moff, msize) \<Rightarrow> msize = 0 \<or>
     moff + msize \<le> length src \<and> msize \<le> 0x10000 \<and> msize \<le> length data \<and>
     take msize (drop moff src) = take msize data)"

lemma true_match_prefix:
  assumes "k \<le> match_len (drop p src) data" "k \<le> 0x10000"
  shows "true_match src data (p, k)"
proof -
  let ?n = "match_len (drop p src) data"
  note t = match_len_take [of "drop p src" data]
  have "take k (drop p src) = take k (take ?n (drop p src))" using assms(1) by (simp add: min_absorb1)
  also have "\<dots> = take k (take ?n data)" using t by simp
  also have "\<dots> = take k data" using assms(1) by (simp add: min_absorb1)
  finally have "take k (drop p src) = take k data" .
  moreover have "k \<le> length src - p" "k \<le> length data" using t assms(1) by simp_all
  ultimately show ?thesis using assms(2) by (cases "k = 0") (simp_all add: true_match_def)
qed

lemma best_match_true: "true_match src data m \<Longrightarrow> true_match src data (best_match src data f bs m)"
proof (induction bs arbitrary: m)
  case (Cons b bs)
  obtain moff msize where m: "m = (moff, msize)" by fastforce
  let ?n = "match_len (drop (ptr b) src) data"
  show ?case
  proof (cases "fp b = f \<and> msize < ?n")
    case True
    then show ?thesis
      using Cons.IH [OF true_match_prefix [of ?n "ptr b" src data]] true_match_prefix [of "0x10000" "ptr b" src data]
      by (cases "0x10000 \<le> ?n") (simp_all add: m Let_def)
  next
    case False
    then have "best_match src data f (b # bs) m = best_match src data f bs m" by (auto simp: m Let_def)
    with Cons show ?thesis by simp
  qed
qed simp

section \<open>Output\<close>

text \<open>
  The state of the main loop: a header, commands that reproduce \<open>got0\<close>, and literals that still wait
  for their count.
\<close>

definition delta_inv :: "bytes \<Rightarrow> nat \<Rightarrow> bytes \<Rightarrow> bytes \<Rightarrow> nat \<Rightarrow> bytes \<Rightarrow> bool" where
  "delta_inv src sz hdr out inscnt got \<longleftrightarrow>
     (\<exists>ops lits got0 x. out = hdr @ ops @ (if lits = [] then [] else x # lits) \<and> inscnt = length lits \<and>
        length lits < 127 \<and> got = got0 @ lits \<and>
        (\<forall>rest. patch_loop src sz (ops @ rest) [] = patch_loop src sz rest got0))"

lemma delta_inv_closed:
  assumes "\<And>rest. patch_loop src sz (ops @ rest) [] = patch_loop src sz rest got"
  shows "delta_inv src sz hdr (hdr @ ops) 0 got"
proof -
  show ?thesis
    unfolding delta_inv_def
    by (rule exI [of _ ops], rule exI [of _ "[]"], rule exI [of _ got], rule exI [of _ 0]) (use assms in simp)
qed

lemma patch_literals:
  assumes "0 < length lits" "length lits < 128" "length out + length lits \<le> sz"
  shows "patch_loop src sz (of_nat (length lits) # lits @ rest) out = patch_loop src sz rest (out @ lits)"
proof -
  have u: "unat (of_nat (length lits) :: byte) = length lits" using assms(2) by (simp add: unat_of_nat)
  then have "\<not> bit (of_nat (length lits) :: byte) 7" using assms(2) by (simp add: bit7_unat)
  with u assms(3) show ?thesis by (simp add: patch_step_def)
qed

lemma close_insert_append:
  "close_insert (length lits) (pre @ (if lits = [] then [] else x # lits)) =
   pre @ (if lits = [] then [] else of_nat (length lits) # lits)"
  by (auto simp: close_insert_def list_update_append)

lemma delta_inv_close:
  assumes "delta_inv src sz hdr out inscnt got" "length got \<le> sz"
  obtains ops where "close_insert inscnt out = hdr @ ops" "length (close_insert inscnt out) = length out"
    "\<And>rest. patch_loop src sz (ops @ rest) [] = patch_loop src sz rest got"
proof -
  obtain ops lits got0 x where i: "out = (hdr @ ops) @ (if lits = [] then [] else x # lits)"
      "inscnt = length lits" "length lits < 127" "got = got0 @ lits"
      "\<And>rest. patch_loop src sz (ops @ rest) [] = patch_loop src sz rest got0"
    using assms(1) unfolding delta_inv_def by auto
  let ?ops = "ops @ (if lits = [] then [] else of_nat (length lits) # lits)"
  have "close_insert inscnt out = hdr @ ?ops" unfolding i(1,2) close_insert_append by simp
  moreover have "patch_loop src sz (?ops @ rest) [] = patch_loop src sz rest got" for rest
    using i assms(2) patch_literals [of lits got0 sz src rest] by simp
  moreover have "length (close_insert inscnt out) = length out" by (simp add: close_insert_def)
  ultimately show thesis using that by blast
qed

lemma delta_inv_copy:
  assumes "delta_inv src sz hdr out inscnt got" "true_match src data (moff, msize)" "0 < msize"
    "length src < 2 ^ 31" "length got + length data \<le> sz" "length out + COPYOP_SIZE moff msize \<le> outsize"
  shows "\<exists>out1. add_copy outsize moff msize out inscnt = Val (out1, 0) \<and>
    delta_inv src sz hdr out1 0 (got @ take msize data) \<and> length out1 = length out + COPYOP_SIZE moff msize"
proof -
  have got: "length got \<le> sz" using assms(5) by simp
  obtain ops where o: "close_insert inscnt out = hdr @ ops" "length (close_insert inscnt out) = length out"
      "\<And>rest. patch_loop src sz (ops @ rest) [] = patch_loop src sz rest got"
    by (rule delta_inv_close [OF assms(1) got]) blast
  have m: "moff + msize \<le> length src" "msize \<le> 0x10000" "msize \<le> length data"
      "take msize (drop moff src) = take msize data"
    using assms(2,3) by (auto simp: true_match_def)
  let ?out = "close_insert inscnt out @ copy_op moff msize"
  have "add_copy outsize moff msize out inscnt = Val (?out, 0)"
    using o(2) assms(6) by (simp add: add_copy_def emits_ok length_copy_op)
  moreover have "patch_loop src sz ((ops @ copy_op moff msize) @ rest) [] = patch_loop src sz rest (got @ take msize data)"
    for rest
    using o(3) patch_step_copy_op [OF m(1) assms(4,3) m(2), of got sz rest] m(3,4) assms(5) by simp
  then have "delta_inv src sz hdr ?out 0 (got @ take msize data)"
    using delta_inv_closed [of src sz "ops @ copy_op moff msize"] o(1) by simp
  moreover have "length ?out = length out + COPYOP_SIZE moff msize" using o(2) by (simp add: length_copy_op)
  ultimately show ?thesis by blast
qed

lemma delta_inv_literal:
  assumes "delta_inv src sz hdr out inscnt got" "length got < sz" "length out + 2 \<le> outsize"
  shows "\<exists>out1 inscnt1. add_literal outsize c out inscnt = Val (out1, inscnt1) \<and>
    delta_inv src sz hdr out1 inscnt1 (got @ [c]) \<and> length out1 \<le> length out + 2"
proof -
  obtain ops lits got0 x where i: "out = hdr @ ops @ (if lits = [] then [] else x # lits)"
      "inscnt = length lits" "length lits < 127" "got = got0 @ lits"
      "\<And>rest. patch_loop src sz (ops @ rest) [] = patch_loop src sz rest got0"
    using assms(1) unfolding delta_inv_def by auto
  let ?y = "if lits = [] then 0 else x" and ?lits = "lits @ [c]"
  let ?out = "(hdr @ ops) @ ?y # ?lits"
  have e: "emits outsize (if inscnt = 0 then [0, c] else [c]) out = Val ?out"
    using emits_ok [of out "if inscnt = 0 then [0, c] else [c]" outsize] assms(3) i(1,2) by auto
  have inv: "delta_inv src sz hdr ?out (length ?lits) (got @ [c])" if "length ?lits < 127"
    unfolding delta_inv_def using i that
    by (intro exI [of _ ops] exI [of _ ?lits] exI [of _ got0] exI [of _ ?y]) auto
  show ?thesis
  proof (cases "inscnt + 1 = 0x7f")
    case False
    then have "add_literal outsize c out inscnt = Val (?out, length ?lits)" using e i(2) by (simp add: add_literal_def)
    moreover have "length ?out \<le> length out + 2" using i(1) by auto
    ultimately show ?thesis using inv False i(2,3) by auto
  next
    case True
    have "close_insert (length ?lits) ?out = (hdr @ ops) @ of_nat (length ?lits) # ?lits"
      using close_insert_append [of ?lits "hdr @ ops" ?y] by simp
    moreover have n: "length ?lits = 0x7f" using True i(2) by simp
    ultimately have a: "add_literal outsize c out inscnt = Val ((hdr @ ops) @ of_nat (length ?lits) # ?lits, 0)"
      using e True by (simp add: add_literal_def)
    have "patch_loop src sz ((ops @ of_nat (length ?lits) # ?lits) @ rest) [] = patch_loop src sz rest (got @ [c])" for rest
      using i(4,5) patch_literals [of ?lits got0 sz src rest] n assms(2) by simp
    then have "delta_inv src sz hdr ((hdr @ ops) @ of_nat (length ?lits) # ?lits) 0 (got @ [c])"
      using delta_inv_closed [of src sz "ops @ of_nat (length ?lits) # ?lits"] by simp
    with a i(1) show ?thesis by fastforce
  qed
qed


section \<open>The main loop\<close>

lemma nz_le: "nz b \<le> 1"
  by (simp add: nz_def)

lemma COPYOP_SIZE_le: "COPYOP_SIZE moff msize \<le> 7"
proof -
  have "COPYOP_SIZE moff msize \<le> 1 + 1 + 1 + 1 + 1 + 1 + 1"
    unfolding COPYOP_SIZE_def by (intro add_mono nz_le order_refl)
  then show ?thesis by simp
qed

text \<open>What the loop may return: never an access out of range, and null only for a reason.\<close>

definition delta_result :: "(nat \<Rightarrow> bool) \<Rightarrow> nat \<Rightarrow> bytes \<Rightarrow> nat \<Rightarrow> bytes \<Rightarrow> bytes \<Rightarrow> bytes res \<Rightarrow> bool" where
  "delta_result malloc max_size src sz hdr to r \<longleftrightarrow>
     (case r of Oob \<Rightarrow> False | Null \<Rightarrow> 0 < max_size \<or> (\<exists>n. \<not> malloc n)
      | Val d \<Rightarrow> \<exists>ops. d = hdr @ ops \<and> (\<forall>rest. patch_loop src sz (ops @ rest) [] = patch_loop src sz rest to))"

text \<open>One turn of the loop: the choice between a literal and a copy, and what follows the operation.\<close>

definition diff_rest :: "(nat \<Rightarrow> bool) \<Rightarrow> bdfile \<Rightarrow> nat \<Rightarrow> bytes \<Rightarrow> nat \<Rightarrow> nat \<Rightarrow> bytes \<times> nat \<Rightarrow> bytes res" where
  "diff_rest malloc bdf max_size data outsize moff = (\<lambda>(out1, inscnt1).
     if 0 < max_size \<and> max_size < length out1 then Null
     else if outsize - 8 < length out1 then
       (if 2 ^ 31 \<le> outsize * 3 then Oob
        else if malloc (outsize * 3 div 2) then diff_loop malloc bdf max_size data out1 (outsize * 3 div 2) inscnt1 moff
        else Null)
     else diff_loop malloc bdf max_size data out1 outsize inscnt1 moff)"

lemma diff_loop_turn:
  assumes "bdata bdf = src" "data \<noteq> []"
  obtains (literal) moff where "diff_loop malloc bdf max_size data out outsize inscnt moff0 =
      bindR (add_literal outsize (hd data) out inscnt) (diff_rest malloc bdf max_size (drop 1 data) outsize moff)"
  | (copy) moff msize where "true_match src data (moff, msize)" "0 < msize" "COPYOP_SIZE moff msize \<le> msize"
    "diff_loop malloc bdf max_size data out outsize inscnt moff0 =
      bindR (add_copy outsize moff msize out inscnt) (diff_rest malloc bdf max_size (drop msize data) outsize moff)"
proof -
  let ?f = "adler32 0 (take BLK_SIZE data)"
  obtain moff msize where b: "best_match (bdata bdf) data ?f (fphash bdf ! HASH ?f (fphbits bdf)) (moff0, 0) = (moff, msize)"
    by fastforce
  have "true_match src data (moff0, 0)" by (simp add: true_match_def)
  from best_match_true [OF this, of ?f "fphash bdf ! HASH ?f (fphbits bdf)"]
  have tm: "true_match src data (moff, msize)" using b assms(1) by simp
  have e: "diff_loop malloc bdf max_size data out outsize inscnt moff0 =
    (let lit = (msize = 0 \<or> msize < COPYOP_SIZE moff msize); n = (if lit then 1 else msize) in
     bindR (if lit then add_literal outsize (hd data) out inscnt else add_copy outsize moff msize out inscnt)
       (diff_rest malloc bdf max_size (drop n data) outsize moff))"
    by (subst diff_loop.simps) (simp add: assms(2) b diff_rest_def Let_def)
  show thesis
  proof (cases "msize = 0 \<or> msize < COPYOP_SIZE moff msize")
    case True
    then show ?thesis using e literal [of moff] by simp
  next
    case False
    then show ?thesis using e tm copy [of moff msize] by simp
  qed
qed

lemma delta_result_Null:
  "delta_result malloc max_size src sz hdr to Null \<longleftrightarrow> 0 < max_size \<or> (\<exists>n. \<not> malloc n)"
  by (simp add: delta_result_def)

lemma diff_rest_spec:
  assumes "8192 \<le> outsize" "length out1 \<le> outsize" "outsize - 8 < length out1 \<longrightarrow> outsize * 3 < 2 ^ 31"
    and "\<And>outsize1. 8192 \<le> outsize1 \<Longrightarrow> length out1 + 8 \<le> outsize1 \<Longrightarrow>
      delta_result malloc max_size src sz hdr to (diff_loop malloc bdf max_size data out1 outsize1 inscnt1 moff)"
  shows "delta_result malloc max_size src sz hdr to (diff_rest malloc bdf max_size data outsize moff (out1, inscnt1))"
proof -
  have "delta_result malloc max_size src sz hdr to (diff_loop malloc bdf max_size data out1 (outsize * 3 div 2) inscnt1 moff)"
    using assms(1,2) by (intro assms(4)) auto
  moreover have "delta_result malloc max_size src sz hdr to (diff_loop malloc bdf max_size data out1 outsize inscnt1 moff)"
    if "\<not> outsize - 8 < length out1" using assms(1) that by (intro assms(4)) auto
  moreover have "\<not> 2 ^ 31 \<le> outsize * 3" if "outsize - 8 < length out1" using assms(3) that by linarith
  ultimately show ?thesis unfolding diff_rest_def prod.case by (auto simp: delta_result_Null)
qed

lemma diff_loop_spec:
  assumes "bdata bdf = src" "length src < 2 ^ 31" "length to < 2 ^ 27" "sz = length to"
    and "delta_inv src sz hdr out inscnt got" "got @ data = to" "8192 \<le> outsize" "length out + 8 \<le> outsize"
    and "length out \<le> 20 + 2 * length got"
  shows "delta_result malloc max_size src sz hdr to (diff_loop malloc bdf max_size data out outsize inscnt moff0)"
  using assms(5-)
proof (induction "length data" arbitrary: data out outsize inscnt moff0 got rule: less_induct)
  case less
  have sz: "length got + length data = sz" using less.prems(2) assms(4) by auto
  have go: "delta_result malloc max_size src sz hdr to (diff_rest malloc bdf max_size (drop n data) outsize moff (out1, inscnt1))"
    if "0 < n" "n \<le> length data" "delta_inv src sz hdr out1 inscnt1 (got @ take n data)"
      "length out1 \<le> length out + 7" "length out1 \<le> length out + 2 * n" for n moff out1 inscnt1
  proof (rule diff_rest_spec [OF less.prems(3)])
    have len: "length out1 \<le> 20 + 2 * length (got @ take n data)" using that(2,5) less.prems(5) by simp
    show "length out1 \<le> outsize" using that(4) less.prems(4) by linarith
    have "length out1 < 2 ^ 28 + 20" using that(2) len sz assms(3,4) by simp
    then show "outsize - 8 < length out1 \<longrightarrow> outsize * 3 < 2 ^ 31" by auto
    show "delta_result malloc max_size src sz hdr to (diff_loop malloc bdf max_size (drop n data) out1 outsize1 inscnt1 moff)"
      if "8192 \<le> outsize1" "length out1 + 8 \<le> outsize1" for outsize1
    proof (rule less.hyps)
      show "length (drop n data) < length data" using \<open>0 < n\<close> \<open>n \<le> length data\<close> by simp
      show "(got @ take n data) @ drop n data = to" using less.prems(2) by simp
    qed (fact len that \<open>delta_inv src sz hdr out1 inscnt1 (got @ take n data)\<close>)+
  qed
  show ?case
  proof (cases "data = []")
    case True
    have "length got \<le> sz" using sz by simp
    then obtain ops where "close_insert inscnt out = hdr @ ops"
        "\<And>rest. patch_loop src sz (ops @ rest) [] = patch_loop src sz rest got"
      using delta_inv_close [OF less.prems(1)] by blast
    then show ?thesis using True less.prems(2) by (simp add: diff_loop.simps [of _ _ _ "[]"] delta_result_def)
  next
    case False
    from assms(1) False show ?thesis
    proof (cases rule: diff_loop_turn [where malloc = malloc and max_size = max_size and out = out
          and outsize = outsize and inscnt = inscnt and ?moff0.0 = moff0])
      case (literal moff)
      have pos: "length got < sz" "length out + 2 \<le> outsize" using sz False less.prems(4) by (auto simp: length_greater_0_conv)
      obtain o1 i1 where l: "add_literal outsize (hd data) out inscnt = Val (o1, i1)"
          "delta_inv src sz hdr o1 i1 (got @ [hd data])" "length o1 \<le> length out + 2"
        using delta_inv_literal [OF less.prems(1) pos] by blast
      have "take 1 data = [hd data]" "1 \<le> length data" using False by (cases data; simp)+
      then show ?thesis using go [of 1 o1 i1 moff] l literal by simp
    next
      case (copy moff msize)
      have fit: "length got + length data \<le> sz" "length out + COPYOP_SIZE moff msize \<le> outsize"
        using sz less.prems(4) COPYOP_SIZE_le [of moff msize] by auto
      obtain o1 where c: "add_copy outsize moff msize out inscnt = Val (o1, 0)"
          "delta_inv src sz hdr o1 0 (got @ take msize data)" "length o1 = length out + COPYOP_SIZE moff msize"
        using delta_inv_copy [OF less.prems(1) copy(1,2) assms(2) fit] by blast
      moreover have "msize \<le> length data" using copy(1) by (auto simp: true_match_def)
      ultimately show ?thesis using go [of msize o1 0 moff] copy COPYOP_SIZE_le [of moff msize] by simp
    qed
  qed
qed

section \<open>The round trip\<close>

text \<open>A delta of one command cannot make anything, but for a copy of 0x10000 bytes.\<close>

lemma get_operands_none:
  "get_operands cmd ks [] = Val (vs, rest) \<Longrightarrow> vs = replicate (length ks) 0 \<and> rest = []"
  by (induction ks arbitrary: vs rest) (auto simp: get_operands.simps bindR_Val_iff split: if_splits)

lemma one_command_delta:
  assumes "patch_loop src sz [cmd] [] = Val to" "to \<noteq> []"
  shows "65536 \<le> length to"
proof -
  obtain out' rest where s: "patch_step src sz cmd [] [] = Val (out', rest)" "patch_loop src sz rest out' = Val to"
    using assms(1) by (auto split: res.splits prod.splits)
  show ?thesis
  proof (cases "bit cmd 7")
    case True
    then obtain vs where v: "get_operands cmd [0, 1, 2, 3, 4, 5] [] = Val (vs, rest)"
        "copy_bytes src sz cmd vs [] = Val out'"
      using s(1) by (auto simp: patch_step_def bindR_Val_iff)
    have r: "vs = [0, 0, 0, 0, 0, 0]" "rest = []" using get_operands_none [OF v(1)] by simp_all
    have "65536 \<le> length out'"
      using v(2) unfolding r(1) copy_bytes_def by (auto simp: Let_def split: if_splits)
    then show ?thesis using s(2) r(2) by (auto split: if_splits)
  next
    case False
    then have "out' = [] \<and> rest = []" using s(1) by (auto simp: patch_step_def split: if_splits)
    then show ?thesis using s(2) assms(2) by (auto split: if_splits)
  qed
qed

lemma hdr_bytes_length_ge: "1 \<le> length (hdr_bytes n)" "128 \<le> n \<Longrightarrow> 2 \<le> length (hdr_bytes n)"
  "16384 \<le> n \<Longrightarrow> 3 \<le> length (hdr_bytes n)"
proof -
  show one: "1 \<le> length (hdr_bytes n)" for n by (simp add: hdr_bytes.simps [of n])
  show two: "2 \<le> length (hdr_bytes n)" if "128 \<le> n" for n
    using that one [of "n div 128"] by (simp add: hdr_bytes.simps [of n] div_eq_0_iff)
  show "3 \<le> length (hdr_bytes n)" if "16384 \<le> n"
  proof -
    have "128 \<le> n div 128" using div_le_mono [OF that, of 128] by simp
    then show ?thesis using that two [of "n div 128"] by (simp add: hdr_bytes.simps [of n] div_eq_0_iff)
  qed
qed

lemma hdr_bytes_length_le: "n < 128 ^ Suc k \<Longrightarrow> length (hdr_bytes n) \<le> Suc k"
proof (induction k arbitrary: n)
  case 0
  then show ?case by (simp add: hdr_bytes.simps [of n] div_eq_0_iff)
next
  case (Suc k)
  have "n div 128 < 128 ^ Suc k" using Suc.prems by (simp add: less_mult_imp_div_less mult.commute)
  then show ?case using Suc.IH [of "n div 128"] by (simp add: hdr_bytes.simps [of n])
qed

lemma delta_prepare_bdata: "delta_prepare malloc buf = Some bdf \<Longrightarrow> bdata bdf = buf"
  by (auto simp: delta_prepare_def Let_def split: if_splits)

lemma patch_delta_result:
  assumes "\<And>rest. patch_loop from (length to) (ops @ rest) [] = patch_loop from (length to) rest to"
    and "to \<noteq> []" "length from < 2 ^ 31" "length to < 2 ^ 31" "malloc (length to)"
  shows "patch_delta malloc from (hdr_bytes (length from) @ hdr_bytes (length to) @ ops) = Val to"
proof -
  have p: "patch_loop from (length to) ops [] = Val to" using assms(1) [of "[]"] by simp
  have "4 \<le> length (hdr_bytes (length from)) + length (hdr_bytes (length to)) + length ops"
  proof (cases "length ops \<le> 1")
    case True
    then consider "ops = []" | cmd where "ops = [cmd]" by (cases ops) auto
    then show ?thesis
    proof cases
      case 1
      then show ?thesis using p assms(2) by (auto split: if_splits)
    next
      case 2
      then have "65536 \<le> length to" using one_command_delta p assms(2) by blast
      then show ?thesis using hdr_bytes_length_ge [of "length to"] hdr_bytes_length_ge [of "length from"] by linarith
    qed
  next
    case False
    then show ?thesis using hdr_bytes_length_ge [of "length to"] hdr_bytes_length_ge [of "length from"] by linarith
  qed
  then show ?thesis
    using assms(3-5) p by (simp add: patch_delta_def DELTA_SIZE_MIN_def get_delta_hdr_size_bytes)
qed

lemma diff_delta_result:
  assumes "from \<noteq> []" "to \<noteq> []" "length from < 2 ^ 31" "length to < 2 ^ 27"
  shows "delta_result malloc max_size from (length to) (hdr_bytes (length from) @ hdr_bytes (length to)) to
    (diff_delta malloc from to max_size)"
proof (cases "delta_prepare malloc from = None \<or> \<not> malloc 8192")
  case True
  have "\<exists>n. \<not> malloc n"
  proof (rule ccontr)
    assume "\<nexists>n. \<not> malloc n"
    then have "cha_alloc malloc cha \<noteq> None" for cha by (simp add: cha_alloc_def)
    then have "prepare_blocks malloc buf bits offs cha h \<noteq> None" for buf bits offs cha h
      by (induction offs arbitrary: cha h) (auto simp: Let_def split: option.splits)
    then show False using True \<open>\<nexists>n. \<not> malloc n\<close> by (simp add: delta_prepare_def Let_def del: not_None_eq)
  qed
  then show ?thesis using True assms(1,2)
    by (cases "delta_prepare malloc from") (auto simp: diff_delta_def delta_result_def)
next
  case False
  then obtain bdf where b: "delta_prepare malloc from = Some bdf" "malloc 8192" by auto
  let ?hdr = "hdr_bytes (length from) @ hdr_bytes (length to)"
  have "length from < 128 ^ Suc 4" "length to < 128 ^ Suc 4" using assms(3,4) by simp_all
  then have l: "length ?hdr \<le> 20" using hdr_bytes_length_le [of "length from" 4] hdr_bytes_length_le [of "length to" 4] by simp
  have "delta_inv from (length to) ?hdr (?hdr @ []) 0 []" by (rule delta_inv_closed) simp
  then have "delta_result malloc max_size from (length to) ?hdr to (diff_loop malloc bdf max_size to ?hdr 8192 0 0)"
    using diff_loop_spec [OF delta_prepare_bdata [OF b(1)] assms(3,4) refl, of ?hdr ?hdr 0 "[]" to 8192] l by simp
  moreover have "emits 8192 ?hdr [] = Val ?hdr" using emits_ok [of "[]" ?hdr 8192] l by simp
  ultimately show ?thesis using b assms(1,2) by (simp add: diff_delta_def)
qed

lemma adler32_short:
  assumes "buf \<noteq> []" "length buf \<le> NMAX"
  shows "adler32 0 buf = (case fold DO1 buf (0, 0) of (s1, s2) \<Rightarrow> push_bit 16 (s2 mod BASE) OR (s1 mod BASE))"
  using assms
  by (simp add: adler32_def adler_loop.simps [of _ buf] adler_loop.simps [of _ "[]"] min_def split: prod.splits)

lemmas eval_diff = diff_delta_def delta_prepare_def adler32_short NMAX_def BLK_SIZE_def DO1_def BASE_def GR_PRIME_def HASH_def
  hashbits_def hashbits_loop.simps cha_init_def cha_alloc_def hdr_bytes.simps emit_def close_insert_def add_literal_def
  add_copy_def copy_op_def COPYOP_SIZE_def nz_def diff_loop.simps [of _ _ _ "[]"] diff_loop.simps [of _ _ _ "c # d" for c d]

text \<open>
  C9: For buffers of sensible size, \<^verbatim>\<open>diff_delta\<close> never reads or writes outside of a buffer, gives up
  only because of the size limit of the caller or because memory runs out, and what it makes is a delta from which
  \<^verbatim>\<open>patch_delta\<close> recreates the target from the source.
\<close>

theorem diff_patch_round_trip:
  assumes "from \<noteq> []" "to \<noteq> []" "length from < 2 ^ 31" "length to < 2 ^ 27" "malloc (length to)"
  shows "case diff_delta malloc from to max_size of Oob \<Rightarrow> False
    | Null \<Rightarrow> 0 < max_size \<or> (\<exists>n. \<not> malloc n)
    | Val delta \<Rightarrow> patch_delta malloc from delta = Val to"
proof (cases "diff_delta malloc from to max_size")
  case (Val delta)
  obtain ops where o: "delta = (hdr_bytes (length from) @ hdr_bytes (length to)) @ ops"
      "\<And>rest. patch_loop from (length to) (ops @ rest) [] = patch_loop from (length to) rest to"
    using diff_delta_result [OF assms(1-4), of malloc max_size] by (auto simp: delta_result_def Val)
  have "length to < 2 ^ 31" using assms(4) by simp
  then show ?thesis
    using patch_delta_result [of "from" to ops malloc, OF o(2) assms(2,3) _ assms(5)] o(1) Val by simp
qed (use diff_delta_result [OF assms(1-4), of malloc max_size] in \<open>auto simp: delta_result_def\<close>)

theorem diff_patch_round_trip_witness:
  "diff_delta (\<lambda>_. True) [1, 2, 3, 4, 5, 6] [9, 1, 2, 3, 4, 5, 6] 0 = Val [6, 7, 1, 9, 0x90, 6] \<and>
   patch_delta (\<lambda>_. True) [1, 2, 3, 4, 5, 6] [6, 7, 1, 9, 0x90, 6] = Val [9, 1, 2, 3, 4, 5, 6]"
proof -
  have "diff_delta (\<lambda>_. True) [1, 2, 3, 4, 5, 6] [9, 1, 2, 3, 4, 5, 6] 0 = Val [6, 7, 1, 9, 0x90, 6]"
    by (simp add: eval_diff)
  then show ?thesis
    using diff_patch_round_trip [of "[1, 2, 3, 4, 5, 6]" "[9, 1, 2, 3, 4, 5, 6]" "\<lambda>_. True" 0] by simp
qed


section \<open>Counting agrees with applying\<close>

lemma count_step_patch_step:
  assumes "patch_step src sz cmd data out = Val (out', rest)"
  shows "\<exists>dc da. count_step cmd data (c, a, length out) = Val ((c + dc, a + da, length out'), rest) \<and>
    length out + dc + da \<le> length out'"
proof (cases "bit cmd 7")
  case True
  then obtain vs where v: "get_operands cmd [0, 1, 2, 3, 4, 5] data = Val (vs, rest)" "copy_bytes src sz cmd vs out = Val out'"
    using assms by (auto simp: patch_step_def bindR_Val_iff)
  define cp where "cp = (if vs ! 4 + vs ! 5 * 256 = 0 then 0x10000 else vs ! 4 + vs ! 5 * 256)"
  have "length out' = length out + cp"
    using v(2) by (auto simp: copy_bytes_def Let_def cp_def min_def split: if_splits)
  then show ?thesis using True v(1)
    by (intro exI [of _ "if bit cmd 6 then 0 else cp"] exI [of _ 0]) (simp add: count_step_def cp_def Let_def)
next
  case False
  then show ?thesis using assms
    by (intro exI [of _ 0] exI [of _ "unat cmd"]) (auto simp: patch_step_def count_step_def split: if_splits)
qed

lemma count_loop_patch_loop:
  "patch_loop src sz data out = Val to \<Longrightarrow> c + a \<le> length out \<Longrightarrow>
    \<exists>c' a'. count_loop sz data (c, a, length out) = Val (c', a') \<and> c' + a' \<le> length to"
proof (induction src sz data out arbitrary: c a rule: patch_loop.induct)
  case (1 src sz out)
  then show ?case by (auto split: if_splits)
next
  case (2 src sz cmd data out)
  from 2(2) obtain out' rest where s: "patch_step src sz cmd data out = Val (out', rest)" "patch_loop src sz rest out' = Val to"
    by (auto split: res.splits)
  from count_step_patch_step [OF s(1), of c a] obtain dc da where
    d: "count_step cmd data (c, a, length out) = Val ((c + dc, a + da, length out'), rest)" "length out + dc + da \<le> length out'"
    by blast
  have "(c + dc) + (a + da) \<le> length out'" using d(2) 2(3) by simp
  from 2(1) [OF s(1) refl s(2) this] d(1) show ?case by simp
qed

text \<open>
  Every delta that \<^verbatim>\<open>patch_delta\<close> applies is also accepted by \<^verbatim>\<open>count_delta\<close>, whose two
  numbers together never exceed the size of the result: copies out of the result are not counted, as the comment says.
\<close>

theorem count_delta_patch_delta:
  assumes "patch_delta malloc src delta = Val to"
  shows "\<exists>copied added. count_delta delta = Val (copied, added) \<and> copied + added \<le> length to"
proof -
  obtain sz2 d1 d2 where d: "get_delta_hdr_size delta = Val (length src, d1)" "get_delta_hdr_size d1 = Val (sz2, d2)"
      "patch_loop src sz2 d2 [] = Val to" "\<not> length delta < DELTA_SIZE_MIN"
    using assms by (auto simp: patch_delta_def bindR_Val_iff split: if_splits)
  from count_loop_patch_loop [OF d(3), of 0 0] d show ?thesis by (simp add: count_delta_def)
qed

theorem count_delta_patch_delta_witness:
  "\<exists>copied added. count_delta [2, 3, 0x90, 2, 1, 9] = Val (copied, added) \<and> copied + added \<le> length [7, 8, 9 :: byte]"
  by (rule count_delta_patch_delta [of "\<lambda>_. True" "[7, 8]"])
    (simp add: patch_delta_def DELTA_SIZE_MIN_def get_delta_hdr_size_def get_operands.simps copy_bytes_def patch_step_def)


section \<open>The checksum\<close>

text \<open>The sums without reduction, as natural numbers, and their bound.\<close>

definition sum1 :: "bytes \<Rightarrow> nat \<Rightarrow> nat" where
  "sum1 buf s = s + sum_list (map unat buf)"

fun sum2 :: "bytes \<Rightarrow> nat \<Rightarrow> nat" where
  "sum2 [] s = 0"
| "sum2 (c # buf) s = (s + unat c) + sum2 buf (s + unat c)"

lemma unat_byte_le: "unat (c :: byte) \<le> 255"
  using unsigned_less [of c, where 'a = nat] by simp

lemma sum1_Cons: "sum1 (c # buf) s = sum1 buf (s + unat c)"
  by (simp add: sum1_def)

lemma sum1_le: "sum1 buf s \<le> s + 255 * length buf"
proof (induction buf arbitrary: s)
  case (Cons c buf)
  show ?case using Cons.IH [of "s + unat c"] unat_byte_le [of c] by (simp add: sum1_Cons)
qed (simp add: sum1_def)

lemma sum2_le: "2 * sum2 buf s \<le> 2 * s * length buf + 255 * (length buf * (length buf + 1))"
proof (induction buf arbitrary: s)
  case (Cons c buf)
  let ?l = "length buf"
  have e: "2 * (s + unat c) * ?l = 2 * s * ?l + unat c * (2 * ?l)" by (simp add: algebra_simps)
  have "unat c * (2 * ?l) \<le> 255 * (2 * ?l)" using unat_byte_le [of c] by (rule mult_le_mono1)
  then have "2 * sum2 buf (s + unat c) \<le> 2 * s * ?l + 255 * (2 * ?l) + 255 * (?l * (?l + 1))"
    using Cons.IH [of "s + unat c"] unfolding e by linarith
  moreover have "2 * (s + unat c) \<le> 2 * s + 510" using unat_byte_le [of c] by simp
  ultimately have "2 * (s + unat c + sum2 buf (s + unat c)) \<le>
      2 * s + 510 + (2 * s * ?l + 255 * (2 * ?l) + 255 * (?l * (?l + 1)))"
    unfolding distrib_left [of 2 "s + unat c"] by (rule add_mono [rotated])
  then show ?case by (simp add: algebra_simps)
qed simp

lemma fold_DO1:
  "unat s1 + 255 * length buf < 2 ^ 32 \<Longrightarrow> unat s2 + sum2 buf (unat s1) < 2 ^ 32 \<Longrightarrow>
    fold DO1 buf (s1, s2) = (of_nat (sum1 buf (unat s1)), of_nat (unat s2 + sum2 buf (unat s1)))"
proof (induction buf arbitrary: s1 s2)
  case Nil
  then show ?case by (simp add: sum1_def)
next
  case (Cons c buf)
  let ?s1 = "s1 + ucast c" and ?s2 = "s2 + (s1 + ucast c)"
  have c: "unat (ucast c :: u32) = unat c"
    using unat_byte_le [of c] by (simp add: unsigned_ucast_eq take_bit_eq_mod)
  have u1: "unat ?s1 = unat s1 + unat c"
    using Cons.prems(1) unat_byte_le [of c] c by (simp add: unat_word_ariths unat_of_nat)
  have u2: "unat ?s2 = unat s2 + (unat s1 + unat c)"
    using Cons.prems(2) u1 by (simp add: unat_word_ariths(1) [of s2])
  have p1: "unat ?s1 + 255 * length buf < 2 ^ 32" using Cons.prems(1) unat_byte_le [of c] u1 by simp
  have p2: "unat ?s2 + sum2 buf (unat ?s1) < 2 ^ 32" using Cons.prems(2) u1 u2 by simp
  show ?case using Cons.IH [OF p1 p2] by (simp add: DO1_def Let_def u1 u2 sum1_Cons add.assoc)
qed


lemma sum_append:
  "sum1 (xs @ ys) s = sum1 ys (sum1 xs s)" "sum2 (xs @ ys) s = sum2 xs s + sum2 ys (sum1 xs s)"
proof -
  show "sum1 (xs @ ys) s = sum1 ys (sum1 xs s)" by (simp add: sum1_def)
  show "sum2 (xs @ ys) s = sum2 xs s + sum2 ys (sum1 xs s)"
    by (induction xs arbitrary: s) (simp_all add: sum1_Cons, simp add: sum1_def)
qed

lemma sum_mod:
  "sum1 buf (s mod m) mod m = sum1 buf s mod m" "sum2 buf (s mod m) mod m = sum2 buf s mod m"
proof -
  show "sum1 buf (s mod m) mod m = sum1 buf s mod m" by (simp add: sum1_def mod_add_left_eq)
  have "sum2 buf s mod m = sum2 buf t mod m" if "s mod m = t mod m" for s t
    using that
  proof (induction buf arbitrary: s t)
    case (Cons c buf)
    have e: "(s + unat c) mod m = (t + unat c) mod m" by (rule mod_add_cong [OF Cons.prems refl])
    show ?case unfolding sum2.simps by (rule mod_add_cong [OF e Cons.IH [OF e]])
  qed simp
  from this [of "s mod m" s] show "sum2 buf (s mod m) mod m = sum2 buf s mod m" by simp
qed

lemma adler_no_overflow:
  assumes "k \<le> NMAX" "length xs = k" "s < 65521" "t < 65521"
  shows "s + 255 * k < 2 ^ 32" "t + sum2 xs s < 2 ^ 32"
proof -
  have k: "k \<le> 5552" using assms(1) by (simp add: NMAX_def)
  show "s + 255 * k < 2 ^ 32" using k assms(3) by simp
  have "2 * s * k \<le> 2 * 65520 * 5552" using k assms(3) by (intro mult_le_mono) auto
  moreover have "255 * (k * (k + 1)) \<le> 255 * (5552 * 5553)" using k by (intro mult_le_mono) auto
  moreover have "2 * sum2 xs s \<le> 2 * s * k + 255 * (k * (k + 1))" using sum2_le [of xs s] unfolding assms(2) .
  ultimately have "t + sum2 xs s < 4294967296" using assms(4) by linarith
  then show "t + sum2 xs s < 2 ^ 32" by simp
qed

lemma adler_loop_sums:
  "unat s1 < 65521 \<Longrightarrow> unat s2 < 65521 \<Longrightarrow> adler_loop (s1, s2) buf =
    (of_nat (sum1 buf (unat s1) mod 65521), of_nat ((unat s2 + sum2 buf (unat s1)) mod 65521))"
proof (induction "length buf" arbitrary: s1 s2 buf rule: less_induct)
  case less
  show ?case
  proof (cases "buf = []")
    case True
    then show ?thesis using less.prems by (simp add: adler_loop.simps [of _ "[]"] sum1_def)
  next
    case False
    let ?k = "min (length buf) NMAX"
    let ?a = "take ?k buf" and ?b = "drop ?k buf"
    have lt: "length ?b < length buf" using False by (simp add: NMAX_def)
    have la: "length ?a = ?k" "?k \<le> NMAX" by simp_all
    note no = adler_no_overflow [OF la(2,1) less.prems]
    have f: "fold DO1 ?a (s1, s2) = (of_nat (sum1 ?a (unat s1)), of_nat (unat s2 + sum2 ?a (unat s1)))"
      using no by (intro fold_DO1) (simp_all only: la)
    have "sum1 ?a (unat s1) < 2 ^ 32" using sum1_le [of ?a "unat s1"] no(1) unfolding la by linarith
    then have m1: "unat (of_nat (sum1 ?a (unat s1)) mod BASE) = sum1 ?a (unat s1) mod 65521"
      by (simp add: BASE_def unat_mod unat_of_nat)
    have m2: "unat (of_nat (unat s2 + sum2 ?a (unat s1)) mod BASE) = (unat s2 + sum2 ?a (unat s1)) mod 65521"
      using no(2) unfolding BASE_def unat_mod unat_of_nat by simp
    have IH: "adler_loop (of_nat (sum1 ?a (unat s1)) mod BASE, of_nat (unat s2 + sum2 ?a (unat s1)) mod BASE) ?b =
      (of_nat (sum1 ?b (sum1 ?a (unat s1) mod 65521) mod 65521),
       of_nat (((unat s2 + sum2 ?a (unat s1)) mod 65521 + sum2 ?b (sum1 ?a (unat s1) mod 65521)) mod 65521))"
      using less.hyps [OF lt, of "of_nat (sum1 ?a (unat s1)) mod BASE" "of_nat (unat s2 + sum2 ?a (unat s1)) mod BASE"]
      unfolding m1 m2 by simp
    have "sum1 buf (unat s1) = sum1 ?b (sum1 ?a (unat s1))" using sum_append(1) [of ?a ?b] by simp
    moreover have "sum2 buf (unat s1) = sum2 ?a (unat s1) + sum2 ?b (sum1 ?a (unat s1))"
      using sum_append(2) [of ?a ?b] by simp
    moreover have "((unat s2 + x) mod 65521 + sum2 ?b (y mod 65521)) mod 65521 = (unat s2 + (x + sum2 ?b y)) mod 65521" for x y
      using mod_add_cong [OF mod_mod_trivial sum_mod(2), of "unat s2 + x" 65521 ?b y] by (simp only: add.assoc)
    ultimately show ?thesis
      unfolding adler_loop.simps [of _ buf] Let_def f prod.case IH by (simp only: False if_False sum_mod(1) if_cancel)
  qed
qed

text \<open>
  C28: Between two reductions the sums of \<^verbatim>\<open>adler32\<close> do not overflow 32 bits, so that it computes the
  checksum of its definition: the sum of the bytes and the sum of the partial sums, modulo 65521.
\<close>

theorem adler32_checksum:
  assumes "unat adler mod 65536 < 65521" "unat adler div 65536 < 65521"
  shows "adler32 adler buf =
    push_bit 16 (of_nat ((unat adler div 65536 + sum2 buf (unat adler mod 65536)) mod 65521)) OR
    of_nat (sum1 buf (unat adler mod 65536) mod 65521)"
proof -
  have "adler AND 0xffff = take_bit 16 adler" by (simp add: take_bit_eq_mask mask_eq_exp_minus_1)
  then have "unat (adler AND 0xffff) = unat adler mod 65536" by (simp add: take_bit_eq_mod unat_mod)
  moreover have "unat (drop_bit 16 adler) = unat adler div 65536" by (simp add: unat_drop_bit_eq drop_bit_eq_div [where 'a = nat])
  ultimately show ?thesis
    using adler_loop_sums [of "adler AND 0xffff" "drop_bit 16 adler" buf] assms by (simp add: adler32_def)
qed

theorem adler32_checksum_witness:
  "adler32 1 [97, 98, 99] = push_bit 16 (of_nat (sum2 [97, 98, 99] 1 mod 65521)) OR of_nat (sum1 [97, 98, 99] 1 mod 65521)"
  using adler32_checksum [of 1 "[97, 98, 99]"] by simp

end
