(* ===== verification/Git_Sha1.thy ===== *)
theory Git_Sha1
  imports Prelude
begin

text \<open>
  The SHA-1 implementation of the bundled git 0.99.1, \<^verbatim>\<open>src/git-0.99.1/mozilla-sha1/sha1.c\<close>: the context with its
  80 words, the byte-wise update and the padding, and their equivalence with the definition of the standard on the
  whole message.
\<close>

section \<open>The implementation (sha1.c, sha1.h)\<close>

record SHA_CTX =
  ctx_H :: "u32 list"
  ctx_W :: "u32 list"
  lenW :: nat
  sizeHi :: u32
  sizeLo :: u32

definition SHA1_Init :: SHA_CTX where
  "SHA1_Init = \<lparr>ctx_H = [0x67452301, 0xefcdab89, 0x98badcfe, 0x10325476, 0xc3d2e1f0],
     ctx_W = replicate 80 0, lenW = 0, sizeHi = 0, sizeLo = 0\<rparr>"

definition SHA_ROT :: "u32 \<Rightarrow> nat \<Rightarrow> u32" where
  "SHA_ROT x n = push_bit n x OR drop_bit (32 - n) x"

text \<open>The first loop of \<^verbatim>\<open>shaHashBlock\<close>, in place, and one turn of each of the four loops after it.\<close>

definition expand_W :: "u32 list \<Rightarrow> u32 list" where
  "expand_W W = fold (\<lambda>t W. W[t := SHA_ROT (W ! (t - 3) XOR W ! (t - 8) XOR W ! (t - 14) XOR W ! (t - 16)) 1]) [16..<80] W"

type_synonym vars = "u32 \<times> u32 \<times> u32 \<times> u32 \<times> u32"

definition sha_round :: "(u32 \<Rightarrow> u32 \<Rightarrow> u32 \<Rightarrow> u32) \<Rightarrow> u32 \<Rightarrow> u32 list \<Rightarrow> nat \<Rightarrow> vars \<Rightarrow> vars" where
  "sha_round f k W t v = (case v of (A, B, C, D, E) \<Rightarrow>
     (SHA_ROT A 5 + f B C D + E + W ! t + k, A, SHA_ROT B 30, C, D))"

definition sha_rounds :: "u32 list \<Rightarrow> vars \<Rightarrow> vars" where
  "sha_rounds W v =
     fold (sha_round (\<lambda>B C D. B XOR C XOR D) 0xca62c1d6 W) [60..<80]
     (fold (sha_round (\<lambda>B C D. (B AND C) OR (D AND (B OR C))) 0x8f1bbcdc W) [40..<60]
     (fold (sha_round (\<lambda>B C D. B XOR C XOR D) 0x6ed9eba1 W) [20..<40]
     (fold (sha_round (\<lambda>B C D. ((C XOR D) AND B) XOR D) 0x5a827999 W) [0..<20] v)))"

definition shaHashBlock :: "SHA_CTX \<Rightarrow> SHA_CTX" where
  "shaHashBlock ctx =
     (let W = expand_W (ctx_W ctx); H = ctx_H ctx in
      case sha_rounds W (H ! 0, H ! 1, H ! 2, H ! 3, H ! 4) of (A, B, C, D, E) \<Rightarrow>
        ctx\<lparr>ctx_W := W, ctx_H := [H ! 0 + A, H ! 1 + B, H ! 2 + C, H ! 3 + D, H ! 4 + E]\<rparr>)"

text \<open>The body of the loop of \<^verbatim>\<open>SHA1_Update\<close>.\<close>

definition update_byte :: "byte \<Rightarrow> SHA_CTX \<Rightarrow> SHA_CTX" where
  "update_byte b ctx =
     (let i = lenW ctx div 4;
          c1 = ctx\<lparr>ctx_W := (ctx_W ctx)[i := push_bit 8 (ctx_W ctx ! i) OR ucast b], lenW := lenW ctx + 1\<rparr>;
          c2 = (if lenW c1 mod 64 = 0 then (shaHashBlock c1)\<lparr>lenW := 0\<rparr> else c1);
          lo = sizeLo c2 + 8
      in c2\<lparr>sizeLo := lo, sizeHi := sizeHi c2 + (if lo < 8 then 1 else 0)\<rparr>)"

definition SHA1_Update :: "SHA_CTX \<Rightarrow> bytes \<Rightarrow> SHA_CTX" where
  "SHA1_Update ctx data = fold update_byte data ctx"

lemma lenW_shaHashBlock [simp]: "lenW (shaHashBlock ctx) = lenW ctx"
  by (simp add: shaHashBlock_def Let_def split: prod.splits)

lemma lenW_update_byte: "lenW (update_byte b ctx) = (if (lenW ctx + 1) mod 64 = 0 then 0 else lenW ctx + 1)"
  by (simp add: update_byte_def Let_def)

text \<open>The loop of \<^verbatim>\<open>SHA1_Final\<close> that pads with zeroes; it ends from every \<^verbatim>\<open>lenW\<close>.\<close>

definition pad_measure :: "nat \<Rightarrow> nat" where
  "pad_measure l = (if l \<le> 56 then 56 - l else 120 - l mod 64)"

lemma pad_measure_decreases:
  assumes "lenW ctx \<noteq> 56"
  shows "pad_measure (lenW (SHA1_Update ctx [b])) < pad_measure (lenW ctx)"
proof -
  have "pad_measure (if (l + 1) mod 64 = 0 then 0 else l + 1) < pad_measure l" if "l \<noteq> 56" for l
    using that unfolding pad_measure_def by (auto simp: mod_Suc split: if_splits)
  then show ?thesis using assms unfolding SHA1_Update_def by (simp only: fold_simps id_apply lenW_update_byte)
qed

function pad_loop :: "SHA_CTX \<Rightarrow> SHA_CTX" where
  "pad_loop ctx = (if lenW ctx \<noteq> 56 then pad_loop (SHA1_Update ctx [0]) else ctx)"
  by auto
termination
  by (relation "measure (\<lambda>ctx. pad_measure (lenW ctx))")
    (simp_all add: pad_measure_decreases)

declare pad_loop.simps [simp del]

text \<open>The output loop shifts the words of \<^verbatim>\<open>H\<close> out, byte by byte.\<close>

definition out_byte :: "nat \<Rightarrow> bytes \<times> u32 list \<Rightarrow> bytes \<times> u32 list" where
  "out_byte i s = (case s of (out, H) \<Rightarrow>
     (out @ [ucast (drop_bit 24 (H ! (i div 4)))], H[i div 4 := push_bit 8 (H ! (i div 4))]))"

definition padlen :: "SHA_CTX \<Rightarrow> bytes" where
  "padlen ctx = map (\<lambda>k. ucast (drop_bit k (sizeHi ctx) AND 255)) [24, 16, 8, 0] @
     map (\<lambda>k. ucast (drop_bit k (sizeLo ctx) AND 255)) [24, 16, 8, 0]"

text \<open>The digest, and the context after its re-initialization.\<close>

definition SHA1_Final :: "SHA_CTX \<Rightarrow> bytes \<times> SHA_CTX" where
  "SHA1_Final ctx =
     (let c = SHA1_Update (pad_loop (SHA1_Update ctx [0x80])) (padlen ctx)
      in (fst (fold out_byte [0..<20] ([], ctx_H c)), SHA1_Init))"

section \<open>The definition of the standard\<close>

definition be32 :: "u32 \<Rightarrow> bytes" where
  "be32 w = [ucast (drop_bit 24 w), ucast (drop_bit 16 w), ucast (drop_bit 8 w), ucast w]"

definition be_word :: "bytes \<Rightarrow> u32" where
  "be_word bs = fold (\<lambda>b w. push_bit 8 w OR ucast b) bs 0"

definition rotl :: "nat \<Rightarrow> u32 \<Rightarrow> u32" where
  "rotl n x = push_bit n x OR drop_bit (32 - n) x"

text \<open>The message schedule of a block, the functions and constants of the 80 rounds.\<close>

fun sched :: "bytes \<Rightarrow> nat \<Rightarrow> u32" where
  "sched blk t =
     (if t < 16 then be_word (take 4 (drop (4 * t) blk))
      else rotl 1 (sched blk (t - 3) XOR sched blk (t - 8) XOR sched blk (t - 14) XOR sched blk (t - 16)))"

declare sched.simps [simp del]

definition fips_f :: "nat \<Rightarrow> u32 \<Rightarrow> u32 \<Rightarrow> u32 \<Rightarrow> u32" where
  "fips_f t x y z =
     (if t < 20 then (x AND y) XOR (NOT x AND z)
      else if t < 40 then x XOR y XOR z
      else if t < 60 then (x AND y) XOR (x AND z) XOR (y AND z)
      else x XOR y XOR z)"

definition fips_K :: "nat \<Rightarrow> u32" where
  "fips_K t = (if t < 20 then 0x5a827999 else if t < 40 then 0x6ed9eba1 else if t < 60 then 0x8f1bbcdc else 0xca62c1d6)"

definition fips_round :: "bytes \<Rightarrow> nat \<Rightarrow> vars \<Rightarrow> vars" where
  "fips_round blk t v = (case v of (a, b, c, d, e) \<Rightarrow>
     (rotl 5 a + fips_f t b c d + e + fips_K t + sched blk t, a, rotl 30 b, c, d))"

definition fips_block :: "bytes \<Rightarrow> vars \<Rightarrow> vars" where
  "fips_block blk h = (case h of (h0, h1, h2, h3, h4) \<Rightarrow>
     case fold (fips_round blk) [0..<80] h of (a, b, c, d, e) \<Rightarrow> (a + h0, b + h1, c + h2, d + h3, e + h4))"

definition fips_H0 :: vars where
  "fips_H0 = (0x67452301, 0xefcdab89, 0x98badcfe, 0x10325476, 0xc3d2e1f0)"

text \<open>The blocks of a message, its padding, and the hash.\<close>

definition block_at :: "bytes \<Rightarrow> nat \<Rightarrow> bytes" where
  "block_at m i = take 64 (drop (64 * i) m)"

definition fips_hash :: "bytes \<Rightarrow> vars" where
  "fips_hash m = fold (\<lambda>i. fips_block (block_at m i)) [0..<length m div 64] fips_H0"

definition fips_pad :: "bytes \<Rightarrow> bytes" where
  "fips_pad m =
     (let n = 8 * length m in
      m @ 0x80 # replicate ((119 - length m mod 64) mod 64) 0 @ be32 (of_nat (n div 2 ^ 32)) @ be32 (of_nat n))"

definition fips_digest :: "vars \<Rightarrow> bytes" where
  "fips_digest h = (case h of (a, b, c, d, e) \<Rightarrow> be32 a @ be32 b @ be32 c @ be32 d @ be32 e)"

definition sha1_fips :: "bytes \<Rightarrow> bytes" where
  "sha1_fips m = fips_digest (fips_hash (fips_pad m))"


section \<open>Rounds and schedule\<close>

lemma SHA_ROT_rotl [simp]: "SHA_ROT x n = rotl n x"
  by (simp add: SHA_ROT_def rotl_def)

text \<open>The two rewritten Boolean functions.\<close>

lemma choose_eq: "((y XOR z) AND x) XOR z = (x AND y) XOR (NOT x AND (z :: u32))"
  by (rule bit_word_eqI) (auto simp: bit_simps)

lemma majority_eq: "(x AND y) OR (z AND (x OR y)) = (x AND y) XOR (x AND z) XOR (y AND (z :: u32))"
  by (rule bit_word_eqI) (auto simp: bit_simps)

lemma fold_rounds:
  assumes "\<And>t. a \<le> t \<Longrightarrow> t < b \<Longrightarrow> W ! t = sched blk t" "\<And>t x y z. a \<le> t \<Longrightarrow> t < b \<Longrightarrow> f x y z = fips_f t x y z"
    "\<And>t. a \<le> t \<Longrightarrow> t < b \<Longrightarrow> k = fips_K t"
  shows "fold (sha_round f k W) [a..<b] v = fold (fips_round blk) [a..<b] v"
proof (rule fold_cong)
  fix t assume "t \<in> set [a..<b]"
  then have "a \<le> t" "t < b" by auto
  from assms(1,2,3) [OF this] show "sha_round f k W t = fips_round blk t"
    by (auto simp: sha_round_def fips_round_def fun_eq_iff add_ac)
qed auto

lemma sha_rounds_fips:
  assumes "\<And>t. t < 80 \<Longrightarrow> W ! t = sched blk t"
  shows "sha_rounds W v = fold (fips_round blk) [0..<80] v"
proof -
  have u: "[a..<c] = [a..<b] @ [b..<c]" if "a \<le> b" "b \<le> c" for a b c :: nat
    using upt_add_eq_append [OF that(1), of "c - b"] that(2) by simp
  have "[0..<80] = [0..<20] @ [20..<40] @ [40..<60] @ [60..<80 :: nat]"
    using u [of 0 20 80] u [of 20 40 80] u [of 40 60 80] by (simp del: upt_rec_numeral upt_Suc)
  then show ?thesis unfolding sha_rounds_def
    using assms by (simp add: fold_rounds [of _ _ W blk] fips_f_def fips_K_def choose_eq majority_eq del: upt_Suc upt_rec_numeral)
qed

lemma expand_W_sched:
  assumes "length W = 80" "\<And>t. t < 16 \<Longrightarrow> W ! t = sched blk t"
  shows "length (expand_W W) = 80" "\<And>t. t < 80 \<Longrightarrow> expand_W W ! t = sched blk t"
proof -
  let ?s = "\<lambda>t W. W[t := SHA_ROT (W ! (t - 3) XOR W ! (t - 8) XOR W ! (t - 14) XOR W ! (t - 16)) 1]"
  have *: "length (fold ?s [16..<16 + n] W) = 80 \<and> (\<forall>t < 16 + n. fold ?s [16..<16 + n] W ! t = sched blk t)" if "n \<le> 64" for n
    using that
  proof (induction n)
    case 0
    then show ?case using assms by simp
  next
    case (Suc n)
    define V where "V = fold ?s [16..<16 + n] W"
    have V: "length V = 80" "\<And>t. t < 16 + n \<Longrightarrow> V ! t = sched blk t" using Suc unfolding V_def by auto
    have "sched blk (16 + n) = rotl 1 (V ! (16 + n - 3) XOR V ! (16 + n - 8) XOR V ! (16 + n - 14) XOR V ! (16 + n - 16))"
      by (simp add: V(2) sched.simps [of blk "16 + n"])
    moreover define V' where "V' = ?s (16 + n) V"
    ultimately have V': "length V' = 80" "V' ! (16 + n) = sched blk (16 + n)" "\<And>t. t < 16 + n \<Longrightarrow> V' ! t = sched blk t"
      using V Suc.prems by simp_all
    have "[16..<16 + Suc n] = [16..<16 + n] @ [16 + n]" unfolding add_Suc_right by (rule upt_Suc_append) simp
    then have "fold ?s [16..<16 + Suc n] W = V'" by (simp only: fold_append fold_simps o_apply id_apply V_def V'_def)
    then show ?case using V' by (auto simp only: add_Suc_right less_Suc_eq)
  qed
  from * [of 64] show "length (expand_W W) = 80" "\<And>t. t < 80 \<Longrightarrow> expand_W W ! t = sched blk t"
    by (simp_all add: expand_W_def del: upt_Suc upt_rec_numeral)
qed

definition vars_of :: "u32 list \<Rightarrow> vars" where
  "vars_of H = (H ! 0, H ! 1, H ! 2, H ! 3, H ! 4)"

lemma shaHashBlock_fips:
  assumes "length (ctx_W ctx) = 80" "\<And>t. t < 16 \<Longrightarrow> ctx_W ctx ! t = sched blk t"
  shows "vars_of (ctx_H (shaHashBlock ctx)) = fips_block blk (vars_of (ctx_H ctx))"
    "length (ctx_H (shaHashBlock ctx)) = 5" "length (ctx_W (shaHashBlock ctx)) = 80"
    "sizeHi (shaHashBlock ctx) = sizeHi ctx" "sizeLo (shaHashBlock ctx) = sizeLo ctx"
  using sha_rounds_fips [OF expand_W_sched(2) [OF assms]] expand_W_sched(1) [OF assms]
  by (simp_all add: shaHashBlock_def fips_block_def vars_of_def Let_def add.commute
      del: upt_Suc upt_rec_numeral split: prod.splits)


section \<open>Updates\<close>

text \<open>The words of a partial block \<open>p\<close>: the word a byte goes into has the bytes before it in its low bits.\<close>

definition word_bytes :: "nat \<Rightarrow> bytes \<Rightarrow> bytes" where
  "word_bytes i p = take 4 (drop (4 * i) p)"

definition words_hold :: "u32 list \<Rightarrow> bytes \<Rightarrow> bool" where
  "words_hold W p \<longleftrightarrow> length W = 80 \<and>
     (\<forall>i < 16. take_bit (8 * length (word_bytes i p)) (W ! i) = be_word (word_bytes i p))"

lemma be_word_snoc: "be_word (bs @ [b]) = push_bit 8 (be_word bs) OR ucast b"
  by (simp add: be_word_def)

lemma take_bit_push_byte:
  "take_bit (8 * Suc j) (push_bit 8 (w :: u32) OR ucast (b :: byte)) = push_bit 8 (take_bit (8 * j) w) OR ucast b"
  by (rule bit_word_eqI) (auto simp: bit_simps dest: bit_imp_le_length)

lemma word_bytes_snoc:
  "word_bytes i (p @ [b]) = (if i = length p div 4 then word_bytes i p @ [b] else word_bytes i p)"
proof -
  consider "i < length p div 4" | "i = length p div 4" | "length p div 4 < i" by linarith
  then show ?thesis
  proof cases
    case 1
    then have "4 * i + 4 \<le> length p" by linarith
    with 1 show ?thesis by (simp add: word_bytes_def)
  next
    case 2
    then have "length p - 4 * i < 4" "4 * i \<le> length p" by linarith+
    with 2 show ?thesis by (simp add: word_bytes_def)
  next
    case 3
    then have "length p < 4 * i" by linarith
    with 3 show ?thesis by (simp add: word_bytes_def)
  qed
qed

lemma words_hold_snoc:
  assumes "words_hold W p" "length p < 64"
  shows "words_hold (W[length p div 4 := push_bit 8 (W ! (length p div 4)) OR ucast b]) (p @ [b])"
proof -
  let ?i = "length p div 4"
  have i: "?i < 16" using assms(2) by simp
  have w: "take_bit (8 * length (word_bytes ?i p)) (W ! ?i) = be_word (word_bytes ?i p)"
    using assms(1) i by (simp add: words_hold_def)
  have "take_bit (8 * Suc (length (word_bytes ?i p))) (push_bit 8 (W ! ?i) OR ucast b) = be_word (word_bytes ?i p @ [b])"
    unfolding take_bit_push_byte w be_word_snoc ..
  then show ?thesis using assms(1) i unfolding words_hold_def word_bytes_snoc
    by (auto simp: nth_list_update)
qed

lemma words_hold_full:
  assumes "words_hold W p" "length p = 64" "t < 16"
  shows "W ! t = sched p t"
proof -
  have "length (word_bytes t p) = 4" using assms(2,3) by (simp add: word_bytes_def)
  then have "take_bit 32 (W ! t) = be_word (word_bytes t p)" using assms(1,3) by (auto simp: words_hold_def)
  then show ?thesis using assms(3) by (simp add: sched.simps [of p t] word_bytes_def take_bit_word_eq_self)
qed

text \<open>What the context knows of a message \<open>m\<close>.\<close>

definition sha_inv :: "SHA_CTX \<Rightarrow> bytes \<Rightarrow> bool" where
  "sha_inv ctx m \<longleftrightarrow>
     length (ctx_H ctx) = 5 \<and> vars_of (ctx_H ctx) = fips_hash m \<and> lenW ctx = length m mod 64 \<and>
     words_hold (ctx_W ctx) (drop (64 * (length m div 64)) m) \<and>
     sizeLo ctx = of_nat (8 * length m) \<and> sizeHi ctx = of_nat (8 * length m div 2 ^ 32)"

lemma sha_inv_Init: "sha_inv SHA1_Init []"
  by (simp add: sha_inv_def SHA1_Init_def vars_of_def fips_hash_def fips_H0_def words_hold_def word_bytes_def be_word_def)

text \<open>The 64-bit count of bits in two words.\<close>

lemma size_carry:
  "(of_nat (8 * n) + 8 :: u32) = of_nat (8 * Suc n)"
  "(of_nat (8 * n div 2 ^ 32) + (if (of_nat (8 * n) + 8 :: u32) < 8 then 1 else 0) :: u32) = of_nat (8 * Suc n div 2 ^ 32)"
proof -
  show e: "(of_nat (8 * n) + 8 :: u32) = of_nat (8 * Suc n)" by simp
  have u: "unat (of_nat (8 * Suc n) :: u32) = 8 * Suc n mod 2 ^ 32" unfolding unat_of_nat by simp
  have "(of_nat (8 * n) + 8 :: u32) < 8 \<longleftrightarrow> 8 * Suc n mod 2 ^ 32 = 0"
  proof -
    have "8 * Suc n mod 2 ^ 32 = 8 * (Suc n mod 2 ^ 29)" using mult_mod_right [of 8 "Suc n" "2 ^ 29"] by simp
    then show ?thesis unfolding e by (simp only: word_less_nat_alt u) (simp, arith?)
  qed
  moreover have "8 * Suc n div 2 ^ 32 = 8 * n div 2 ^ 32 + (if 8 * Suc n mod 2 ^ 32 = 0 then 1 else 0)"
  proof -
    have d: "8 * k div 2 ^ 32 = k div 2 ^ 29" "8 * k mod 2 ^ 32 = 8 * (k mod 2 ^ 29)" for k :: nat
      using div_mult_mult1 [of 8 k "2 ^ 29"] mult_mod_right [of 8 k "2 ^ 29"] by simp_all
    show ?thesis unfolding d by (simp add: div_Suc)
  qed
  ultimately show "(of_nat (8 * n div 2 ^ 32) + (if (of_nat (8 * n) + 8 :: u32) < 8 then 1 else 0) :: u32) =
      of_nat (8 * Suc n div 2 ^ 32)"
    by (simp only: of_nat_add split: if_split) simp
qed


lemma block_at_append: "64 * Suc i \<le> length m \<Longrightarrow> block_at (m @ m') i = block_at m i"
  by (simp add: block_at_def)

lemma fips_hash_snoc:
  "fips_hash (m @ [b]) =
    (if Suc (length m) mod 64 = 0 then fips_block (drop (64 * (length m div 64)) m @ [b]) (fips_hash m) else fips_hash m)"
proof -
  let ?q = "length m div 64"
  have same: "fold (\<lambda>i. fips_block (block_at (m @ [b]) i)) [0..<?q] fips_H0 = fips_hash m"
    unfolding fips_hash_def
  proof (intro fold_cong refl)
    fix i assume "i \<in> set [0..<?q]"
    then have "64 * Suc i \<le> length m" by simp
    then show "fips_block (block_at (m @ [b]) i) = fips_block (block_at m i)" by (simp add: block_at_append)
  qed
  show ?thesis
  proof (cases "Suc (length m) mod 64 = 0")
    case True
    have len: "length m - 64 * ?q = 63" "64 * ?q \<le> length m" using True by (auto simp: mod_Suc minus_mult_div_eq_mod split: if_splits)
    have "block_at (m @ [b]) ?q = drop (64 * ?q) m @ [b]" using len by (simp add: block_at_def)
    with True same show ?thesis by (simp add: fips_hash_def div_Suc)
  next
    case False
    with same show ?thesis by (simp add: fips_hash_def div_Suc)
  qed
qed

lemma sha_inv_byte:
  assumes "sha_inv ctx m"
  shows "sha_inv (update_byte b ctx) (m @ [b])"
proof -
  let ?n = "length m" and ?p = "drop (64 * (length m div 64)) m"
  have i: "length (ctx_H ctx) = 5" "vars_of (ctx_H ctx) = fips_hash m" "lenW ctx = ?n mod 64" "words_hold (ctx_W ctx) ?p"
      "sizeLo ctx = of_nat (8 * ?n)" "sizeHi ctx = of_nat (8 * ?n div 2 ^ 32)"
    using assms by (simp_all add: sha_inv_def)
  have lp: "length ?p = ?n mod 64" by (simp add: minus_mult_div_eq_mod)
  define W' where "W' = (ctx_W ctx)[lenW ctx div 4 := push_bit 8 (ctx_W ctx ! (lenW ctx div 4)) OR ucast b]"
  have h: "words_hold W' (?p @ [b])" using words_hold_snoc [OF i(4), of b] lp i(3) by (simp add: W'_def)
  define c1 where "c1 = ctx\<lparr>ctx_W := W', lenW := lenW ctx + 1\<rparr>"
  have u: "update_byte b ctx = (let c2 = (if (lenW ctx + 1) mod 64 = 0 then (shaHashBlock c1)\<lparr>lenW := 0\<rparr> else c1)
      in c2\<lparr>sizeLo := sizeLo c2 + 8, sizeHi := sizeHi c2 + (if sizeLo c2 + 8 < 8 then 1 else 0)\<rparr>)"
    by (simp add: update_byte_def c1_def W'_def Let_def)
  note sz = size_carry [of ?n]
  show ?thesis
  proof (cases "Suc ?n mod 64 = 0")
    case True
    have l: "length (?p @ [b]) = 64" using True lp by (auto simp: mod_Suc split: if_splits)
    have W: "length (ctx_W c1) = 80" "\<And>t. t < 16 \<Longrightarrow> ctx_W c1 ! t = sched (?p @ [b]) t"
      using words_hold_full [OF h l] h by (auto simp: c1_def words_hold_def)
    note hb = shaHashBlock_fips [OF W]
    have "(lenW ctx + 1) mod 64 = 0" using True i(3) by (simp add: mod_Suc_eq)
    then have u': "update_byte b ctx = (shaHashBlock c1)\<lparr>lenW := 0, sizeLo := of_nat (8 * Suc ?n), sizeHi := of_nat (8 * Suc ?n div 2 ^ 32)\<rparr>"
      unfolding u using sz hb(4,5) i(5,6) by (simp add: Let_def c1_def)
    have "64 * (Suc ?n div 64) = Suc ?n" using True by (simp add: dvd_eq_mod_eq_0)
    then show ?thesis unfolding sha_inv_def u'
      using hb(1-3) True i(2) by (simp add: fips_hash_snoc c1_def words_hold_def word_bytes_def be_word_def)
  next
    case False
    have "(lenW ctx + 1) mod 64 \<noteq> 0" using False i(3) by (simp add: mod_Suc_eq)
    then have u': "update_byte b ctx = c1\<lparr>sizeLo := of_nat (8 * Suc ?n), sizeHi := of_nat (8 * Suc ?n div 2 ^ 32)\<rparr>"
      unfolding u using sz i(5,6) by (simp add: Let_def c1_def)
    have "lenW ctx + 1 = Suc ?n mod 64" using False i(3) by (auto simp: mod_Suc split: if_splits)
    moreover have "drop (64 * (Suc ?n div 64)) (m @ [b]) = ?p @ [b]" using False by (simp add: div_Suc)
    ultimately show ?thesis unfolding sha_inv_def u'
      using False i(1,2) h by (simp add: fips_hash_snoc c1_def)
  qed
qed

lemma sha_inv_Update: "sha_inv ctx m \<Longrightarrow> sha_inv (SHA1_Update ctx data) (m @ data)"
proof (induction data arbitrary: ctx m)
  case (Cons b data)
  from Cons.IH [OF sha_inv_byte [OF Cons.prems]] show ?case by (simp add: SHA1_Update_def)
qed (simp add: SHA1_Update_def)

section \<open>The digest\<close>

lemma pad_zeros:
  assumes "sha_inv ctx m"
  shows "\<exists>z. z < 64 \<and> (length m + z) mod 64 = 56 \<and> sha_inv (pad_loop ctx) (m @ replicate z 0)"
  using assms
proof (induction ctx arbitrary: m rule: pad_loop.induct)
  case (1 ctx)
  show ?case
  proof (cases "lenW ctx = 56")
    case True
    then show ?thesis using 1(2) by (intro exI [of _ 0]) (simp add: pad_loop.simps [of ctx] sha_inv_def)
  next
    case False
    from 1(1) [OF False sha_inv_Update [OF 1(2)]] obtain z where
      z: "z < 64" "(Suc (length m) + z) mod 64 = 56" "sha_inv (pad_loop (SHA1_Update ctx [0])) ((m @ [0]) @ replicate z 0)"
      by auto
    have "length m mod 64 \<noteq> 56" using False 1(2) by (simp add: sha_inv_def)
    have "Suc z \<noteq> 64"
    proof
      assume "Suc z = 64"
      then have "Suc (length m) + z = length m + 64" by simp
      then show False using z(2) \<open>length m mod 64 \<noteq> 56\<close> by simp
    qed
    then show ?thesis using z False by (intro exI [of _ "Suc z"]) (simp add: pad_loop.simps [of ctx])
  qed
qed

lemma pad_count:
  assumes "z < 64" "(Suc n + z) mod 64 = (56 :: nat)"
  shows "z = (119 - n mod 64) mod 64"
proof -
  let ?r = "n mod 64" and ?t = "Suc (n mod 64) + z"
  have r: "?r < 64" by simp
  have "?t mod 64 = 56" using assms(2) mod_add_left_eq [of n 64 "Suc z"] by (simp del: mod_add_left_eq)
  then have t: "?t = 64 * (?t div 64) + 56" by (metis mult_div_mod_eq)
  have "?t div 64 < 2" using assms(1) r by (intro less_mult_imp_div_less) simp
  then have "?t = 56 \<or> ?t = 120" using t by (auto simp: less_2_cases_iff)
  then show ?thesis
  proof
    assume a: "?t = 56"
    then have "119 - ?r = z + 64" by simp
    then show ?thesis using assms(1) by simp
  next
    assume "?t = 120"
    then have "119 - ?r = z" by simp
    then show ?thesis using assms(1) by simp
  qed
qed

lemma padlen_be: "padlen ctx = be32 (sizeHi ctx) @ be32 (sizeLo ctx)"
proof -
  have "w AND 255 = take_bit 8 w" for w :: u32 by (simp add: take_bit_eq_mask mask_eq_exp_minus_1)
  moreover have "ucast (take_bit 8 w) = (ucast w :: byte)" for w :: u32 by (rule bit_word_eqI) (auto simp: bit_simps)
  ultimately have "ucast (w AND 255 :: u32) = (ucast w :: byte)" for w by simp
  then show ?thesis by (simp add: padlen_def be32_def)
qed

lemma out_bytes: "length H = 5 \<Longrightarrow> fst (fold out_byte [0..<20] ([], H)) = fips_digest (vars_of H)"
proof -
  assume "length H = 5"
  then obtain a b c d e where H: "H = [a, b, c, d, e]" by (auto simp: length_Suc_conv numeral_eq_Suc)
  have "ucast (drop_bit 24 (push_bit 8 w)) = (ucast (drop_bit 16 w) :: byte)"
    "ucast (drop_bit 24 (push_bit 8 (push_bit 8 w))) = (ucast (drop_bit 8 w) :: byte)"
    "ucast (drop_bit 24 (push_bit 8 (push_bit 8 (push_bit 8 w)))) = (ucast w :: byte)" for w :: u32
    by (rule bit_word_eqI; auto simp: bit_simps)+
  then show ?thesis
    by (simp add: H upt_rec [of 0] upt_rec [of "Suc 0"] out_byte_def fips_digest_def vars_of_def be32_def numeral_2_eq_2 [symmetric]
        del: push_bit_push_bit drop_bit_push_bit)
qed

lemma SHA1_fips:
  "SHA1_Final (SHA1_Update SHA1_Init m) = (sha1_fips m, SHA1_Init)"
proof -
  let ?c = "SHA1_Update SHA1_Init m"
  have c: "sha_inv ?c m" using sha_inv_Update [OF sha_inv_Init, of m] by simp
  have p: "padlen ?c = be32 (of_nat (8 * length m div 2 ^ 32)) @ be32 (of_nat (8 * length m))"
    using c by (simp add: padlen_be sha_inv_def)
  from pad_zeros [OF sha_inv_Update [OF c, of "[0x80]"]] obtain z where
    z: "z < 64" "(Suc (length m) + z) mod 64 = 56" "sha_inv (pad_loop (SHA1_Update ?c [0x80])) ((m @ [0x80]) @ replicate z 0)"
    by auto
  have "z = (119 - length m mod 64) mod 64" using z(1,2) by (intro pad_count) simp
  then have "(m @ [0x80]) @ replicate z 0 @ padlen ?c = fips_pad m" using p by (simp add: fips_pad_def Let_def)
  then have "sha_inv (SHA1_Update (pad_loop (SHA1_Update ?c [0x80])) (padlen ?c)) (fips_pad m)"
    using sha_inv_Update [OF z(3), of "padlen ?c"] by simp
  then show ?thesis unfolding SHA1_Final_def Let_def sha1_fips_def by (simp only: out_bytes sha_inv_def)
qed

lemma length_be32 [simp]: "length (be32 w) = 4"
  by (simp add: be32_def)

lemma length_sha1_fips: "length (sha1_fips m) = 20"
  by (simp add: sha1_fips_def fips_digest_def split: prod.splits)

lemma SHA1_Update_append: "SHA1_Update (SHA1_Update ctx a) b = SHA1_Update ctx (a @ b)"
  by (simp add: SHA1_Update_def)

text \<open>
  C10: Initializing, updating with a message and finishing gives the SHA-1 digest of the standard: the
  hash of the message padded with a one bit, zeroes and its 64-bit length; and the context is initialized again.
\<close>

theorem SHA1_equals_standard:
  "SHA1_Final (SHA1_Update SHA1_Init m) = (sha1_fips m, SHA1_Init)"
  by (rule SHA1_fips)

end
