(* ===== verification/Git_Util.thy ===== *)
theory Git_Util
  imports Git_Memory
begin

text \<open>
  Small components of the bundled git 0.99.1 with a contract of their own: quoting for the shell (\<^verbatim>\<open>quote.c\<close>), reading
  lines (\<^verbatim>\<open>strbuf.c\<close>), cleaning up messages (\<^verbatim>\<open>stripspace.c\<close>), the packet lines of the protocol (\<^verbatim>\<open>pkt-line.c\<close>) and the
  names of files below the repository (\<^verbatim>\<open>path.c\<close>), all under \<^verbatim>\<open>src/git-0.99.1\<close>.
\<close>

section \<open>Quoting (quote.c)\<close>

text \<open>The first loop counts; the second one fills a buffer of that size.\<close>

fun sq_count :: "bytes \<Rightarrow> nat \<Rightarrow> nat" where
  "sq_count [] cnt = cnt"
| "sq_count (c # cs) cnt = sq_count cs (if c = 39 then cnt + 3 + 1 else cnt + 1)"

fun sq_fill :: "nat \<Rightarrow> bytes \<Rightarrow> bytes \<Rightarrow> bytes res" where
  "sq_fill cnt [] out = Val out"
| "sq_fill cnt (c # cs) out =
     bindR (if c \<noteq> 39 then emit cnt c out else put_str cnt [39, 92, 39, 39] out) (sq_fill cnt cs)"

text \<open>On the C string at \<open>src\<close>; the result is the contents of the buffer with the NUL.\<close>

definition sq_quote :: "bytes \<Rightarrow> bytes res" where
  "sq_quote src =
     (let cnt = sq_count (cstr src) 3 in
      bindR (emit cnt 39 []) (\<lambda>out. bindR (sq_fill cnt (cstr src) out) (\<lambda>out. bindR (emit cnt 39 out) (emit cnt 0))))"

text \<open>
  How a POSIX shell reads a word: single quotes keep every byte but a single quote, a backslash outside of quotes
  keeps the next byte, and a byte that has a meaning of its own ends the word.
\<close>

definition sh_plain :: "byte \<Rightarrow> bool" where
  "sh_plain c \<longleftrightarrow> c \<notin> {0, 9, 10, 32, 33, 34, 35, 36, 38, 39, 40, 41, 42, 59, 60, 61, 62, 63, 91, 92, 93, 94, 96, 123, 124, 125, 126}"

fun sh_word :: "bool \<Rightarrow> bytes \<Rightarrow> bytes \<Rightarrow> (bytes \<times> bytes) option" where
  "sh_word True acc [] = None"
| "sh_word True acc (c # cs) = (if c = 39 then sh_word False acc cs else sh_word True (acc @ [c]) cs)"
| "sh_word False acc [] = Some (acc, [])"
| "sh_word False acc (c # cs) =
     (if c = 39 then sh_word True acc cs
      else if c = 92 then (case cs of [] \<Rightarrow> None | d # ds \<Rightarrow> sh_word False (acc @ [d]) ds)
      else if sh_plain c then sh_word False (acc @ [c]) cs
      else Some (acc, c # cs))"

definition sq_escape :: "bytes \<Rightarrow> bytes" where
  "sq_escape src = concat (map (\<lambda>c. if c = 39 then [39, 92, 39, 39] else [c]) src)"

lemma sq_count_escape: "sq_count src cnt = cnt + length (sq_escape src)"
  by (induction src arbitrary: cnt) (auto simp: sq_escape_def)

lemma sq_fill_escape:
  "length out + length (sq_escape src) < cnt \<Longrightarrow> sq_fill cnt src out = Val (out @ sq_escape src)"
  by (induction src arbitrary: out) (auto simp: sq_escape_def emit_def put_str_def)

lemma sq_quote_value: "sq_quote src = Val (39 # sq_escape (cstr src) @ [39, 0])"
  by (simp add: sq_quote_def Let_def sq_count_escape emit_def sq_fill_escape)

lemma sh_word_escape: "sh_word True acc (sq_escape src @ rest) = sh_word True (acc @ src) rest"
  by (induction src arbitrary: acc) (auto simp: sq_escape_def)


section \<open>Lines (strbuf.c)\<close>

text \<open>A stream: the bytes ahead, and whether an attempt to read past them has been made.\<close>

record cfile =
  ahead :: bytes
  at_eof :: bool

record strbuf =
  sb_buf :: bytes
  sb_alloc :: nat
  sb_len :: nat
  sb_eof :: bool

definition strbuf_init :: strbuf where
  "strbuf_init = \<lparr>sb_buf = [], sb_alloc = 0, sb_len = 0, sb_eof = False\<rparr>"

definition strbuf_begin :: "strbuf \<Rightarrow> strbuf" where
  "strbuf_begin sb = strbuf_init"

text \<open>The buffer as a list of \<open>sb_alloc\<close> bytes; those a reallocation adds are undefined, written as zero.\<close>

definition strbuf_add :: "byte \<Rightarrow> strbuf \<Rightarrow> strbuf res" where
  "strbuf_add ch sb =
     (let sb1 = (if sb_alloc sb \<le> sb_len sb
                 then (let a = sb_alloc sb * 3 div 2 + 16
                       in sb\<lparr>sb_alloc := a, sb_buf := sb_buf sb @ replicate (a - length (sb_buf sb)) 0\<rparr>)
                 else sb)
      in if sb_len sb1 < length (sb_buf sb1)
         then Val (sb1\<lparr>sb_buf := (sb_buf sb1)[sb_len sb1 := ch], sb_len := sb_len sb1 + 1\<rparr>) else Oob)"

definition strbuf_end :: "strbuf \<Rightarrow> strbuf res" where
  "strbuf_end sb = strbuf_add 0 sb"

text \<open>The loop over \<^verbatim>\<open>fgetc\<close>; the last component tells whether it ended with \<^verbatim>\<open>EOF\<close>.\<close>

fun read_loop :: "byte \<Rightarrow> bytes \<Rightarrow> strbuf \<Rightarrow> (strbuf \<times> cfile \<times> bool) res" where
  "read_loop trm [] sb = Val (sb, \<lparr>ahead = [], at_eof = True\<rparr>, True)"
| "read_loop trm (ch # cs) sb =
     (if ch = trm then Val (sb, \<lparr>ahead = cs, at_eof = False\<rparr>, False)
      else bindR (strbuf_add ch sb) (read_loop trm cs))"

definition read_line :: "strbuf \<Rightarrow> cfile \<Rightarrow> byte \<Rightarrow> (strbuf \<times> cfile) res" where
  "read_line sb fp trm =
     (let sb0 = strbuf_begin sb in
      if at_eof fp then Val (sb0\<lparr>sb_eof := True\<rparr>, fp)
      else bindR (read_loop trm (ahead fp) sb0) (\<lambda>(sb1, fp1, eof).
        bindR (strbuf_end (if eof \<and> sb_len sb1 = 0 then sb1\<lparr>sb_eof := True\<rparr> else sb1)) (\<lambda>sb2. Val (sb2, fp1))))"

text \<open>The contents of a buffer whose allocation is the real one.\<close>

definition sb_has :: "strbuf \<Rightarrow> bytes \<Rightarrow> bool" where
  "sb_has sb s \<longleftrightarrow> sb_alloc sb = length (sb_buf sb) \<and> sb_len sb = length s \<and> length s \<le> sb_alloc sb \<and>
     take (length s) (sb_buf sb) = s"

lemma sb_has_init: "sb_has strbuf_init []"
  by (simp add: sb_has_def strbuf_init_def)

lemma strbuf_add_has:
  assumes "sb_has sb s"
  shows "\<exists>sb'. strbuf_add ch sb = Val sb' \<and> sb_has sb' (s @ [ch]) \<and> sb_eof sb' = sb_eof sb"
proof (cases "sb_alloc sb \<le> sb_len sb")
  case True
  then have "sb_alloc sb = length s" "sb_buf sb = s" "sb_len sb = length s" using assms by (auto simp: sb_has_def)
  then show ?thesis by (simp add: strbuf_add_def Let_def sb_has_def list_update_append take_Suc_conv_app_nth)
next
  case False
  then have "sb_len sb = length s" "length s < length (sb_buf sb)" "take (length s) (sb_buf sb) = s" "sb_alloc sb = length (sb_buf sb)"
    using assms by (auto simp: sb_has_def)
  then show ?thesis using False by (simp add: strbuf_add_def Let_def sb_has_def take_Suc_conv_app_nth)
qed

lemma read_loop_has:
  assumes "sb_has sb s"
  shows "\<exists>sb'. read_loop trm cs sb =
      Val (sb', \<lparr>ahead = tl (dropWhile (\<lambda>c. c \<noteq> trm) cs), at_eof = trm \<notin> set cs\<rparr>, trm \<notin> set cs) \<and>
    sb_has sb' (s @ takeWhile (\<lambda>c. c \<noteq> trm) cs) \<and> sb_eof sb' = sb_eof sb"
  using assms
proof (induction cs arbitrary: sb s)
  case (Cons ch cs)
  show ?case
  proof (cases "ch = trm")
    case False
    from strbuf_add_has [OF Cons.prems, of ch] obtain sb1 where
      a: "strbuf_add ch sb = Val sb1" "sb_has sb1 (s @ [ch])" "sb_eof sb1 = sb_eof sb" by blast
    from Cons.IH [OF a(2)] show ?thesis using a(1,3) False by auto
  qed (use Cons.prems in simp)
qed simp

lemma read_line_value:
  assumes "\<not> at_eof fp"
  shows "\<exists>sb'. read_line sb fp trm =
      Val (sb', \<lparr>ahead = tl (dropWhile (\<lambda>c. c \<noteq> trm) (ahead fp)), at_eof = trm \<notin> set (ahead fp)\<rparr>) \<and>
    sb_has sb' (takeWhile (\<lambda>c. c \<noteq> trm) (ahead fp) @ [0]) \<and> (sb_eof sb' \<longleftrightarrow> ahead fp = [])"
proof -
  obtain sb1 where l: "read_loop trm (ahead fp) strbuf_init =
      Val (sb1, \<lparr>ahead = tl (dropWhile (\<lambda>c. c \<noteq> trm) (ahead fp)), at_eof = trm \<notin> set (ahead fp)\<rparr>, trm \<notin> set (ahead fp))"
      "sb_has sb1 (takeWhile (\<lambda>c. c \<noteq> trm) (ahead fp))" "sb_eof sb1 = False"
    using read_loop_has [OF sb_has_init, of trm "ahead fp"] by (auto simp: strbuf_init_def)
  let ?e = "trm \<notin> set (ahead fp) \<and> sb_len sb1 = 0"
  let ?sb = "if ?e then sb1\<lparr>sb_eof := True\<rparr> else sb1"
  have "sb_len sb1 = length (takeWhile (\<lambda>c. c \<noteq> trm) (ahead fp))" using l(2) by (simp add: sb_has_def)
  then have e: "?e \<longleftrightarrow> ahead fp = []" by (cases "ahead fp") auto
  have "sb_has ?sb (takeWhile (\<lambda>c. c \<noteq> trm) (ahead fp))" using l(2) by (simp add: sb_has_def)
  from strbuf_add_has [OF this, of 0] obtain sb2 where
    "strbuf_end ?sb = Val sb2" "sb_has sb2 (takeWhile (\<lambda>c. c \<noteq> trm) (ahead fp) @ [0])" "sb_eof sb2 = sb_eof ?sb"
    unfolding strbuf_end_def by blast
  then show ?thesis using assms l(1,3) e by (auto simp: read_line_def Let_def strbuf_begin_def)
qed

section \<open>Cleaning up messages (stripspace.c)\<close>

text \<open>The loop of \<^verbatim>\<open>cleanup\<close> on a C string that ends with a newline: the white space before it is eaten.\<close>

function cleanup_loop :: "bytes \<Rightarrow> bytes" where
  "cleanup_loop line =
     (let len = length line in
      if 1 < len \<and> is_space (line ! (len - 2)) then cleanup_loop (take (len - 2) line @ [10]) else line)"
  by auto
termination by (relation "measure length") auto

declare cleanup_loop.simps [simp del]

definition cleanup :: "bytes \<Rightarrow> bytes" where
  "cleanup line = (if 1 < length line \<and> last line = 10 then cleanup_loop line else line)"

text \<open>\<^verbatim>\<open>fgets\<close> with a buffer of \<open>size\<close> bytes: what it stores before the NUL, and the rest of the input.\<close>

fun fgets_buf :: "nat \<Rightarrow> bytes \<Rightarrow> bytes \<times> bytes" where
  "fgets_buf 0 inp = ([], inp)"
| "fgets_buf (Suc n) [] = ([], [])"
| "fgets_buf (Suc n) (c # inp) =
     (if c = 10 then ([c], inp) else (case fgets_buf n inp of (line, rest) \<Rightarrow> (c # line, rest)))"

lemma fgets_buf_parts: "fst (fgets_buf n inp) @ snd (fgets_buf n inp) = inp"
  by (induction n inp rule: fgets_buf.induct) (auto split: prod.splits)

lemma fgets_buf_progress: "0 < n \<Longrightarrow> inp \<noteq> [] \<Longrightarrow> length (snd (fgets_buf n inp)) < length inp"
proof -
  assume "0 < n" "inp \<noteq> []"
  then have "fst (fgets_buf n inp) \<noteq> []" by (cases n; cases inp) (auto split: prod.splits)
  then show ?thesis using arg_cong [OF fgets_buf_parts [of n inp], of length] by (simp flip: length_greater_0_conv)
qed

text \<open>
  The loop of \<^verbatim>\<open>main\<close>, which starts with \<open>empties = -1\<close>; the bytes of a line after a NUL are lost, and so is the test
  whether it is empty then.
\<close>

function strip_loop :: "int \<Rightarrow> bytes \<Rightarrow> bytes" where
  "strip_loop empties inp =
     (if inp = [] then []
      else (case fgets_buf 1023 inp of (buf, rest) \<Rightarrow>
        (let line = cleanup (cstr buf) in
         if line = [] \<or> hd line \<noteq> 10 then (if 0 < empties then [10] else []) @ line @ strip_loop 0 rest
         else if empties < 0 then strip_loop empties rest
         else strip_loop (empties + 1) rest)))"
  by pat_completeness auto
termination
proof (relation "measure (\<lambda>(empties, inp). length inp)"; clarsimp)
  fix inp buf rest assume "inp \<noteq> ([] :: bytes)" "(buf, rest) = fgets_buf 1023 inp"
  then show "length rest < length inp" "length rest < length inp" "length rest < length inp"
    using fgets_buf_progress [of 1023 inp] by (metis snd_conv zero_less_numeral)+
qed

declare strip_loop.simps [simp del]

definition stripspace :: "bytes \<Rightarrow> bytes" where
  "stripspace inp = strip_loop (-1) inp"

text \<open>What it means to do, on lines: white space at their ends goes, and so do empty lines but for single ones in between.\<close>

definition rstrip :: "bytes \<Rightarrow> bytes" where
  "rstrip l = rev (dropWhile is_space (rev l))"

fun squeeze :: "bool \<Rightarrow> bool \<Rightarrow> bytes list \<Rightarrow> bytes list" where
  "squeeze started pending [] = []"
| "squeeze started pending (l # ls) =
     (if rstrip l = [] then squeeze started started ls
      else (if pending then [[]] else []) @ rstrip l # squeeze True False ls)"

definition unlines :: "bytes list \<Rightarrow> bytes" where
  "unlines ls = concat (map (\<lambda>l. l @ [10]) ls)"

lemma is_space_10 [simp]: "is_space 10"
  by (simp add: is_space_def)

lemma cleanup_loop_rstrip: "cleanup_loop (l @ [10]) = rstrip l @ [10]"
proof (induction l rule: rev_induct)
  case Nil
  then show ?case by (simp add: cleanup_loop.simps rstrip_def)
next
  case (snoc c l)
  then show ?case by (subst cleanup_loop.simps) (simp add: rstrip_def nth_append Let_def)
qed

lemma cleanup_rstrip: "cleanup (l @ [10]) = rstrip l @ [10]"
  by (cases "l = []") (simp_all add: cleanup_def cleanup_loop_rstrip rstrip_def)

lemma fgets_buf_line: "10 \<notin> set l \<Longrightarrow> length l < n \<Longrightarrow> fgets_buf n (l @ 10 # rest) = (l @ [10], rest)"
proof (induction l arbitrary: n)
  case (Cons c l)
  then show ?case by (cases n) auto
next
  case Nil
  then show ?case by (cases n) auto
qed

lemma rstrip_hd: "10 \<notin> set l \<Longrightarrow> rstrip l \<noteq> [] \<Longrightarrow> hd (rstrip l) \<noteq> 10"
proof -
  assume "10 \<notin> set l" "rstrip l \<noteq> []"
  moreover have "set (rstrip l) \<subseteq> set l" unfolding rstrip_def using set_dropWhileD [of _ is_space "rev l"] by auto
  ultimately show ?thesis using hd_in_set [of "rstrip l"] by (metis subsetD)
qed

lemma strip_line:
  assumes "10 \<notin> set l" "no_nul l" "length l < 1023"
  shows "strip_loop empties (l @ 10 # inp) =
     (if rstrip l \<noteq> [] then (if 0 < empties then [10] else []) @ rstrip l @ 10 # strip_loop 0 inp
      else strip_loop (if empties < 0 then empties else empties + 1) inp)"
proof -
  have f: "fgets_buf 1023 (l @ 10 # inp) = (l @ [10], inp)" using assms(1,3) by (rule fgets_buf_line)
  have "no_nul (l @ [10])" using assms(2) by simp
  then have c: "cstr (l @ [10]) = l @ [10]" by (rule cstr_no_nul)
  have h: "hd (rstrip l @ [10]) = 10 \<longleftrightarrow> rstrip l = []" using rstrip_hd [OF assms(1)] by (cases "rstrip l = []") simp_all
  show ?thesis
    unfolding strip_loop.simps [of empties "l @ 10 # inp"] f prod.case c cleanup_rstrip Let_def
    by (simp add: h)
qed

lemma unlines_Cons: "unlines (l # ls) = l @ 10 # unlines ls"
  by (simp add: unlines_def)

lemma strip_loop_lines:
  assumes "\<forall>l\<in>set ls. 10 \<notin> set l \<and> no_nul l \<and> length l < 1023"
  shows "strip_loop empties (unlines ls) = unlines (squeeze (0 \<le> empties) (0 < empties) ls)"
  using assms
proof (induction ls arbitrary: empties)
  case Nil
  then show ?case by (simp add: strip_loop.simps unlines_def)
next
  case (Cons l ls)
  have l: "10 \<notin> set l" "no_nul l" "length l < 1023" and ls: "\<forall>l\<in>set ls. 10 \<notin> set l \<and> no_nul l \<and> length l < 1023"
    using Cons.prems by auto
  show ?case
    unfolding unlines_Cons strip_line [OF l] using Cons.IH [OF ls]
    by (cases "rstrip l = []"; cases "empties < 0") (simp_all add: unlines_def)
qed



text \<open>A line of 1023 bytes takes two calls of \<^verbatim>\<open>fgets\<close>, and its newline is taken for an empty line: at the end it is lost.\<close>

lemma strip_long_line:
  assumes "length l = 1023" "\<forall>c\<in>set l. c \<noteq> 10 \<and> c \<noteq> 0"
  shows "stripspace (l @ [10]) = l"
proof -
  have long: "10 \<notin> set l \<Longrightarrow> fgets_buf (length l) (l @ rest) = (l, rest)" for l rest
    by (induction l) auto
  have "fgets_buf 1023 (l @ [10]) = (l, [10])" using long [of l "[10]"] assms by (metis)
  moreover have c: "cstr l = l" using assms(2) by (intro cstr_no_nul) auto
  moreover have n: "l \<noteq> []" using assms(1) by auto
  moreover have "last l \<noteq> 10" "hd l \<noteq> 10" using assms(2) last_in_set [OF n] hd_in_set [OF n] by blast+
  ultimately have "strip_loop (-1) (l @ [10]) = l @ strip_loop 0 [10]"
    by (simp add: strip_loop.simps [of _ "l @ [10]"] cleanup_def)
  moreover have "strip_loop 0 [10] = []"
    by (simp add: strip_loop.simps numeral_eq_Suc cleanup_def cstr_def)
  ultimately show ?thesis by (simp add: stripspace_def)
qed


section \<open>Packet lines (pkt-line.c)\<close>

text \<open>
  What the system calls do is a list of answers: so many bytes moved, to be repeated (\<^verbatim>\<open>EAGAIN\<close>, \<^verbatim>\<open>EINTR\<close>), or failed.  A
  program that runs out of answers is still waiting.
\<close>

datatype io = Moved nat | Again | Failed
datatype ending = Finished | Died | Waiting

text \<open>\<^verbatim>\<open>safe_write\<close>: the bytes that have reached the other side, how it ended, and the answers left.\<close>

fun safe_write :: "io list \<Rightarrow> bytes \<Rightarrow> bytes \<times> ending \<times> io list" where
  "safe_write sc [] = ([], Finished, sc)"
| "safe_write [] (b # buf) = ([], Waiting, [])"
| "safe_write (Moved n # sc) (b # buf) =
     (if n = 0 then ([], Died, sc)
      else (case safe_write sc (drop n (b # buf)) of (out, e, sc') \<Rightarrow> (take n (b # buf) @ out, e, sc')))"
| "safe_write (Again # sc) (b # buf) = safe_write sc (b # buf)"
| "safe_write (Failed # sc) (b # buf) = ([], Died, sc)"

definition packet_flush :: "io list \<Rightarrow> bytes \<times> ending \<times> io list" where
  "packet_flush sc = safe_write sc (str ''0000'')"

definition hexchar :: bytes where
  "hexchar = str ''0123456789abcdef''"

definition pkt_hex :: "nat \<Rightarrow> byte" where
  "pkt_hex a = hexchar ! (a mod 16)"

text \<open>\<^verbatim>\<open>packet_write\<close> of a formatted text.\<close>

definition packet_write :: "io list \<Rightarrow> bytes \<Rightarrow> bytes \<times> ending \<times> io list" where
  "packet_write sc line =
     (if 996 \<le> length line then ([], Died, sc)
      else (let n = length line + 4 in
            safe_write sc ([pkt_hex (n div 4096), pkt_hex (n div 256), pkt_hex (n div 16), pkt_hex n] @ line)))"

text \<open>\<^verbatim>\<open>safe_read\<close> of \<open>want\<close> bytes: what has been read, how it ended, the bytes still on their way and the answers left.\<close>

fun safe_read :: "io list \<Rightarrow> bytes \<Rightarrow> nat \<Rightarrow> bytes \<times> ending \<times> bytes \<times> io list" where
  "safe_read sc inp 0 = ([], Finished, inp, sc)"
| "safe_read [] inp (Suc m) = ([], Waiting, inp, [])"
| "safe_read (Moved n # sc) inp (Suc m) =
     (let k = min n (min (Suc m) (length inp)) in
      if k = 0 then ([], Died, inp, sc)
      else (case safe_read sc (drop k inp) (Suc m - k) of (out, r) \<Rightarrow> (take k inp @ out, r)))"
| "safe_read (Again # sc) inp (Suc m) = safe_read sc inp (Suc m)"
| "safe_read (Failed # sc) inp (Suc m) = ([], Died, inp, sc)"

definition pkt_digit :: "byte \<Rightarrow> u32 option" where
  "pkt_digit c =
     (if 48 \<le> c \<and> c \<le> 57 then Some (ucast c - 48)
      else if 97 \<le> c \<and> c \<le> 102 then Some (ucast c - 97 + 10)
      else if 65 \<le> c \<and> c \<le> 70 then Some (ucast c - 65 + 10)
      else None)"

fun pkt_length :: "bytes \<Rightarrow> u32 \<Rightarrow> u32 option" where
  "pkt_length [] len = Some len"
| "pkt_length (c # cs) len =
     (case pkt_digit c of None \<Rightarrow> None | Some d \<Rightarrow> pkt_length cs (push_bit 4 len + d))"

text \<open>The value returned, what is stored into the buffer (nothing for a flush), the bytes still on their way and the answers left.\<close>

definition packet_read_line ::
  "io list \<Rightarrow> bytes \<Rightarrow> u32 \<Rightarrow> ending + (nat \<times> bytes option \<times> bytes \<times> io list)" where
  "packet_read_line sc inp sz =
     (case safe_read sc inp 4 of (linelen, e, inp1, sc1) \<Rightarrow>
        if e \<noteq> Finished then Inl e
        else (case pkt_length linelen 0 of None \<Rightarrow> Inl Died
          | Some len0 \<Rightarrow>
            if len0 = 0 then Inr (0, None, inp1, sc1)
            else (let len = len0 - 4 in
              if sz \<le> len then Inl Died
              else (case safe_read sc1 inp1 (unat len) of (line, e', inp2, sc2) \<Rightarrow>
                if e' \<noteq> Finished then Inl e' else Inr (unat len, Some (line @ [0]), inp2, sc2)))))"

lemma safe_write_finished: "safe_write sc buf = (out, Finished, sc') \<Longrightarrow> out = buf"
  by (induction sc buf arbitrary: out rule: safe_write.induct) (auto split: if_splits prod.splits)

text \<open>Answers that let a reader go on: each of the reads moves a byte at least.\<close>

definition moves :: "io list \<Rightarrow> nat" where
  "moves sc = length (filter (\<lambda>a. a \<noteq> Again) sc)"

definition lively :: "io list \<Rightarrow> bool" where
  "lively sc \<longleftrightarrow> list_all (\<lambda>a. case a of Moved n \<Rightarrow> 0 < n | Again \<Rightarrow> True | Failed \<Rightarrow> False) sc"

lemma safe_read_lively:
  "lively sc \<Longrightarrow> want \<le> moves sc \<Longrightarrow> want \<le> length inp \<Longrightarrow>
    \<exists>sc'. safe_read sc inp want = (take want inp, Finished, drop want inp, sc') \<and> lively sc' \<and> moves sc - want \<le> moves sc'"
proof (induction sc inp want rule: safe_read.induct)
  case (3 n sc inp m)
  let ?k = "min n (min (Suc m) (length inp))"
  have k: "0 < ?k" "?k \<le> Suc m" "?k \<le> length inp" using 3(2,4) by (auto simp: lively_def)
  have p: "lively sc" "Suc m - ?k \<le> moves sc" "Suc m - ?k \<le> length (drop ?k inp)"
    using 3(2-4) k by (auto simp: lively_def moves_def)
  from 3(1) [OF refl _ p] k(1) obtain sc' where
    r: "safe_read sc (drop ?k inp) (Suc m - ?k) =
        (take (Suc m - ?k) (drop ?k inp), Finished, drop (Suc m - ?k) (drop ?k inp), sc')"
      "lively sc'" "moves sc - (Suc m - ?k) \<le> moves sc'" by auto
  have "take ?k inp @ take (Suc m - ?k) (drop ?k inp) = take (Suc m) inp"
    using k(2) by (metis le_add_diff_inverse take_add)
  moreover have "drop (Suc m - ?k) (drop ?k inp) = drop (Suc m) inp" using k(2) by simp
  moreover have "moves (Moved n # sc) = Suc (moves sc)" by (simp add: moves_def)
  then have "moves (Moved n # sc) - Suc m \<le> moves sc'" using r(3) k(1,2) by linarith
  ultimately show ?case using r k(1) by (intro exI [of _ sc']) (simp only: safe_read.simps Let_def prod.case if_False, simp)
qed (auto simp: lively_def moves_def)

lemma pkt_digit_hex: "d < 16 \<Longrightarrow> pkt_digit (hexchar ! d) = Some (of_nat d)"
proof -
  assume "d < 16"
  then have "d \<in> set [0..<16]" by simp
  then show ?thesis by (auto simp: upt_rec [of 0] upt_rec [of "Suc 0"] upt_rec [of "Suc (Suc 0)"] hexchar_def pkt_digit_def
      numeral_2_eq_2 [symmetric] nth_Cons' word_le_nat_alt)
qed


lemma pkt_length_hex:
  assumes "n < 65536"
  shows "pkt_length [pkt_hex (n div 4096), pkt_hex (n div 256), pkt_hex (n div 16), pkt_hex n] 0 = Some (of_nat n)"
proof -
  have step: "of_nat k = of_nat (k div 16) * 16 + (of_nat (k mod 16) :: u32)" for k :: nat
    by (metis div_mult_mod_eq of_nat_add of_nat_mult of_nat_numeral)
  have "n div 4096 mod 16 = n div 4096" using assms by (intro mod_less) (auto intro: less_mult_imp_div_less)
  moreover have "n div 16 div 16 = n div 256" "n div 256 div 16 = n div 4096" by (simp_all add: div_mult2_eq [symmetric])
  ultimately have "of_nat n = (((of_nat (n div 4096 mod 16) * 16 + of_nat (n div 256 mod 16)) * 16 + of_nat (n div 16 mod 16)) * 16 +
      of_nat (n mod 16) :: u32)"
    using step [of n] step [of "n div 16"] step [of "n div 256"] by simp
  then show ?thesis by (simp add: pkt_hex_def pkt_digit_hex push_bit_eq_mult)
qed

text \<open>
  C24: A line that \<^verbatim>\<open>packet_write\<close> has sent is what \<^verbatim>\<open>packet_read_line\<close> returns, in a buffer with room for it and its
  NUL, however the system calls on both sides cut the bytes into pieces, and it leaves the bytes after it unread.
\<close>

theorem packet_round_trip:
  assumes "packet_write ws line = (sent, Finished, ws')" "of_nat (length line) < sz"
    and "lively rs" "length line + 4 \<le> moves rs"
  shows "\<exists>rs'. packet_read_line rs (sent @ rest) sz = Inr (length line, Some (line @ [0]), rest, rs')"
proof -
  let ?n = "length line + 4"
  let ?hdr = "[pkt_hex (?n div 4096), pkt_hex (?n div 256), pkt_hex (?n div 16), pkt_hex ?n]"
  have short: "length line < 996" and w: "safe_write ws (?hdr @ line) = (sent, Finished, ws')"
    using assms(1) by (auto simp: packet_write_def Let_def split: if_splits)
  have sent: "sent = ?hdr @ line" using safe_write_finished [OF w] .
  obtain rs1 where r1: "safe_read rs (sent @ rest) 4 = (?hdr, Finished, line @ rest, rs1)" "lively rs1" "length line \<le> moves rs1"
    using safe_read_lively [OF assms(3), of 4 "sent @ rest"] assms(4) unfolding sent by auto
  obtain rs2 where r2: "safe_read rs1 (line @ rest) (length line) = (line, Finished, rest, rs2)"
    using safe_read_lively [OF r1(2,3), of "line @ rest"] by auto
  have len: "pkt_length ?hdr 0 = Some (of_nat ?n)" using short by (intro pkt_length_hex) simp
  have u: "unat (of_nat k :: u32) = k" if "k < 1000" for k using that by (simp add: unat_of_nat)
  have nz: "(of_nat ?n :: u32) \<noteq> 0" using u [of ?n] short by (auto simp: word_unat_eq_iff simp del: of_nat_add)
  have sub: "(of_nat ?n :: u32) - 4 = of_nat (length line)" by simp
  show ?thesis
    unfolding packet_read_line_def r1(1) prod.case len option.case Let_def sub
    using nz r2 u [of "length line"] short assms(2) by (simp add: not_le del: of_nat_add)
qed

theorem packet_round_trip_witness:
  "\<exists>rs'. packet_read_line (replicate 6 (Moved 1)) (str ''0006hi'' @ str ''0000'') 100 =
    Inr (2, Some (str ''hi'' @ [0]), str ''0000'', rs')"
proof -
  have w: "packet_write [Moved 3, Again, Moved 9] (str ''hi'') = (str ''0006hi'', Finished, [])" by code_simp
  have "length (str ''hi'') + 4 \<le> moves (replicate 6 (Moved 1))" "lively (replicate 6 (Moved 1))" by code_simp+
  moreover have "of_nat (length (str ''hi'')) < (100 :: u32)" by simp
  ultimately have "\<exists>rs'. packet_read_line (replicate 6 (Moved 1)) (str ''0006hi'' @ str ''0000'') 100 =
      Inr (length (str ''hi''), Some (str ''hi'' @ [0]), str ''0000'', rs')"
    by (intro packet_round_trip [OF w])
  moreover have "length (str ''hi'') = 2" by simp
  ultimately show ?thesis by (simp only:)
qed

text \<open>A flush and an empty line come back as the same value, zero.\<close>

lemma packet_empty_like_flush:
  assumes "lively rs" "4 \<le> moves rs" "0 < sz"
  shows "\<exists>rs'. packet_read_line rs (str ''0000'' @ rest) sz = Inr (0, None, rest, rs')"
    "\<exists>rs'. packet_read_line rs (str ''0004'' @ rest) sz = Inr (0, Some [0], rest, rs')"
proof -
  obtain rs1 where r1: "safe_read rs (str ''0000'' @ rest) 4 = (str ''0000'', Finished, rest, rs1)"
    using safe_read_lively [OF assms(1,2), of "str ''0000'' @ rest"] by auto
  have l: "pkt_length (str ''0000'') 0 = Some 0" "pkt_length (str ''0004'') 0 = Some 4" by (simp_all add: pkt_digit_def)
  show "\<exists>rs'. packet_read_line rs (str ''0000'' @ rest) sz = Inr (0, None, rest, rs')"
    unfolding packet_read_line_def r1 prod.case l by simp
  obtain rs2 where r2: "safe_read rs (str ''0004'' @ rest) 4 = (str ''0004'', Finished, rest, rs2)"
    using safe_read_lively [OF assms(1,2), of "str ''0004'' @ rest"] by auto
  show "\<exists>rs'. packet_read_line rs (str ''0004'' @ rest) sz = Inr (0, Some [0], rest, rs')"
    unfolding packet_read_line_def r2 prod.case l using assms(3) by simp
qed

section \<open>Names below the repository (path.c)\<close>

definition bad_path :: bytes where "bad_path = str ''/bad-path/''"

definition cleanup_path :: "bytes \<Rightarrow> bytes" where
  "cleanup_path path = (if take 2 path = [46, 47] then dropWhile (\<lambda>c. c = 47) (drop 2 path) else path)"

text \<open>Of a formatted text; \<^verbatim>\<open>vsnprintf\<close> returns its whole length.\<close>

definition mkpath :: "bytes \<Rightarrow> bytes" where
  "mkpath txt = (if PATH_MAX \<le> length txt then bad_path else cleanup_path txt)"

text \<open>\<open>git_dir\<close> is the value of \<^verbatim>\<open>GIT_DIR\<close> in the environment, if there is one.\<close>

definition git_path :: "bytes option \<Rightarrow> bytes \<Rightarrow> bytes" where
  "git_path env txt =
     (let git_dir = (case env of None \<Rightarrow> str ''.git'' | Some d \<Rightarrow> d) in
      if PATH_MAX - 100 < length git_dir then bad_path
      else (let pre = (if git_dir \<noteq> [] \<and> last git_dir \<noteq> 47 then git_dir @ [47] else git_dir) in
            if PATH_MAX \<le> length pre + length txt then bad_path else cleanup_path (pre @ txt)))"

lemma git_path_fits: "length (git_path env txt) < PATH_MAX"
proof -
  have c: "length (cleanup_path p) \<le> length p" for p
    by (auto simp: cleanup_path_def intro: order_trans [OF length_dropWhile_le])
  have "length bad_path < PATH_MAX" by (simp add: bad_path_def PATH_MAX_def)
  then show ?thesis unfolding git_path_def Let_def using c le_less_trans
    by (smt (verit, del_insts) length_append not_le)
qed

end
