(* ===== verification/Git_Date.thy ===== *)
theory Git_Date
  imports Prelude
begin

text \<open>
  Dates of the bundled git 0.99.1, \<^verbatim>\<open>src/git-0.99.1/date.c\<close>: \<^verbatim>\<open>my_mktime\<close>, \<^verbatim>\<open>show_date\<close>, the parser \<^verbatim>\<open>parse_date\<close> with its
  guesses, and \<^verbatim>\<open>datestamp\<close>.  A string is the list of the bytes before its NUL.  Of the C library, \<^verbatim>\<open>gmtime\<close>, \<^verbatim>\<open>strtol\<close> and the
  character classes of the C locale are defined here; \<^verbatim>\<open>mktime\<close> and \<^verbatim>\<open>localtime\<close>, which know the local time zone, are
  arguments.
\<close>

section \<open>The C library\<close>

record tm =
  tm_sec :: int
  tm_min :: int
  tm_hour :: int
  tm_mday :: int
  tm_mon :: int
  tm_year :: int
  tm_wday :: int
  tm_isdst :: int

text \<open>Conversion to \<^verbatim>\<open>int\<close>, and its division, which truncates.\<close>

definition to_int :: "int \<Rightarrow> int" where
  "to_int n = (n + 2 ^ 31) mod 2 ^ 32 - 2 ^ 31"

definition cdiv :: "int \<Rightarrow> int \<Rightarrow> int" where
  "cdiv a b = (if a < 0 then - ((- a) div b) else a div b)"

definition cmod :: "int \<Rightarrow> int \<Rightarrow> int" where
  "cmod a b = (if a < 0 then - ((- a) mod b) else a mod b)"

definition isdigit :: "byte \<Rightarrow> bool" where
  "isdigit c \<longleftrightarrow> 48 \<le> c \<and> c \<le> 57"

definition isupper :: "byte \<Rightarrow> bool" where
  "isupper c \<longleftrightarrow> 65 \<le> c \<and> c \<le> 90"

definition islower :: "byte \<Rightarrow> bool" where
  "islower c \<longleftrightarrow> 97 \<le> c \<and> c \<le> 122"

definition isalpha :: "byte \<Rightarrow> bool" where
  "isalpha c \<longleftrightarrow> isupper c \<or> islower c"

definition isalnum :: "byte \<Rightarrow> bool" where
  "isalnum c \<longleftrightarrow> isalpha c \<or> isdigit c"

definition toupper :: "byte \<Rightarrow> byte" where
  "toupper c = (if islower c then c - 32 else c)"

text \<open>The character at a position of a string; the one after the last is the NUL.\<close>

definition ch_at :: "bytes \<Rightarrow> nat \<Rightarrow> byte" where
  "ch_at s i = (if i < length s then s ! i else 0)"

text \<open>The digits at the start of a string and their value; \<^verbatim>\<open>strtoul\<close> and \<^verbatim>\<open>strtol\<close> stop at their limits.\<close>

definition dec_digits :: "bytes \<Rightarrow> bytes" where
  "dec_digits s = takeWhile isdigit s"

definition dec_val :: "bytes \<Rightarrow> int" where
  "dec_val ds = fold (\<lambda>c v. v * 10 + int (unat c - 48)) ds 0"

definition strtoul :: "bytes \<Rightarrow> int \<times> nat" where
  "strtoul s = (min (dec_val (dec_digits s)) (2 ^ 64 - 1), length (dec_digits s))"

definition strtol :: "bytes \<Rightarrow> int \<times> nat" where
  "strtol s = (min (dec_val (dec_digits s)) (2 ^ 63 - 1), length (dec_digits s))"

text \<open>The calendar: the year and the day in it, from days counted from the first day of \<open>y\<close>; the month and the day in it.\<close>

definition is_leap :: "int \<Rightarrow> bool" where
  "is_leap y \<longleftrightarrow> (4 dvd y \<and> \<not> 100 dvd y) \<or> 400 dvd y"

definition year_days :: "int \<Rightarrow> int" where
  "year_days y = (if is_leap y then 366 else 365)"

function civil_year :: "int \<Rightarrow> int \<Rightarrow> int \<times> int" where
  "civil_year y d =
     (if d < 0 then civil_year (y - 1) (d + year_days (y - 1))
      else if year_days y \<le> d then civil_year (y + 1) (d - year_days y)
      else (y, d))"
  by pat_completeness auto
termination
  by (relation "measure (\<lambda>(y, d). if d < 0 then nat (- d) + 400 else nat d)") (auto simp: year_days_def split: if_splits)

declare civil_year.simps [simp del]

definition month_days :: "int \<Rightarrow> int list" where
  "month_days y = [31, if is_leap y then 29 else 28, 31, 30, 31, 30, 31, 31, 30, 31, 30, 31]"

fun civil_month :: "int list \<Rightarrow> int \<Rightarrow> int \<Rightarrow> int \<times> int" where
  "civil_month [] m d = (m, d)"
| "civil_month (l # ls) m d = (if d < l then (m, d + 1) else civil_month ls (m + 1) (d - l))"

text \<open>\<^verbatim>\<open>gmtime\<close>, which fails when the year does not fit into an \<^verbatim>\<open>int\<close>.\<close>

definition gmtime :: "int \<Rightarrow> tm option" where
  "gmtime t =
     (let days = t div 86400; s = t mod 86400 in
      case civil_year 1970 days of (y, d) \<Rightarrow>
        (case civil_month (month_days y) 0 d of (mon, mday) \<Rightarrow>
          if to_int (y - 1900) \<noteq> y - 1900 then None
          else Some \<lparr>tm_sec = s mod 60, tm_min = s div 60 mod 60, tm_hour = s div 3600, tm_mday = mday, tm_mon = mon,
            tm_year = y - 1900, tm_wday = (days + 4) mod 7, tm_isdst = 0\<rparr>))"

text \<open>The conversions \<^verbatim>\<open>%d\<close>, \<^verbatim>\<open>%02d\<close> and \<^verbatim>\<open>%+05d\<close>.\<close>

definition pr_d :: "int \<Rightarrow> bytes" where
  "pr_d n = (if n < 0 then [45] else []) @ digits 10 (nat \<bar>n\<bar>)"

definition pr_02d :: "int \<Rightarrow> bytes" where
  "pr_02d n = (let ds = digits 10 (nat \<bar>n\<bar>); k = (if n < 0 then 1 else 2) in
     (if n < 0 then [45] else []) @ replicate (k - length ds) 48 @ ds)"

definition pr_p05d :: "int \<Rightarrow> bytes" where
  "pr_p05d n = (let ds = digits 10 (nat \<bar>n\<bar>) in (if n < 0 then 45 else 43) # replicate (4 - length ds) 48 @ ds)"

definition pr_lu :: "int \<Rightarrow> bytes" where
  "pr_lu n = digits 10 (nat (n mod 2 ^ 64))"

section \<open>Times and texts (date.c)\<close>

definition mdays :: "int list" where
  "mdays = [0, 31, 59, 90, 120, 151, 181, 212, 243, 273, 304, 334]"

definition my_mktime :: "tm \<Rightarrow> int" where
  "my_mktime tm =
     (let year = tm_year tm - 70; month = tm_mon tm; day = tm_mday tm in
      if year < 0 \<or> 129 < year then -1
      else if month < 0 \<or> 11 < month then -1
      else (let day = (if month < 2 \<or> (year + 2) mod 4 \<noteq> 0 then day - 1 else day) in
            (year * 365 + (year + 1) div 4 + mdays ! nat month + day) * 24 * 60 * 60 +
            tm_hour tm * 60 * 60 + tm_min tm * 60 + tm_sec tm))"

definition month_names :: "bytes list" where
  "month_names = map str [''January'', ''February'', ''March'', ''April'', ''May'', ''June'',
     ''July'', ''August'', ''September'', ''October'', ''November'', ''December'']"

definition weekday_names :: "bytes list" where
  "weekday_names = map str [''Sunday'', ''Monday'', ''Tuesday'', ''Wednesday'', ''Thursday'', ''Friday'', ''Saturday'']"

definition tz_minutes :: "int \<Rightarrow> int" where
  "tz_minutes tz = (let m = \<bar>tz\<bar>; m = m div 100 * 60 + m mod 100 in if tz < 0 then - m else m)"

definition show_date :: "int \<Rightarrow> int \<Rightarrow> bytes option" where
  "show_date time tz =
     (case gmtime (time + tz_minutes tz * 60) of None \<Rightarrow> None
      | Some tm \<Rightarrow> Some (take 3 (weekday_names ! nat (tm_wday tm)) @ [32] @ take 3 (month_names ! nat (tm_mon tm)) @ [32] @
          pr_d (tm_mday tm) @ [32] @ pr_02d (tm_hour tm) @ [58] @ pr_02d (tm_min tm) @ [58] @ pr_02d (tm_sec tm) @ [32] @
          pr_d (tm_year tm + 1900) @ [32] @ pr_p05d tz))"

text \<open>\<^verbatim>\<open>timezone_names\<close>: name, offset in hours, and the hour of summer time.\<close>

definition timezone_names :: "(bytes \<times> int \<times> int) list" where
  "timezone_names = [
    (str ''IDLW'', - 12, 0), (str ''NT'', - 11, 0), (str ''CAT'', - 10, 0), (str ''HST'', - 10, 0),
    (str ''HDT'', - 10, 1), (str ''YST'', - 9, 0), (str ''YDT'', - 9, 1), (str ''PST'', - 8, 0),
    (str ''PDT'', - 8, 1), (str ''MST'', - 7, 0), (str ''MDT'', - 7, 1), (str ''CST'', - 6, 0),
    (str ''CDT'', - 6, 1), (str ''EST'', - 5, 0), (str ''EDT'', - 5, 1), (str ''AST'', - 3, 0),
    (str ''ADT'', - 3, 1), (str ''WAT'', - 1, 0), (str ''GMT'', 0, 0), (str ''UTC'', 0, 0),
    (str ''WET'', 0, 0), (str ''BST'', 0, 1), (str ''CET'', 1, 0), (str ''MET'', 1, 0), (str ''MEWT'', 1, 0),
    (str ''MEST'', 1, 1), (str ''CEST'', 1, 1), (str ''MESZ'', 1, 1), (str ''FWT'', 1, 0), (str ''FST'', 1, 1),
    (str ''EET'', 2, 0), (str ''EEST'', 2, 1), (str ''WAST'', 7, 0), (str ''WADT'', 7, 1), (str ''CCT'', 8, 0),
    (str ''JST'', 9, 0), (str ''EAST'', 10, 0), (str ''EADT'', 10, 1), (str ''GST'', 10, 0),
    (str ''NZT'', 11, 0), (str ''NZST'', 11, 0), (str ''NZDT'', 11, 1), (str ''IDLE'', 12, 0)]"

section \<open>Recognizing words (date.c)\<close>

fun match_string :: "bytes \<Rightarrow> bytes \<Rightarrow> nat \<Rightarrow> nat" where
  "match_string [] s i = i"
| "match_string (d # ds) s i =
     (if s \<noteq> [] \<and> (d = hd s \<or> toupper d = toupper (hd s)) then match_string ds (tl s) (i + 1)
      else if \<not> isalnum d then i else 0)"

definition skip_alpha :: "bytes \<Rightarrow> nat" where
  "skip_alpha date = 1 + length (takeWhile isalpha (drop 1 date))"

text \<open>The first name of a table, from index \<open>i\<close> on, of which three characters match.\<close>

fun find_name :: "bytes \<Rightarrow> bytes list \<Rightarrow> nat \<Rightarrow> (nat \<times> nat) option" where
  "find_name date [] i = None"
| "find_name date (nm # nms) i =
     (let m = match_string date nm 0 in if 3 \<le> m then Some (i, m) else find_name date nms (i + 1))"

text \<open>The number of characters used, and the broken-down time and the offset after it.\<close>

definition match_alpha :: "bytes \<Rightarrow> tm \<Rightarrow> int \<Rightarrow> nat \<times> tm \<times> int" where
  "match_alpha date tm offset =
     (case find_name date month_names 0 of Some (i, m) \<Rightarrow> (m, tm\<lparr>tm_mon := int i\<rparr>, offset)
      | None \<Rightarrow>
        (case find_name date weekday_names 0 of Some (i, m) \<Rightarrow> (m, tm\<lparr>tm_wday := int i\<rparr>, offset)
         | None \<Rightarrow>
           (case find_name date (map fst timezone_names) 0 of
              Some (i, m) \<Rightarrow>
                (case timezone_names ! i of (nm, off, dst) \<Rightarrow>
                   (m, tm, if offset = -1 then 60 * (off + dst) else offset))
            | None \<Rightarrow>
              (if match_string date (str ''PM'') 0 = 2
               then (2, if 0 < tm_hour tm \<and> tm_hour tm < 12 then tm\<lparr>tm_hour := tm_hour tm + 12\<rparr> else tm, offset)
               else (skip_alpha date, tm, offset)))))"

section \<open>Recognizing numbers (date.c)\<close>

definition is_date :: "int \<Rightarrow> int \<Rightarrow> int \<Rightarrow> tm \<Rightarrow> tm option" where
  "is_date year month day tm =
     (if 0 < month \<and> month < 13 \<and> 0 < day \<and> day < 32 then
        (if year = -1 then Some (tm\<lparr>tm_mon := month - 1, tm_mday := day\<rparr>)
         else (let y = (if 1970 \<le> year \<and> year < 2100 then Some (year - 1900)
                        else if 70 < year \<and> year < 100 then Some year
                        else if year < 38 then Some (year + 100) else None) in
               map_option (\<lambda>y. tm\<lparr>tm_mon := month - 1, tm_mday := day, tm_year := y\<rparr>) y))
      else None)"

text \<open>\<open>e\<close> is the position of the separator \<open>c\<close>.  No match is zero characters.\<close>

definition match_multi_number :: "int \<Rightarrow> byte \<Rightarrow> bytes \<Rightarrow> nat \<Rightarrow> tm \<Rightarrow> nat \<times> tm" where
  "match_multi_number num c date e tm =
     (case strtol (drop (e + 1) date) of (num2, n2) \<Rightarrow>
        (let e2 = e + 1 + n2 in
         case (if ch_at date e2 = c \<and> isdigit (ch_at date (e2 + 1))
               then (case strtol (drop (e2 + 1) date) of (num3, n3) \<Rightarrow> (num3, e2 + 1 + n3)) else (-1, e2)) of
           (num3, e3) \<Rightarrow>
             (if c = 58 then
                (let num3 = (if num3 < 0 then 0 else num3) in
                 if num < 25 \<and> 0 \<le> num2 \<and> num2 < 60 \<and> 0 \<le> num3 \<and> num3 \<le> 60
                 then (e3, tm\<lparr>tm_hour := num, tm_min := num2, tm_sec := num3\<rparr>) else (0, tm))
              else
                (let y = to_int num; a = to_int num2; b = to_int num3 in
                 case (if 70 < num then is_date y a b tm else None) of Some tm' \<Rightarrow> (e3, tm')
                 | None \<Rightarrow>
                   (case (if 70 < num then is_date y b a tm else None) of Some tm' \<Rightarrow> (e3, tm')
                    | None \<Rightarrow>
                      (case is_date b a y tm of Some tm' \<Rightarrow> (e3, tm')
                       | None \<Rightarrow> (case is_date b y a tm of Some tm' \<Rightarrow> (e3, tm') | None \<Rightarrow> (0, tm))))))))"

text \<open>The guess by the number of digits.\<close>

definition guess_number :: "nat \<Rightarrow> int \<Rightarrow> tm \<Rightarrow> int \<Rightarrow> tm \<times> int" where
  "guess_number n num tm offset =
     (if n = 4 then
        (if num \<le> 1200 \<and> offset = -1 then (tm, num div 100 * 60 + num mod 100)
         else if 1900 < num \<and> num < 2100 then (tm\<lparr>tm_year := num - 1900\<rparr>, offset) else (tm, offset))
      else if 0 < num \<and> num < 32 \<and> tm_mday tm < 0 then (tm\<lparr>tm_mday := num\<rparr>, offset)
      else if n = 2 \<and> tm_year tm < 0 \<and> num < 10 \<and> 0 \<le> tm_mday tm then (tm\<lparr>tm_year := num + 100\<rparr>, offset)
      else if n = 2 \<and> tm_year tm < 0 \<and> 70 \<le> num then (tm\<lparr>tm_year := num\<rparr>, offset)
      else if 0 < num \<and> num < 32 then (tm\<lparr>tm_mday := num\<rparr>, offset)
      else if 1900 < num then (tm\<lparr>tm_year := to_int (num - 1900)\<rparr>, offset)
      else if 70 < num then (tm\<lparr>tm_year := num\<rparr>, offset)
      else if 0 < num \<and> num < 13 then (tm\<lparr>tm_mon := num - 1\<rparr>, offset)
      else (tm, offset))"

text \<open>A count of seconds is a \<^verbatim>\<open>time_t\<close>, signed.  The last component is \<^verbatim>\<open>tm_gmt\<close>.\<close>

definition match_digit :: "bytes \<Rightarrow> tm \<Rightarrow> int \<Rightarrow> bool \<Rightarrow> nat \<times> tm \<times> int \<times> bool" where
  "match_digit date tm offset tm_gmt =
     (case strtoul date of (num, e) \<Rightarrow>
        (case (if 946684800 < num then gmtime (if num < 2 ^ 63 then num else num - 2 ^ 64) else None) of
           Some tm' \<Rightarrow> (e, tm', offset, True)
         | None \<Rightarrow>
           (let c = ch_at date e;
                r = (if c \<in> {58, 47, 45} \<and> isdigit (ch_at date (e + 1)) then match_multi_number num c date e tm else (0, tm))
            in if fst r \<noteq> 0 then (fst r, snd r, offset, tm_gmt)
               else (let n = 1 + length (takeWhile isdigit (drop 1 date)) in
                     case guess_number n num tm offset of (tm', offset') \<Rightarrow> (n, tm', offset', tm_gmt)))))"

definition match_tz :: "bytes \<Rightarrow> int \<Rightarrow> nat \<times> int" where
  "match_tz date offset =
     (case strtoul (drop 1 date) of (v, n) \<Rightarrow>
        (let off = to_int v; min = cmod off 100; hour = cdiv off 100 in
         if min < 60 \<and> 2 < n
         then (n + 1, if ch_at date 0 = 45 then - (hour * 60 + min) else hour * 60 + min) else (n + 1, offset)))"

section \<open>The parser (date.c)\<close>

definition date_step :: "bytes \<Rightarrow> tm \<Rightarrow> int \<Rightarrow> bool \<Rightarrow> nat \<times> tm \<times> int \<times> bool" where
  "date_step date tm offset tm_gmt =
     (let c = ch_at date 0 in
      if isalpha c then (case match_alpha date tm offset of (m, tm', off') \<Rightarrow> (m, tm', off', tm_gmt))
      else if isdigit c then match_digit date tm offset tm_gmt
      else if (c = 45 \<or> c = 43) \<and> isdigit (ch_at date 1) then
        (case match_tz date offset of (m, off') \<Rightarrow> (m, tm, off', tm_gmt))
      else (0, tm, offset, tm_gmt))"

function parse_loop :: "bytes \<Rightarrow> tm \<Rightarrow> int \<Rightarrow> bool \<Rightarrow> tm \<times> int \<times> bool" where
  "parse_loop date tm offset tm_gmt =
     (if date = [] \<or> hd date = 10 then (tm, offset, tm_gmt)
      else (case date_step date tm offset tm_gmt of (m, tm', off', gmt') \<Rightarrow>
        parse_loop (drop (if m = 0 then 1 else m) date) tm' off' gmt'))"
  by pat_completeness auto
termination by (relation "measure (\<lambda>(date, r). length date)") (auto simp: length_greater_0_conv [symmetric] simp del: length_greater_0_conv)

declare parse_loop.simps [simp del]

definition tm_unset :: tm where
  "tm_unset = \<lparr>tm_sec = 0, tm_min = 0, tm_hour = 0, tm_mday = -1, tm_mon = -1, tm_year = -1, tm_wday = 0, tm_isdst = -1\<rparr>"

text \<open>The text stored into \<^verbatim>\<open>result\<close>, if any; the product is one of the type \<^verbatim>\<open>int\<close>.\<close>

definition parse_date :: "(tm \<Rightarrow> int) \<Rightarrow> bytes \<Rightarrow> nat \<Rightarrow> bytes option" where
  "parse_date mktime date maxlen =
     (case parse_loop date tm_unset (-1) False of (tm, offset0, tm_gmt) \<Rightarrow>
        (let thn = my_mktime tm;
             offset = (if offset0 = -1 then to_int (cdiv (thn - mktime tm) 60) else offset0) in
         if thn = -1 then None
         else (let thn = (if tm_gmt then thn else thn - to_int (offset * 60)) in
               Some (take (maxlen - 1) (pr_lu thn @ [32, if offset < 0 then 45 else 43] @
                 pr_02d (\<bar>offset\<bar> div 60) @ pr_02d (\<bar>offset\<bar> mod 60))))))"

definition datestamp :: "(int \<Rightarrow> tm) \<Rightarrow> int \<Rightarrow> nat \<Rightarrow> bytes" where
  "datestamp localtime now bufsize =
     (let offset = cdiv (to_int (my_mktime (localtime now) - now)) 60 in
      take (bufsize - 1) (pr_lu now @ [32] @ pr_p05d (cdiv offset 60 * 100 + cmod offset 60)))"

section \<open>The calendar from 1970 to 2099\<close>

text \<open>Days before the first day of a year, as \<^verbatim>\<open>my_mktime\<close> counts them.\<close>

definition days_before :: "int \<Rightarrow> int" where
  "days_before y = (y - 1970) * 365 + (y - 1969) div 4"

lemma is_leap_range: "1970 \<le> y \<Longrightarrow> y \<le> 2099 \<Longrightarrow> is_leap y \<longleftrightarrow> y mod 4 = 0"
  unfolding is_leap_def by presburger

lemma days_before_Suc:
  assumes "1970 \<le> y" "y \<le> 2099"
  shows "days_before (y + 1) = days_before y + year_days y"
proof -
  have "(y - 1968) div 4 = (y - 1969) div 4 + (if y mod 4 = 0 then 1 else 0)" by presburger
  then show ?thesis using is_leap_range [OF assms] by (simp add: days_before_def year_days_def algebra_simps)
qed

lemma civil_year_range:
  assumes "1970 \<le> y" "y \<le> 2099" "0 \<le> d" "days_before y + d < days_before 2100"
  shows "\<exists>y' d'. civil_year y d = (y', d') \<and> 1970 \<le> y' \<and> y' \<le> 2099 \<and> 0 \<le> d' \<and> d' < year_days y' \<and>
    days_before y' + d' = days_before y + d"
  using assms
proof (induction y d rule: civil_year.induct)
  case (1 y d)
  show ?case
  proof (cases "year_days y \<le> d")
    case True
    have s: "days_before (y + 1) = days_before y + year_days y" using days_before_Suc 1(3,4) by blast
    have "y \<noteq> 2099"
    proof
      assume "y = 2099"
      with s 1(6) True show False by simp
    qed
    with 1(3-6) True s have "\<exists>y' d'. civil_year (y + 1) (d - year_days y) = (y', d') \<and> 1970 \<le> y' \<and> y' \<le> 2099 \<and> 0 \<le> d' \<and>
        d' < year_days y' \<and> days_before y' + d' = days_before (y + 1) + (d - year_days y)"
      by (intro 1(2)) auto
    then show ?thesis using 1(5) True s by (simp add: civil_year.simps [of y d])
  next
    case False
    then show ?thesis using 1(3-6) by (simp add: civil_year.simps [of y d])
  qed
qed

text \<open>The day in the year that \<^verbatim>\<open>my_mktime\<close> computes from the month and the day.\<close>

definition month_day :: "bool \<Rightarrow> int \<Rightarrow> int \<Rightarrow> int" where
  "month_day leap mon mday = mdays ! nat mon + (if mon < 2 \<or> \<not> leap then mday - 1 else mday)"

lemma civil_month_range:
  assumes "0 \<le> d" "d < year_days y"
  shows "\<exists>mon mday. civil_month (month_days y) 0 d = (mon, mday) \<and> 0 \<le> mon \<and> mon \<le> 11 \<and> 1 \<le> mday \<and> mday \<le> 31 \<and>
    month_day (is_leap y) mon mday = d"
  using assms by (cases "is_leap y") (simp_all add: month_days_def year_days_def month_day_def mdays_def)

lemma clock:
  assumes "0 \<le> (s :: int)" "s < 86400"
  shows "s div 3600 * 60 * 60 + s div 60 mod 60 * 60 + s mod 60 = s" "0 \<le> s div 3600" "s div 3600 < 24"
    "0 \<le> s div 60 mod 60" "s div 60 mod 60 < 60" "0 \<le> s mod 60" "s mod 60 < 60"
proof -
  have "s div 3600 = s div 60 div 60" by (simp add: zdiv_zmult2_eq [symmetric])
  moreover have "s div 60 div 60 * 60 + s div 60 mod 60 = s div 60" "s div 60 * 60 + s mod 60 = s" by simp_all
  ultimately show "s div 3600 * 60 * 60 + s div 60 mod 60 * 60 + s mod 60 = s" by linarith
qed (use assms in \<open>auto intro: pos_imp_zdiv_nonneg_iff [THEN iffD2]\<close>)

text \<open>Broken-down times \<^verbatim>\<open>my_mktime\<close> is made for.\<close>

definition tm_ok :: "tm \<Rightarrow> bool" where
  "tm_ok tm \<longleftrightarrow> 0 \<le> tm_sec tm \<and> tm_sec tm < 60 \<and> 0 \<le> tm_min tm \<and> tm_min tm < 60 \<and> 0 \<le> tm_hour tm \<and> tm_hour tm < 24 \<and>
     1 \<le> tm_mday tm \<and> tm_mday tm \<le> 31 \<and> 0 \<le> tm_mon tm \<and> tm_mon tm \<le> 11 \<and> 70 \<le> tm_year tm \<and> tm_year tm \<le> 199 \<and>
     0 \<le> tm_wday tm \<and> tm_wday tm \<le> 6"

lemma my_mktime_days:
  assumes "tm_year tm = y - 1900" "1970 \<le> y" "y \<le> 2099" "0 \<le> tm_mon tm" "tm_mon tm \<le> 11"
  shows "my_mktime tm = (days_before y + month_day (is_leap y) (tm_mon tm) (tm_mday tm)) * 24 * 60 * 60 +
    tm_hour tm * 60 * 60 + tm_min tm * 60 + tm_sec tm"
proof -
  have leap: "(y - 1968) mod 4 \<noteq> 0 \<longleftrightarrow> \<not> is_leap y" unfolding is_leap_range [OF assms(2,3)] by presburger
  have y: "y - 1900 - 70 = y - 1970" "y - 1970 + 2 = y - 1968" "y - 1970 + 1 = y - 1969" by simp_all
  have "my_mktime tm = ((y - 1970) * 365 + (y - 1969) div 4 + mdays ! nat (tm_mon tm) +
      (if tm_mon tm < 2 \<or> \<not> is_leap y then tm_mday tm - 1 else tm_mday tm)) * 24 * 60 * 60 +
      tm_hour tm * 60 * 60 + tm_min tm * 60 + tm_sec tm"
    unfolding my_mktime_def Let_def assms(1) y leap using assms(2-5) by simp
  then show ?thesis by (simp only: days_before_def month_day_def add.assoc)
qed

lemma to_int_small: "- (2 ^ 31) \<le> n \<Longrightarrow> n < 2 ^ 31 \<Longrightarrow> to_int n = n"
  by (simp add: to_int_def)

lemma mktime_gmtime:
  assumes "0 \<le> t" "t < 4102444800"
  shows "\<exists>tm. gmtime t = Some tm \<and> my_mktime tm = t \<and> tm_ok tm"
proof -
  define d s where "d = t div 86400" and "s = t mod 86400"
  have t: "t = d * 86400 + s" unfolding d_def s_def by (rule div_mult_mod_eq [symmetric])
  have s: "0 \<le> s" "s < 86400" by (simp_all add: s_def)
  have d: "0 \<le> d" "d < 47482" using assms t s by simp_all
  have "days_before 2100 = 47482" "days_before 1970 = 0" by (simp_all add: days_before_def)
  with civil_year_range [of 1970 d] d obtain y yd where y: "civil_year 1970 d = (y, yd)" "1970 \<le> y" "y \<le> 2099" "0 \<le> yd"
      "yd < year_days y" "days_before y + yd = d"
    by auto
  obtain mon mday where m: "civil_month (month_days y) 0 yd = (mon, mday)" "0 \<le> mon" "mon \<le> 11" "1 \<le> mday" "mday \<le> 31"
      "month_day (is_leap y) mon mday = yd"
    using civil_month_range [OF y(4,5)] by blast
  define tm where "tm = \<lparr>tm_sec = s mod 60, tm_min = s div 60 mod 60, tm_hour = s div 3600, tm_mday = mday, tm_mon = mon,
      tm_year = y - 1900, tm_wday = (d + 4) mod 7, tm_isdst = 0\<rparr>"
  have sel: "tm_year tm = y - 1900" "tm_mon tm = mon" "tm_mday tm = mday" "tm_hour tm = s div 3600" "tm_min tm = s div 60 mod 60"
    "tm_sec tm = s mod 60" "tm_wday tm = (d + 4) mod 7" by (simp_all add: tm_def)
  have fit: "to_int (y - 1900) = y - 1900" using y(2,3) by (intro to_int_small) simp_all
  have g: "gmtime t = Some tm"
    unfolding gmtime_def Let_def d_def [symmetric] s_def [symmetric] y(1) m(1) prod.case tm_def [symmetric] fit by simp
  have "my_mktime tm = (d * 24 * 60 * 60 + s div 3600 * 60 * 60 + s div 60 mod 60 * 60 + s mod 60)"
    using my_mktime_days [OF sel(1) y(2,3)] m(2,3) unfolding sel m(6) y(6) by blast
  then have "my_mktime tm = t" using clock(1) [OF s] t by linarith
  moreover have "tm_ok tm" unfolding tm_ok_def sel using y(2,3) m(2-5) clock(2-7) [OF s] by simp
  ultimately show ?thesis using g by blast
qed

section \<open>Digits\<close>

lemma isdigit_digit_char [simp]: "d < 10 \<Longrightarrow> isdigit (digit_char d)"
  unfolding isdigit_def digit_char_def by (auto simp: word_le_nat_alt unat_word_ariths unat_of_nat)

lemma unat_digit_char [simp]: "d < 10 \<Longrightarrow> unat (digit_char d) = 48 + d"
  unfolding digit_char_def by (auto simp: unat_word_ariths unat_of_nat)

definition all_digits :: "bytes \<Rightarrow> bool" where
  "all_digits ds \<longleftrightarrow> list_all isdigit ds"

lemma all_digits_digits: "all_digits (digits 10 n)"
  unfolding all_digits_def list_all_iff using set_digits [of 10 _ n] by fastforce

lemma dec_digits_append: "all_digits ds \<Longrightarrow> rest = [] \<or> \<not> isdigit (hd rest) \<Longrightarrow> dec_digits (ds @ rest) = ds"
  unfolding dec_digits_def all_digits_def
  by (induction ds) (cases rest; auto)+

lemma dec_val_snoc: "dec_val (ds @ [c]) = dec_val ds * 10 + int (unat c - 48)"
  by (simp add: dec_val_def)

lemma dec_val_digits: "dec_val (digits 10 n) = int n"
proof (induction "10 :: nat" n rule: digits.induct)
  case (1 n)
  show ?case
  proof (cases "n < 10")
    case True
    then show ?thesis by (simp add: digits.simps [of 10 n] dec_val_def)
  next
    case False
    then have "dec_val (digits 10 n) = int (n div 10) * 10 + int (n mod 10)"
      using 1 by (simp add: digits.simps [of 10 n] dec_val_snoc)
    also have "\<dots> = int n" by (metis div_mult_mod_eq of_nat_add of_nat_mult of_nat_numeral)
    finally show ?thesis .
  qed
qed

lemma length_digits_less: "10 ^ k \<le> n \<Longrightarrow> k < length (digits 10 n)"
proof (induction k arbitrary: n)
  case (Suc k)
  have "10 ^ k \<le> n div 10" using div_le_mono [OF Suc.prems, of 10] by simp
  from Suc.IH [OF this] have "k < length (digits 10 (n div 10))" .
  moreover have "10 \<le> n" using Suc.prems by (metis le_trans one_le_numeral one_le_power power_Suc mult_le_mono2 mult.right_neutral)
  ultimately show ?case by (simp add: digits.simps [of 10 n])
qed simp

lemma length_digits_eq: "10 ^ k \<le> n \<Longrightarrow> n < 10 ^ Suc k \<Longrightarrow> length (digits 10 n) = Suc k"
  using length_digits_less [of k n] length_digits_le [of n 10 "Suc k"] by simp

text \<open>Texts that the scanner reads as a number: digits of that value.\<close>

definition spells :: "bytes \<Rightarrow> int \<Rightarrow> bool" where
  "spells ds n \<longleftrightarrow> all_digits ds \<and> ds \<noteq> [] \<and> dec_val ds = n"

lemma spells_digits: "spells (digits 10 n) (int n)"
  by (simp add: spells_def all_digits_digits dec_val_digits)

lemma dec_val_zeros: "dec_val (replicate k 48 @ ds) = dec_val ds"
  by (induction k) (simp_all add: dec_val_def)

lemma spells_zeros: "spells ds n \<Longrightarrow> spells (replicate k 48 @ ds) n"
  by (auto simp: spells_def dec_val_zeros all_digits_def list_all_iff isdigit_def)

lemma pr_d_spells: "0 \<le> n \<Longrightarrow> spells (pr_d n) n"
  using spells_digits [of "nat n"] by (simp add: pr_d_def)

lemma pr_02d_spells: "0 \<le> n \<Longrightarrow> n < 100 \<Longrightarrow> spells (pr_02d n) n \<and> length (pr_02d n) = 2"
  using spells_zeros [OF spells_digits [of "nat n"]] length_digits_le [of "nat n" 10 2]
  by (simp add: pr_02d_def Let_def)

lemma strto_spells:
  assumes "spells ds n" "rest = [] \<or> \<not> isdigit (hd rest)" "n < 2 ^ 63"
  shows "strtoul (ds @ rest) = (n, length ds)" "strtol (ds @ rest) = (n, length ds)"
  using assms dec_digits_append [of ds rest] by (simp_all add: spells_def strtoul_def strtol_def)

lemma spells_hd: "spells ds n \<Longrightarrow> isdigit (hd ds)"
  by (cases ds) (auto simp: spells_def all_digits_def)

lemma spells_run:
  assumes "spells ds n" "rest = [] \<or> \<not> isdigit (hd rest)"
  shows "1 + length (takeWhile isdigit (drop 1 (ds @ rest))) = length ds"
proof -
  obtain c cs where ds: "ds = c # cs" using assms(1) by (cases ds) (auto simp: spells_def)
  have "takeWhile isdigit (cs @ rest) = cs"
    using assms dec_digits_append [of cs rest] by (simp add: ds spells_def all_digits_def dec_digits_def)
  then show ?thesis by (simp add: ds)
qed

lemma ch_at_skip: "ch_at (xs @ ys) (length xs + i) = ch_at ys i"
  by (simp add: ch_at_def)

lemma ch_at_length: "ch_at (xs @ ys) (length xs) = ch_at ys 0"
  using ch_at_skip [of xs ys 0] by simp

lemma ch_at_0: "xs \<noteq> [] \<Longrightarrow> ch_at (xs @ ys) 0 = hd xs"
  by (cases xs) (auto simp: ch_at_def)

section \<open>Steps of the parser\<close>

lemma parse_step:
  assumes "date_step (tok @ rest) tm off g = (length tok, tm', off', g')" "tok \<noteq> []" "hd tok \<noteq> 10"
  shows "parse_loop (tok @ rest) tm off g = parse_loop rest tm' off' g'"
  using assms by (cases tok) (simp_all add: parse_loop.simps [of "a # b" for a b])

lemma parse_space: "parse_loop (32 # rest) tm off g = parse_loop rest tm off g"
proof -
  have "date_step (32 # rest) tm off g = (0, tm, off, g)"
    by (simp add: date_step_def ch_at_def isalpha_def isupper_def islower_def isdigit_def Let_def)
  then show ?thesis by (simp add: parse_loop.simps [of "32 # rest"])
qed


lemmas chars = isalpha_def isupper_def islower_def isdigit_def isalnum_def toupper_def

lemma less_7_cases: "i < (7 :: nat) \<Longrightarrow> i = 0 \<or> i = 1 \<or> i = 2 \<or> i = 3 \<or> i = 4 \<or> i = 5 \<or> i = 6"
  by linarith

lemma less_12_cases:
  "i < (12 :: nat) \<Longrightarrow> i = 0 \<or> i = 1 \<or> i = 2 \<or> i = 3 \<or> i = 4 \<or> i = 5 \<or> i = 6 \<or> i = 7 \<or> i = 8 \<or> i = 9 \<or> i = 10 \<or> i = 11"
  by presburger

lemma find_month: "i < 12 \<Longrightarrow> find_name (take 3 (month_names ! i) @ 32 # rest) month_names 0 = Some (i, 3)"
  by (elim less_12_cases [elim_format] disjE) (simp_all add: month_names_def chars)

lemma find_weekday:
  "i < 7 \<Longrightarrow> find_name (take 3 (weekday_names ! i) @ 32 # rest) month_names 0 = None \<and>
    find_name (take 3 (weekday_names ! i) @ 32 # rest) weekday_names 0 = Some (i, 3)"
  by (elim less_7_cases [elim_format] disjE) (simp_all add: month_names_def weekday_names_def chars)

lemma name_start:
  "i < 12 \<Longrightarrow> isalpha (ch_at (take 3 (month_names ! i) @ rest) 0) \<and> length (take 3 (month_names ! i)) = 3 \<and> hd (take 3 (month_names ! i)) \<noteq> 10"
  "j < 7 \<Longrightarrow> isalpha (ch_at (take 3 (weekday_names ! j) @ rest) 0) \<and> length (take 3 (weekday_names ! j)) = 3 \<and> hd (take 3 (weekday_names ! j)) \<noteq> 10"
  by (elim less_12_cases [elim_format] disjE; simp add: month_names_def chars ch_at_def)
    (elim less_7_cases [elim_format] disjE; simp add: weekday_names_def chars ch_at_def)

lemma parse_month:
  assumes "i < 12"
  shows "parse_loop (take 3 (month_names ! i) @ 32 # rest) tm off g = parse_loop rest (tm\<lparr>tm_mon := int i\<rparr>) off g"
proof -
  let ?tok = "take 3 (month_names ! i)"
  have n: "isalpha (ch_at (?tok @ 32 # rest) 0)" "length ?tok = 3" "hd ?tok \<noteq> 10"
    using name_start(1) [OF assms, of "32 # rest"] by blast+
  have "date_step (?tok @ 32 # rest) tm off g = (length ?tok, tm\<lparr>tm_mon := int i\<rparr>, off, g)"
    using n(1) find_month [OF assms, of rest] unfolding n(2) by (simp add: date_step_def match_alpha_def)
  moreover have "?tok \<noteq> []" using n(2) by (metis list.size(3) zero_neq_numeral)
  ultimately have "parse_loop (?tok @ 32 # rest) tm off g = parse_loop (32 # rest) (tm\<lparr>tm_mon := int i\<rparr>) off g"
    using n(3) by (rule parse_step)
  then show ?thesis by (simp only: parse_space)
qed

lemma parse_weekday:
  assumes "i < 7"
  shows "parse_loop (take 3 (weekday_names ! i) @ 32 # rest) tm off g = parse_loop rest (tm\<lparr>tm_wday := int i\<rparr>) off g"
proof -
  let ?tok = "take 3 (weekday_names ! i)"
  have n: "isalpha (ch_at (?tok @ 32 # rest) 0)" "length ?tok = 3" "hd ?tok \<noteq> 10"
    using name_start(2) [OF assms, of "32 # rest"] by blast+
  have "date_step (?tok @ 32 # rest) tm off g = (length ?tok, tm\<lparr>tm_wday := int i\<rparr>, off, g)"
    using n(1) find_weekday [OF assms, of rest] unfolding n(2) by (simp add: date_step_def match_alpha_def)
  moreover have "?tok \<noteq> []" using n(2) by (metis list.size(3) zero_neq_numeral)
  ultimately have "parse_loop (?tok @ 32 # rest) tm off g = parse_loop (32 # rest) (tm\<lparr>tm_wday := int i\<rparr>) off g"
    using n(3) by (rule parse_step)
  then show ?thesis by (simp only: parse_space)
qed

text \<open>A number that starts a token.\<close>

lemma isdigit_not_alpha: "isdigit c \<Longrightarrow> \<not> isalpha c" "isdigit c \<Longrightarrow> c \<noteq> 10" "isdigit c \<Longrightarrow> c \<noteq> 45 \<and> c \<noteq> 43"
  unfolding chars by (auto simp: word_le_nat_alt)

lemma parse_number:
  assumes "spells ds n" "match_digit (ds @ rest1 @ rest) tm off g = (length (ds @ rest1), tm', off', g')"
  shows "parse_loop (ds @ rest1 @ rest) tm off g = parse_loop rest tm' off' g'"
proof -
  have ne: "ds \<noteq> []" using assms(1) by (simp add: spells_def)
  have h: "isdigit (hd ds)" using spells_hd [OF assms(1)] .
  have "date_step ((ds @ rest1) @ rest) tm off g = (length (ds @ rest1), tm', off', g')"
    using assms(2) ch_at_0 [OF ne, of "rest1 @ rest"] h isdigit_not_alpha(1) [OF h] by (simp add: date_step_def Let_def)
  from parse_step [OF this] ne isdigit_not_alpha(2) [OF h] show ?thesis by simp
qed

lemma match_digit_guess:
  assumes "spells ds n" "n \<le> 946684800"
  shows "match_digit (ds @ 32 # rest) tm off g =
    (case guess_number (length ds) n tm off of (tm', off') \<Rightarrow> (length ds, tm', off', g))"
proof -
  have sp: "\<not> isdigit (hd (32 # rest))" by (simp add: isdigit_def)
  have r: "1 + length (takeWhile isdigit (drop 1 (ds @ 32 # rest))) = length ds" using assms(1) sp by (intro spells_run) auto
  have "strtoul (ds @ 32 # rest) = (n, length ds)" using strto_spells(1) [OF assms(1), of "32 # rest"] sp assms(2) by simp
  moreover have "ch_at (ds @ 32 # rest) (length ds) = 32" unfolding ch_at_length by (simp add: ch_at_def)
  ultimately show ?thesis using assms(2) unfolding match_digit_def r by (simp add: Let_def)
qed

lemma parse_mday:
  assumes "1 \<le> n" "n \<le> 31" "tm_mday tm = -1"
  shows "parse_loop (pr_d n @ 32 # rest) tm off g = parse_loop rest (tm\<lparr>tm_mday := n\<rparr>) off g"
proof -
  have s: "spells (pr_d n) n" using assms(1) by (intro pr_d_spells) simp
  have "length (pr_d n) \<le> 2" using length_digits_le [of "nat n" 10 2] assms(1,2) by (simp add: pr_d_def)
  then have "guess_number (length (pr_d n)) n tm off = (tm\<lparr>tm_mday := n\<rparr>, off)" using assms by (simp add: guess_number_def)
  then have "match_digit (pr_d n @ [] @ 32 # rest) tm off g = (length (pr_d n @ []), tm\<lparr>tm_mday := n\<rparr>, off, g)"
    using match_digit_guess [OF s, of rest tm off g] assms(2) by simp
  from parse_number [OF s this] show ?thesis by (simp add: parse_space)
qed

lemma parse_year:
  assumes "1970 \<le> n" "n \<le> 2099"
  shows "parse_loop (pr_d n @ 32 # rest) tm off g = parse_loop rest (tm\<lparr>tm_year := n - 1900\<rparr>) off g"
proof -
  have s: "spells (pr_d n) n" using assms(1) by (intro pr_d_spells) simp
  have "length (pr_d n) = 4" using length_digits_eq [of 3 "nat n"] assms by (simp add: pr_d_def nat_less_iff le_nat_iff)
  then have "guess_number (length (pr_d n)) n tm off = (tm\<lparr>tm_year := n - 1900\<rparr>, off)" using assms by (simp add: guess_number_def)
  then have "match_digit (pr_d n @ [] @ 32 # rest) tm off g = (length (pr_d n @ []), tm\<lparr>tm_year := n - 1900\<rparr>, off, g)"
    using match_digit_guess [OF s, of rest tm off g] assms(2) by simp
  from parse_number [OF s this] show ?thesis by (simp add: parse_space)
qed


lemma parse_clock:
  assumes "0 \<le> h" "h < 24" "0 \<le> m" "m < 60" "0 \<le> s" "s < 60"
  shows "parse_loop (pr_02d h @ 58 # pr_02d m @ 58 # pr_02d s @ 32 # rest) tm off g =
    parse_loop rest (tm\<lparr>tm_hour := h, tm_min := m, tm_sec := s\<rparr>) off g"
proof -
  let ?H = "pr_02d h" and ?M = "pr_02d m" and ?S = "pr_02d s"
  have H: "spells ?H h" "length ?H = 2" and M: "spells ?M m" "length ?M = 2" and S: "spells ?S s" "length ?S = 2"
    using assms pr_02d_spells [of h] pr_02d_spells [of m] pr_02d_spells [of s] by auto
  have ne: "?M \<noteq> []" "?S \<noteq> []" using M(1) S(1) by (auto simp: spells_def)
  let ?date = "?H @ 58 # ?M @ 58 # ?S @ 32 # rest"
  have sep: "\<not> isdigit 58" "\<not> isdigit 32" by (simp_all add: isdigit_def)
  have num: "strtoul ?date = (h, 2)" using strto_spells(1) [OF H(1), of "58 # ?M @ 58 # ?S @ 32 # rest"] sep H(2) assms(2) by simp
  have "drop (2 + 1) ?date = ?M @ 58 # ?S @ 32 # rest" using H(2) by simp
  then have num2: "strtol (drop (2 + 1) ?date) = (m, 2)"
    using strto_spells(2) [OF M(1), of "58 # ?S @ 32 # rest"] sep M(2) assms(4) by simp
  have "drop (2 + 1 + 2 + 1) ?date = ?S @ 32 # rest" using H(2) M(2) by simp
  then have num3: "strtol (drop (2 + 1 + 2 + 1) ?date) = (s, 2)"
    using strto_spells(2) [OF S(1), of "32 # rest"] sep S(2) assms(6) by simp
  have c: "ch_at ?date 2 = 58" "ch_at ?date (2 + 1) = hd ?M"
    using ch_at_skip [of ?H "58 # ?M @ 58 # ?S @ 32 # rest" 0] ch_at_skip [of ?H "58 # ?M @ 58 # ?S @ 32 # rest" 1] H(2) M(2) ne
    by (simp_all add: ch_at_def nth_append hd_conv_nth)
  have c2: "ch_at ?date (2 + 1 + 2) = 58" "ch_at ?date (2 + 1 + 2 + 1) = hd ?S"
    using H(2) M(2) S(2) ne by (simp_all add: ch_at_def nth_append hd_conv_nth)
  have multi: "match_multi_number h 58 ?date 2 tm = (8, tm\<lparr>tm_hour := h, tm_min := m, tm_sec := s\<rparr>)"
    unfolding match_multi_number_def num2 prod.case Let_def c2 using num3 spells_hd [OF S(1)] assms by simp
  have "match_digit (?H @ (58 # ?M @ 58 # ?S) @ 32 # rest) tm off g =
      (length (?H @ (58 # ?M @ 58 # ?S)), tm\<lparr>tm_hour := h, tm_min := m, tm_sec := s\<rparr>, off, g)"
    using num c multi spells_hd [OF M(1)] assms(2) H(2) M(2) S(2) by (simp add: match_digit_def Let_def)
  from parse_number [OF H(1) this] show ?thesis by (simp add: parse_space)
qed

text \<open>Time zones: \<^verbatim>\<open>tz\<close> reads as a decimal number of hours and minutes.\<close>

definition tz_form :: "int \<Rightarrow> bool" where
  "tz_form tz \<longleftrightarrow> \<bar>tz\<bar> \<le> 9999 \<and> \<bar>tz\<bar> mod 100 < 60"

definition tz_ok :: "int \<Rightarrow> bool" where
  "tz_ok tz \<longleftrightarrow> tz_form tz \<and> tz \<noteq> -1"

lemma tz_okD: "tz_ok tz \<Longrightarrow> tz_form tz"
  by (simp add: tz_ok_def)

lemma pr_p05d_spells:
  assumes "\<bar>tz\<bar> \<le> 9999"
  shows "\<exists>ds. pr_p05d tz = (if tz < 0 then 45 else 43) # ds \<and> spells ds \<bar>tz\<bar> \<and> length ds = 4"
  using assms spells_zeros [OF spells_digits [of "nat \<bar>tz\<bar>"]] length_digits_le [of "nat \<bar>tz\<bar>" 10 4]
  by (auto simp: pr_p05d_def Let_def)

lemma parse_tz:
  assumes "tz_form tz"
  shows "parse_loop (pr_p05d tz) tm off g = (tm, tz_minutes tz, g)"
proof -
  obtain ds where ds: "pr_p05d tz = (if tz < 0 then 45 else 43) # ds" "spells ds \<bar>tz\<bar>" "length ds = 4"
    using pr_p05d_spells assms by (auto simp: tz_form_def)
  have v: "strtoul ds = (\<bar>tz\<bar>, 4)" using strto_spells(1) [OF ds(2), of "[]"] ds(3) assms by (simp add: tz_form_def)
  have i: "to_int \<bar>tz\<bar> = \<bar>tz\<bar>" using assms by (intro to_int_small) (auto simp: tz_form_def)
  have "match_tz (pr_p05d tz) off = (5, tz_minutes tz)"
    using v i assms by (auto simp: match_tz_def ds(1) ch_at_def tz_minutes_def tz_form_def cdiv_def cmod_def Let_def)
  moreover have "isdigit (ch_at (pr_p05d tz) 1)" using spells_hd [OF ds(2)] ds(1,3) by (simp add: ch_at_def hd_conv_nth flip: length_greater_0_conv)
  ultimately have "date_step (pr_p05d tz @ []) tm off g = (length (pr_p05d tz), tm, tz_minutes tz, g)"
    using ds(1,3) by (cases "tz < 0") (simp_all add: date_step_def ch_at_def chars Let_def)
  then have "parse_loop (pr_p05d tz @ []) tm off g = parse_loop [] tm (tz_minutes tz) g"
    by (rule parse_step) (simp_all add: ds(1))
  then show ?thesis by (simp add: parse_loop.simps [of "[]"])
qed


section \<open>Round trips\<close>

lemma tz_minutes_ok:
  assumes "tz_ok tz"
  shows "tz_minutes tz < 0 \<longleftrightarrow> tz < 0" "tz_minutes tz \<noteq> -1" "\<bar>tz_minutes tz\<bar> \<le> 6000"
    "\<bar>tz_minutes tz\<bar> div 60 = \<bar>tz\<bar> div 100" "\<bar>tz_minutes tz\<bar> mod 60 = \<bar>tz\<bar> mod 100"
proof -
  define a where "a = \<bar>tz\<bar>"
  have a: "0 \<le> a" "a \<le> 9999" "a mod 100 < 60" "a = 0 \<longleftrightarrow> tz = 0" using assms by (auto simp: tz_ok_def tz_form_def a_def)
  define m where "m = a div 100 * 60 + a mod 100"
  have m: "0 \<le> m" "m \<le> 6000" "m div 60 = a div 100" "m mod 60 = a mod 100" "m = 0 \<longleftrightarrow> a = 0" "m = 1 \<longleftrightarrow> a = 1"
    using a(1-3) unfolding m_def by auto presburger+
  have tz: "tz_minutes tz = (if tz < 0 then - m else m)" by (simp add: tz_minutes_def m_def a_def Let_def)
  have "\<bar>tz_minutes tz\<bar> = m" using tz m(1) by simp
  then show "\<bar>tz_minutes tz\<bar> \<le> 6000" "\<bar>tz_minutes tz\<bar> div 60 = \<bar>tz\<bar> div 100" "\<bar>tz_minutes tz\<bar> mod 60 = \<bar>tz\<bar> mod 100"
    using m by (simp_all add: a_def)
  show "tz_minutes tz < 0 \<longleftrightarrow> tz < 0" using tz m a by (auto simp: a_def)
  show "tz_minutes tz \<noteq> -1" using tz m(1,6) assms by (auto simp: tz_ok_def tz_form_def a_def)
qed

lemma dec_val_append: "dec_val (xs @ ys) = dec_val xs * 10 ^ length ys + dec_val ys"
proof (induction ys rule: rev_induct)
  case Nil
  then show ?case by (simp add: dec_val_def)
next
  case (snoc c ys)
  then show ?case by (simp add: dec_val_snoc append_assoc [symmetric] algebra_simps del: append_assoc)
qed

lemma digits_unique:
  "length xs = length ys \<Longrightarrow> all_digits xs \<Longrightarrow> all_digits ys \<Longrightarrow> dec_val xs = dec_val ys \<Longrightarrow> xs = ys"
proof (induction xs arbitrary: ys rule: rev_induct)
  case (snoc x xs)
  obtain y ys' where ys: "ys = ys' @ [y]" using snoc.prems(1) by (cases ys rule: rev_cases) auto
  have d: "isdigit x" "isdigit y" "all_digits xs" "all_digits ys'" using snoc.prems(2,3) by (auto simp: ys all_digits_def)
  have u: "unat c - 48 < 10" "48 \<le> unat c" if "isdigit c" for c
    using that by (auto simp: isdigit_def word_le_nat_alt)
  have e: "dec_val xs * 10 + int (unat x - 48) = dec_val ys' * 10 + int (unat y - 48)"
    using snoc.prems(4) by (simp add: ys dec_val_snoc)
  have "dec_val xs = dec_val ys'" "unat x - 48 = unat y - 48"
    using e u(1) [OF d(1)] u(1) [OF d(2)] by presburger+
  then show ?case using snoc.IH [of ys'] snoc.prems(1) d u(2) [OF d(1)] u(2) [OF d(2)] by (simp add: ys word_unat_eq_iff)
qed simp

lemma pr_02d_pair:
  assumes "\<bar>tz\<bar> \<le> 9999"
  shows "(if tz < 0 then 45 else 43) # pr_02d (\<bar>tz\<bar> div 100) @ pr_02d (\<bar>tz\<bar> mod 100) = pr_p05d tz"
proof -
  obtain ds where ds: "pr_p05d tz = (if tz < 0 then 45 else 43) # ds" "spells ds \<bar>tz\<bar>" "length ds = 4"
    using pr_p05d_spells [OF assms] by blast
  have p: "spells (pr_02d (\<bar>tz\<bar> div 100)) (\<bar>tz\<bar> div 100)" "length (pr_02d (\<bar>tz\<bar> div 100)) = 2"
      "spells (pr_02d (\<bar>tz\<bar> mod 100)) (\<bar>tz\<bar> mod 100)" "length (pr_02d (\<bar>tz\<bar> mod 100)) = 2"
    using assms pr_02d_spells [of "\<bar>tz\<bar> div 100"] pr_02d_spells [of "\<bar>tz\<bar> mod 100"] by (auto simp: pos_imp_zdiv_nonneg_iff)
  have "pr_02d (\<bar>tz\<bar> div 100) @ pr_02d (\<bar>tz\<bar> mod 100) = ds"
  proof (rule digits_unique)
    show "dec_val (pr_02d (\<bar>tz\<bar> div 100) @ pr_02d (\<bar>tz\<bar> mod 100)) = dec_val ds"
      using p ds(2) unfolding dec_val_append spells_def by (simp add: div_mult_mod_eq)
  qed (use p ds in \<open>auto simp: spells_def all_digits_def\<close>)
  with ds(1) show ?thesis by simp
qed

text \<open>What \<^verbatim>\<open>parse_date\<close> makes of a time that was found, and of a zone.\<close>

lemma parse_date_result:
  assumes "parse_loop date tm_unset (-1) False = (tm, tz_minutes tz, g)" "tz_ok tz" "my_mktime tm \<noteq> -1"
    and "my_mktime tm - (if g then 0 else tz_minutes tz * 60) = t"
  shows "parse_date mktime date maxlen = Some (take (maxlen - 1) (pr_lu t @ [32] @ pr_p05d tz))"
proof -
  note z = tz_minutes_ok [OF assms(2)]
  have i: "to_int (tz_minutes tz * 60) = tz_minutes tz * 60" using z(3) by (intro to_int_small) auto
  have "\<bar>tz\<bar> \<le> 9999" using assms(2) by (simp add: tz_ok_def tz_form_def)
  note p = pr_02d_pair [OF this]
  have t: "(if g then my_mktime tm else my_mktime tm - tz_minutes tz * 60) = t" using assms(4) by (cases g) simp_all
  have "parse_date mktime date maxlen = Some (take (maxlen - 1) (pr_lu t @ [32, if tz < 0 then 45 else 43] @
      pr_02d (\<bar>tz\<bar> div 100) @ pr_02d (\<bar>tz\<bar> mod 100)))"
    unfolding parse_date_def assms(1) prod.case Let_def
    using z(2) assms(3) by (simp only: if_False i t z(1,4,5))
  also have "pr_lu t @ [32, if tz < 0 then 45 else 43] @ pr_02d (\<bar>tz\<bar> div 100) @ pr_02d (\<bar>tz\<bar> mod 100) = pr_lu t @ [32] @ pr_p05d tz"
    unfolding p [symmetric] by simp
  finally show ?thesis .
qed

text \<open>
  C27: What \<^verbatim>\<open>show_date\<close> prints, \<^verbatim>\<open>parse_date\<close> reads back as the same time and zone, for times from 1970 to 2099
  and every zone but -0001.
\<close>

theorem parse_show_date:
  assumes "0 \<le> t + tz_minutes tz * 60" "t + tz_minutes tz * 60 < 4102444800" "tz_ok tz"
  shows "\<exists>date. show_date t tz = Some date \<and>
    parse_date mktime date maxlen = Some (take (maxlen - 1) (pr_lu t @ [32] @ pr_p05d tz))"
proof -
  obtain tm where g: "gmtime (t + tz_minutes tz * 60) = Some tm" "my_mktime tm = t + tz_minutes tz * 60" "tm_ok tm"
    using mktime_gmtime [OF assms(1,2)] by blast
  note ok = g(3) [unfolded tm_ok_def]
  let ?tm = "tm_unset\<lparr>tm_wday := tm_wday tm, tm_mon := tm_mon tm, tm_mday := tm_mday tm,
      tm_hour := tm_hour tm, tm_min := tm_min tm, tm_sec := tm_sec tm, tm_year := tm_year tm\<rparr>"
  let ?date = "take 3 (weekday_names ! nat (tm_wday tm)) @ 32 # take 3 (month_names ! nat (tm_mon tm)) @ 32 # pr_d (tm_mday tm) @ 32 #
      pr_02d (tm_hour tm) @ 58 # pr_02d (tm_min tm) @ 58 # pr_02d (tm_sec tm) @ 32 # pr_d (tm_year tm + 1900) @ 32 # pr_p05d tz"
  have sh: "show_date t tz = Some ?date" by (simp add: show_date_def g(1))
  have "parse_loop ?date tm_unset (-1) False = (?tm, tz_minutes tz, False)"
  proof -
    have n: "nat (tm_wday tm) < 7" "nat (tm_mon tm) < 12" "int (nat (tm_wday tm)) = tm_wday tm" "int (nat (tm_mon tm)) = tm_mon tm"
      using ok by auto
    have u: "tm_mday tm_unset = -1" by (simp add: tm_unset_def)
    have y: "1970 \<le> tm_year tm + 1900" "tm_year tm + 1900 \<le> 2099" using ok by auto
    from ok n u show ?thesis
      by (simp add: parse_weekday [OF n(1)] parse_month [OF n(2)] parse_mday parse_clock parse_year [OF y] parse_tz [OF tz_okD [OF assms(3)]])
  qed
  moreover have "my_mktime ?tm = my_mktime tm" by (simp add: my_mktime_def Let_def)
  ultimately have "parse_date mktime ?date maxlen = Some (take (maxlen - 1) (pr_lu t @ [32] @ pr_p05d tz))"
    using assms(1) g(2) by (intro parse_date_result [OF _ assms(3)]) auto
  with sh show ?thesis by blast
qed

theorem parse_show_date_witness:
  "\<exists>date. show_date 1112911993 (-700) = Some date \<and>
    parse_date (\<lambda>_. 0) date 100 = Some (take (100 - 1) (pr_lu 1112911993 @ [32] @ pr_p05d (-700)))"
  by (rule parse_show_date) (simp_all add: tz_ok_def tz_form_def tz_minutes_def)

lemma parse_raw:
  assumes "946684800 < t" "t < 4102444800" "tz_form tz"
  obtains tm where "gmtime t = Some tm" "my_mktime tm = t"
    "parse_loop (pr_lu t @ [32] @ pr_p05d tz) tm_unset (-1) False = (tm, tz_minutes tz, True)"
proof -
  obtain tm where g: "gmtime t = Some tm" "my_mktime tm = t" using mktime_gmtime [of t] assms(1,2) by auto
  have s: "spells (pr_lu t) t" using spells_digits [of "nat t"] assms(1,2) by (simp add: pr_lu_def)
  have "strtoul (pr_lu t @ 32 # pr_p05d tz) = (t, length (pr_lu t))"
    using assms(2) by (intro strto_spells(1) [OF s]) (simp_all add: isdigit_def)
  then have "match_digit (pr_lu t @ [] @ 32 # pr_p05d tz) tm_unset (-1) False = (length (pr_lu t @ []), tm, -1, True)"
    using g(1) assms(1,2) by (simp add: match_digit_def)
  from parse_number [OF s this] have "parse_loop (pr_lu t @ [32] @ pr_p05d tz) tm_unset (-1) False = (tm, tz_minutes tz, True)"
    by (simp add: parse_space parse_tz [OF assms(3)])
  with g that show thesis by blast
qed

text \<open>
  A date in the raw form of commits, seconds and zone, is left as it is, for times after the year 2000 up to 2099 and
  every zone but -0001.
\<close>

theorem parse_raw_date:
  assumes "946684800 < t" "t < 4102444800" "tz_ok tz"
  shows "parse_date mktime (pr_lu t @ [32] @ pr_p05d tz) maxlen = Some (take (maxlen - 1) (pr_lu t @ [32] @ pr_p05d tz))"
proof -
  obtain tm where "my_mktime tm = t" "parse_loop (pr_lu t @ [32] @ pr_p05d tz) tm_unset (-1) False = (tm, tz_minutes tz, True)"
    using parse_raw [OF assms(1,2) tz_okD [OF assms(3)]] by blast
  then show ?thesis using assms(1) by (intro parse_date_result [OF _ assms(3)]) auto
qed

theorem parse_raw_date_witness:
  "parse_date (\<lambda>_. 0) (pr_lu 1112911993 @ [32] @ pr_p05d (-700)) 50 = Some (take (50 - 1) (pr_lu 1112911993 @ [32] @ pr_p05d (-700)))"
  by (rule parse_raw_date) (simp_all add: tz_ok_def tz_form_def)

text \<open>The zone -0001 is taken for no zone at all: the local one is put in its place, here one hour east of Greenwich.\<close>

lemma parse_zone_minus_one:
  assumes "946684800 < t" "t < 4102444800" "\<And>tm. gmtime t = Some tm \<Longrightarrow> mktime tm = t - 3600"
  shows "parse_date mktime (pr_lu t @ [32] @ pr_p05d (-1)) maxlen = Some (take (maxlen - 1) (pr_lu t @ [32] @ pr_p05d 100))"
proof -
  have "tz_form (-1)" by (simp add: tz_form_def)
  then obtain tm where tm: "gmtime t = Some tm" "my_mktime tm = t"
      "parse_loop (pr_lu t @ [32] @ pr_p05d (-1)) tm_unset (-1) False = (tm, tz_minutes (-1), True)"
    using parse_raw [OF assms(1,2)] by blast
  have "tz_minutes (-1) = -1" "to_int (cdiv 3600 60) = 60" by (simp_all add: tz_minutes_def cdiv_def to_int_def)
  moreover have "43 # pr_02d 1 @ pr_02d 0 = pr_p05d 100" using pr_02d_pair [of 100] by simp
  ultimately show ?thesis
    using assms(1) assms(3) [OF tm(1)] tm(2) unfolding parse_date_def tm(3) by simp
qed

end
