(* ===== verification/Git_Index.thy ===== *)
theory Git_Index
  imports Cache Git_Sha1 Git_Memory "HOL-Library.Product_Lexorder"
begin

text \<open>
  The directory cache of the bundled git 0.99.1, \<^verbatim>\<open>src/git-0.99.1/read-cache.c\<close> with the structures of its \<^verbatim>\<open>cache.h\<close>:
  entries have a stage, so that one name may occur several times while a merge is under way, and names must not be
  file and directory at once.  Numbers are held in host order; the file has them in network order.
\<close>

section \<open>Entries (cache.h)\<close>

record gce =
  g_ctime :: u32
  g_ctime_nsec :: u32
  g_mtime :: u32
  g_mtime_nsec :: u32
  g_dev :: u32
  g_ino :: u32
  g_mode :: u32
  g_uid :: u32
  g_gid :: u32
  g_size :: u32
  g_sha1 :: bytes
  g_flags :: u16
  g_name :: bytes

definition CE_NAMEMASK :: u16 where "CE_NAMEMASK = 0x0fff"
definition CE_STAGEMASK :: u16 where "CE_STAGEMASK = 0x3000"
definition CE_UPDATE :: u16 where "CE_UPDATE = 0x4000"

definition create_ce_flags :: "nat \<Rightarrow> nat \<Rightarrow> u16" where
  "create_ce_flags len stage = of_nat len OR push_bit 12 (of_nat stage)"

definition ce_namelen :: "gce \<Rightarrow> nat" where
  "ce_namelen ce = unat (CE_NAMEMASK AND g_flags ce)"

definition ce_stage :: "gce \<Rightarrow> nat" where
  "ce_stage ce = unat (drop_bit 12 (CE_STAGEMASK AND g_flags ce))"

definition g_ce_size :: "gce \<Rightarrow> nat" where
  "g_ce_size ce = cache_entry_size (ce_namelen ce)"

definition ce_permissions :: "u32 \<Rightarrow> u32" where
  "ce_permissions mode = (if mode AND 0x40 \<noteq> 0 then 0x1ed else 0x1a4)"

definition S_IFMT :: u32 where "S_IFMT = 0xf000"
definition S_IFREG :: u32 where "S_IFREG = 0x8000"
definition S_IFLNK :: u32 where "S_IFLNK = 0xa000"

definition create_ce_mode :: "u32 \<Rightarrow> u32" where
  "create_ce_mode mode = (if mode AND S_IFMT = S_IFLNK then S_IFLNK else S_IFREG OR ce_permissions mode)"

text \<open>The byte at a position of a name; the one after the last is the NUL.\<close>

definition name_at :: "bytes \<Rightarrow> nat \<Rightarrow> byte" where
  "name_at nm i = (if i < length nm then nm ! i else 0)"

section \<open>Comparing with a file (read-cache.c)\<close>

definition G_MTIME_CHANGED :: u32 where "G_MTIME_CHANGED = 0x0001"
definition G_CTIME_CHANGED :: u32 where "G_CTIME_CHANGED = 0x0002"
definition G_OWNER_CHANGED :: u32 where "G_OWNER_CHANGED = 0x0004"
definition G_MODE_CHANGED :: u32 where "G_MODE_CHANGED = 0x0008"
definition G_INODE_CHANGED :: u32 where "G_INODE_CHANGED = 0x0010"
definition G_DATA_CHANGED :: u32 where "G_DATA_CHANGED = 0x0020"
definition G_TYPE_CHANGED :: u32 where "G_TYPE_CHANGED = 0x0040"

text \<open>Built without \<^verbatim>\<open>USE_NSEC\<close> and \<^verbatim>\<open>USE_STDEV\<close>, as the Makefile does.\<close>

definition fill_stat_cache_info :: "gce \<Rightarrow> stat \<Rightarrow> gce" where
  "fill_stat_cache_info ce st = ce\<lparr>g_ctime := ucast (st_ctim_sec st), g_mtime := ucast (st_mtim_sec st),
     g_dev := ucast (st_dev st), g_ino := ucast (st_ino st), g_uid := st_uid st, g_gid := st_gid st,
     g_size := ucast (st_size st)\<rparr>"

text \<open>\<open>None\<close> is the call of \<^verbatim>\<open>die\<close> for a mode that is neither a file nor a link.\<close>

definition ce_match_stat :: "gce \<Rightarrow> stat \<Rightarrow> u32 option" where
  "ce_match_stat ce st =
     (let kind = g_mode ce AND S_IFMT; skind = st_mode st AND S_IFMT in
      if kind \<noteq> S_IFREG \<and> kind \<noteq> S_IFLNK then None
      else Some (
        (if kind = S_IFREG
         then (if skind \<noteq> S_IFREG then G_TYPE_CHANGED else 0) OR
              (if 0x40 AND (g_mode ce XOR st_mode st) \<noteq> 0 then G_MODE_CHANGED else 0)
         else (if skind \<noteq> S_IFLNK then G_TYPE_CHANGED else 0)) OR
        (if g_mtime ce \<noteq> ucast (st_mtim_sec st) then G_MTIME_CHANGED else 0) OR
        (if g_ctime ce \<noteq> ucast (st_ctim_sec st) then G_CTIME_CHANGED else 0) OR
        (if g_uid ce \<noteq> st_uid st \<or> g_gid ce \<noteq> st_gid st then G_OWNER_CHANGED else 0) OR
        (if g_ino ce \<noteq> ucast (st_ino st) then G_INODE_CHANGED else 0) OR
        (if g_size ce \<noteq> ucast (st_size st) then G_DATA_CHANGED else 0)))"

section \<open>Comparing names (read-cache.c)\<close>

definition base_name_compare :: "bytes \<Rightarrow> nat \<Rightarrow> u32 \<Rightarrow> bytes \<Rightarrow> nat \<Rightarrow> u32 \<Rightarrow> int" where
  "base_name_compare name1 len1 mode1 name2 len2 mode2 =
     (let len = (if len1 < len2 then len1 else len2); cmp = memcmp len name1 name2 in
      if cmp \<noteq> 0 then cmp
      else (let c1 = name_at name1 len; c2 = name_at name2 len;
                c1 = (if c1 = 0 \<and> S_ISDIR mode1 then 47 else c1); c2 = (if c2 = 0 \<and> S_ISDIR mode2 then 47 else c2) in
            if c1 < c2 then -1 else if c2 < c1 then 1 else 0))"

definition g_cache_name_compare :: "bytes \<Rightarrow> nat \<Rightarrow> bytes \<Rightarrow> nat \<Rightarrow> int" where
  "g_cache_name_compare name1 flags1 name2 flags2 =
     (let len1 = flags1 mod 4096; len2 = flags2 mod 4096; len = (if len1 < len2 then len1 else len2);
          cmp = memcmp len name1 name2 in
      if cmp \<noteq> 0 then cmp
      else if len1 < len2 then -1
      else if len2 < len1 then 1
      else if flags1 < flags2 then -1
      else if flags2 < flags1 then 1
      else 0)"

text \<open>The array of pointers with the entries in use, its capacity, and \<^verbatim>\<open>active_cache_changed\<close>.\<close>

record gindex =
  g_cache :: "gce list"
  g_alloc :: nat
  g_changed :: bool

function g_name_search :: "gce list \<Rightarrow> bytes \<Rightarrow> nat \<Rightarrow> nat \<Rightarrow> nat \<Rightarrow> int" where
  "g_name_search es nm flags first lst =
     (if first < lst then
        (let next = (lst + first) div 2; ce = es ! next;
             cmp = g_cache_name_compare nm flags (g_name ce) (unat (g_flags ce)) in
         if cmp = 0 then int next
         else if cmp < 0 then g_name_search es nm flags first next
         else g_name_search es nm flags (next + 1) lst)
      else - int first - 1)"
  by pat_completeness auto
termination by (relation "measure (\<lambda>(es, nm, flags, first, lst). lst - first)") auto

declare g_name_search.simps [simp del]

definition g_cache_name_pos :: "bytes \<Rightarrow> nat \<Rightarrow> gindex \<Rightarrow> int" where
  "g_cache_name_pos nm flags ix = g_name_search (g_cache ix) nm flags 0 (length (g_cache ix))"

section \<open>Removing entries (read-cache.c)\<close>

text \<open>The returned flag tells whether there are more entries to go.\<close>

definition remove_cache_entry_at :: "nat \<Rightarrow> gindex \<Rightarrow> bool \<times> gindex" where
  "remove_cache_entry_at pos ix =
     (let nr = length (g_cache ix) - 1 in
      if nr \<le> pos then (False, ix\<lparr>g_changed := True, g_cache := take nr (g_cache ix)\<rparr>)
      else (True, ix\<lparr>g_changed := True, g_cache := take pos (g_cache ix) @ drop (pos + 1) (g_cache ix)\<rparr>))"

lemma length_remove_at: "pos < length (g_cache ix) \<Longrightarrow> length (g_cache (snd (remove_cache_entry_at pos ix))) = length (g_cache ix) - 1"
  by (simp add: remove_cache_entry_at_def Let_def)

function remove_named :: "bytes \<Rightarrow> nat \<Rightarrow> gindex \<Rightarrow> gindex" where
  "remove_named path pos ix =
     (if pos < length (g_cache ix) \<and> g_name (g_cache ix ! pos) = path
      then remove_named path pos (snd (remove_cache_entry_at pos ix)) else ix)"
  by pat_completeness auto
termination
  by (relation "measure (\<lambda>(path, pos, ix). length (g_cache ix))") (simp_all add: length_remove_at)

declare remove_named.simps [simp del]

definition g_remove_file_from_cache :: "bytes \<Rightarrow> gindex \<Rightarrow> gindex" where
  "g_remove_file_from_cache path ix =
     (let pos = g_cache_name_pos path (length path) ix; pos = (if pos < 0 then - pos - 1 else pos)
      in remove_named path (nat pos) ix)"

definition ce_same_name :: "gce \<Rightarrow> gce \<Rightarrow> bool" where
  "ce_same_name a b \<longleftrightarrow> ce_namelen b = ce_namelen a \<and> memcmp (ce_namelen a) (g_name a) (g_name b) = 0"

text \<open>The path limits; \<open>None\<close> is the null pointer.\<close>

definition match_pathspec :: "bytes \<Rightarrow> nat \<Rightarrow> bytes \<Rightarrow> bool" where
  "match_pathspec nm len match =
     (let matchlen = length match in
      \<not> len < matchlen \<and> memcmp matchlen nm match = 0 \<and>
      ((matchlen \<noteq> 0 \<and> name_at nm (matchlen - 1) = 47) \<or> name_at nm matchlen = 47 \<or> name_at nm matchlen = 0))"

definition ce_path_match :: "gce \<Rightarrow> bytes list option \<Rightarrow> bool" where
  "ce_path_match ce pathspec =
     (case pathspec of None \<Rightarrow> True | Some ms \<Rightarrow> list_ex (match_pathspec (g_name ce) (ce_namelen ce)) ms)"

section \<open>Files and directories (read-cache.c)\<close>

text \<open>\<^verbatim>\<open>has_file_name\<close>: entries below the name of \<open>ce\<close>, from \<open>pos\<close> on.\<close>

function has_file_name :: "gce \<Rightarrow> bool \<Rightarrow> nat \<Rightarrow> int \<Rightarrow> gindex \<Rightarrow> int \<times> gindex" where
  "has_file_name ce ok_to_replace pos retval ix =
     (if pos < length (g_cache ix) then
        (let p = g_cache ix ! pos; len = ce_namelen ce in
         if ce_namelen p \<le> len then (retval, ix)
         else if memcmp len (g_name ce) (g_name p) \<noteq> 0 then (retval, ix)
         else if ce_stage p \<noteq> ce_stage ce then has_file_name ce ok_to_replace (pos + 1) retval ix
         else if name_at (g_name p) len \<noteq> 47 then has_file_name ce ok_to_replace (pos + 1) retval ix
         else if \<not> ok_to_replace then (-1, ix)
         else has_file_name ce ok_to_replace pos (-1) (snd (remove_cache_entry_at pos ix)))
      else (retval, ix))"
  by pat_completeness auto
termination
  by (relation "measure (\<lambda>(ce, ok, pos, r, ix). length (g_cache ix) - pos)") (auto simp: length_remove_at)

declare has_file_name.simps [simp del]

text \<open>The inner loop of \<^verbatim>\<open>has_dir_name\<close>: the slash before position \<open>k\<close>; before the first byte of the name there is other data.\<close>

fun prev_slash :: "bytes \<Rightarrow> nat \<Rightarrow> nat option res" where
  "prev_slash nm 0 = Oob"
| "prev_slash nm (Suc k) = (if name_at nm k = 47 then Val (Some k) else if k = 0 then Val None else prev_slash nm k)"

lemma prev_slash_less: "prev_slash nm k = Val (Some l) \<Longrightarrow> l < k"
  by (induction nm k rule: prev_slash.induct) (fastforce split: if_splits)+

text \<open>The scan for an entry of the same stage below the directory.\<close>

function below_dir :: "bytes \<Rightarrow> nat \<Rightarrow> nat \<Rightarrow> nat \<Rightarrow> gindex \<Rightarrow> bool" where
  "below_dir nm len stage pos ix =
     (if pos < length (g_cache ix) then
        (let p = g_cache ix ! pos in
         if ce_namelen p \<le> len \<or> name_at (g_name p) len \<noteq> 47 \<or> memcmp len (g_name p) nm \<noteq> 0 then False
         else if ce_stage p = stage then True
         else below_dir nm len stage (pos + 1) ix)
      else False)"
  by pat_completeness auto
termination by (relation "measure (\<lambda>(nm, len, stage, pos, ix). length (g_cache ix) - pos)") auto

declare below_dir.simps [simp del]

text \<open>\<^verbatim>\<open>has_dir_name\<close>, from the slash before position \<open>slash\<close> on.\<close>

function has_dir_name :: "gce \<Rightarrow> bool \<Rightarrow> nat \<Rightarrow> int \<Rightarrow> gindex \<Rightarrow> (int \<times> gindex) res" where
  "has_dir_name ce ok_to_replace slash retval ix =
     (case prev_slash (g_name ce) slash of Oob \<Rightarrow> Oob | Null \<Rightarrow> Null
      | Val None \<Rightarrow> Val (retval, ix)
      | Val (Some len) \<Rightarrow>
        (let pos = g_cache_name_pos (g_name ce) (unat (create_ce_flags len (ce_stage ce))) ix in
         if 0 \<le> pos then
           (if ok_to_replace then Val (-1, ix)
            else has_dir_name ce ok_to_replace len (-1) (snd (remove_cache_entry_at (nat pos) ix)))
         else if below_dir (g_name ce) len (ce_stage ce) (nat (- pos - 1)) ix then Val (retval, ix)
         else has_dir_name ce ok_to_replace len retval ix))"
  by pat_completeness auto
termination
  by (relation "measure (\<lambda>(ce, ok, slash, r, ix). slash)") (auto dest: prev_slash_less)

declare has_dir_name.simps [simp del]

definition check_file_directory_conflict :: "gce \<Rightarrow> nat \<Rightarrow> bool \<Rightarrow> gindex \<Rightarrow> (int \<times> gindex) res" where
  "check_file_directory_conflict ce pos ok_to_replace ix =
     (case has_file_name ce ok_to_replace pos 0 ix of (r1, ix1) \<Rightarrow>
        bindR (has_dir_name ce ok_to_replace (ce_namelen ce) 0 ix1) (\<lambda>(r2, ix2). Val (r1 + r2, ix2)))"

section \<open>Adding entries (read-cache.c)\<close>

text \<open>The loop that drops the unmerged entries of a name; the flag tells whether there was one.\<close>

function drop_unmerged :: "gce \<Rightarrow> nat \<Rightarrow> bool \<Rightarrow> gindex \<Rightarrow> bool \<times> gindex" where
  "drop_unmerged ce pos ok ix =
     (if pos < length (g_cache ix) \<and> ce_same_name (g_cache ix ! pos) ce then
        (case remove_cache_entry_at pos ix of (left, ix') \<Rightarrow>
           if left then drop_unmerged ce pos True ix' else (True, ix'))
      else (ok, ix))"
  by pat_completeness auto
termination
  by (relation "measure (\<lambda>(ce, pos, ok, ix). length (g_cache ix))") (auto simp: case_prod_unfold length_remove_at)

declare drop_unmerged.simps [simp del]

definition g_alloc_nr :: "nat \<Rightarrow> nat" where
  "g_alloc_nr x = (x + 16) * 3 div 2"

text \<open>Insertion at a position: the array grows when it is full, and the store must lie in it.\<close>

definition insert_at :: "gce \<Rightarrow> nat \<Rightarrow> gindex \<Rightarrow> gindex res" where
  "insert_at ce pos ix =
     (let a = (if length (g_cache ix) = g_alloc ix then g_alloc_nr (g_alloc ix) else g_alloc ix) in
      if length (g_cache ix) < a \<and> pos \<le> length (g_cache ix)
      then Val (ix\<lparr>g_alloc := a, g_changed := True, g_cache := take pos (g_cache ix) @ ce # drop pos (g_cache ix)\<rparr>)
      else Oob)"

text \<open>\<^verbatim>\<open>add_cache_entry\<close>, its three options as flags.\<close>

definition g_add_cache_entry :: "gce \<Rightarrow> bool \<Rightarrow> bool \<Rightarrow> bool \<Rightarrow> gindex \<Rightarrow> (int \<times> gindex) res" where
  "g_add_cache_entry ce ok_to_add ok_to_replace skip_df_check ix =
     (let pos = g_cache_name_pos (g_name ce) (unat (g_flags ce)) ix in
      if 0 \<le> pos then Val (0, ix\<lparr>g_changed := True, g_cache := (g_cache ix)[nat pos := ce]\<rparr>)
      else (let pos = nat (- pos - 1) in
        case (if pos < length (g_cache ix) \<and> ce_stage ce = 0 then drop_unmerged ce pos ok_to_add ix else (ok_to_add, ix)) of
          (ok, ix1) \<Rightarrow>
            if \<not> ok then Val (-1, ix1)
            else if skip_df_check then bindR (insert_at ce pos ix1) (\<lambda>ix2. Val (0, ix2))
            else bindR (check_file_directory_conflict ce pos ok_to_replace ix1) (\<lambda>(conflict, ix2).
              if conflict \<noteq> 0 then
                (if \<not> ok_to_replace then Val (-1, ix2)
                 else bindR (insert_at ce (nat (- g_cache_name_pos (g_name ce) (unat (g_flags ce)) ix2 - 1)) ix2) (\<lambda>ix3. Val (0, ix3)))
              else bindR (insert_at ce pos ix2) (\<lambda>ix3. Val (0, ix3)))))"

section \<open>Order\<close>

definition gkey :: "gce \<Rightarrow> bytes \<times> nat" where
  "gkey ce = (g_name ce, unat (g_flags ce))"

definition g_wf :: "gce \<Rightarrow> bool" where
  "g_wf ce \<longleftrightarrow> length (g_name ce) = ce_namelen ce \<and> no_nul (g_name ce) \<and> length (g_sha1 ce) = 20"

definition g_inv :: "gindex \<Rightarrow> bool" where
  "g_inv ix \<longleftrightarrow> key_sorted gkey (g_cache ix) \<and> (\<forall>ce\<in>set (g_cache ix). g_wf ce) \<and> length (g_cache ix) \<le> g_alloc ix"

lemma flags_namelen: "ce_namelen ce = unat (g_flags ce) mod 4096"
proof -
  have "CE_NAMEMASK AND g_flags ce = take_bit 12 (g_flags ce)"
    by (simp add: CE_NAMEMASK_def take_bit_eq_mask mask_eq_exp_minus_1 and.commute)
  then show ?thesis by (simp add: ce_namelen_def take_bit_eq_mod unat_mod)
qed

lemma ce_namelen_less: "ce_namelen ce < 4096"
  by (simp add: flags_namelen)

lemma compare3_pair:
  "compare3 (a :: 'a::linorder, x :: 'b::linorder) (b, y) = (if compare3 a b \<noteq> 0 then compare3 a b else compare3 x y)"
  by (auto simp: compare3_def)

lemma g_compare_eq:
  assumes "flags1 mod 4096 \<le> length name1" "flags2 mod 4096 \<le> length name2"
  shows "g_cache_name_compare name1 flags1 name2 flags2 =
    compare3 (take (flags1 mod 4096) name1, flags1) (take (flags2 mod 4096) name2, flags2)"
proof -
  have "g_cache_name_compare name1 flags1 name2 flags2 =
      (let c = cache_name_compare name1 (flags1 mod 4096) name2 (flags2 mod 4096) in if c \<noteq> 0 then c else compare3 flags1 flags2)"
    by (simp add: g_cache_name_compare_def cache_name_compare_def compare3_def Let_def)
  then show ?thesis using cache_name_compare_eq [OF assms] by (simp add: compare3_pair)
qed

definition g_pos :: "bytes \<times> nat \<Rightarrow> gce list \<Rightarrow> int" where
  "g_pos k es = (if k \<in> gkey ` set es then int (key_pos gkey k es) else - int (key_pos gkey k es) - 1)"

lemma g_name_search_spec:
  assumes "key_sorted gkey es" "\<forall>ce\<in>set es. g_wf ce" "flags mod 4096 \<le> length nm" "first \<le> lst" "lst \<le> length es"
    and "\<And>i. i < first \<Longrightarrow> gkey (es ! i) < k"
    and "\<And>i. lst \<le> i \<Longrightarrow> i < length es \<Longrightarrow> k < gkey (es ! i)" "k = (take (flags mod 4096) nm, flags)"
  shows "g_name_search es nm flags first lst = g_pos k es"
  using assms
proof (induction es nm flags first lst rule: g_name_search.induct)
  case (1 es nm flags first lst)
  note prems = "1.prems"
  let ?next = "(lst + first) div 2"
  show ?case
  proof (cases "first < lst")
    case False
    then have fl: "first = lst" using prems(4) by simp
    have "key_pos gkey k es = first"
      using prems(5-7) fl by (intro key_pos_unique [OF prems(1)]) (auto intro: less_imp_le)
    moreover have "k \<notin> gkey ` set es"
    proof
      assume "k \<in> gkey ` set es"
      then obtain i where "i < length es" "gkey (es ! i) = k" by (auto simp: in_set_conv_nth)
      with prems(6,7) [of i] fl show False by (cases "i < first") auto
    qed
    ultimately show ?thesis using False by (simp add: g_name_search.simps [of es] g_pos_def)
  next
    case True
    then have nx: "?next < lst" "first \<le> ?next" "?next < length es" using prems(5) by auto
    let ?ce = "es ! ?next"
    have mem: "?ce \<in> set es" using nx by simp
    then have "length (g_name ?ce) = unat (g_flags ?ce) mod 4096" using prems(2) by (simp add: g_wf_def flags_namelen)
    then have cmp: "g_cache_name_compare nm flags (g_name ?ce) (unat (g_flags ?ce)) = compare3 k (gkey ?ce)"
      using g_compare_eq [OF prems(3), of "unat (g_flags ?ce)" "g_name ?ce"] prems(8) by (simp add: gkey_def)
    have mono: "gkey (es ! i) < gkey (es ! j)" if "i < j" "j < length es" for i j
      using that prems(1) by (auto simp: key_sorted_def sorted_wrt_iff_nth_less)
    consider "k = gkey ?ce" | "k < gkey ?ce" | "gkey ?ce < k" by fastforce
    then show ?thesis
    proof cases
      case eq: 1
      have "key_pos gkey k es = ?next"
        using nx mono eq by (intro key_pos_unique [OF prems(1)]) (auto simp: le_eq_less_or_eq [of "(lst + first) div 2"] intro: less_imp_le)
      with eq mem True cmp show ?thesis by (simp add: g_name_search.simps [of es] g_pos_def compare3_def Let_def)
    next
      case lt: 2
      have above: "k < gkey (es ! i)" if "?next \<le> i" "i < length es" for i
        using lt mono [of ?next i] that by (cases "i = ?next") auto
      have c: "compare3 k (gkey ?ce) = -1" using lt by (simp add: compare3_def)
      have "g_name_search es nm flags first ?next = g_pos k es"
        using nx cmp c by (intro 1(1) [OF True refl refl refl]) (use prems above in auto)
      then show ?thesis using True cmp c by (simp add: g_name_search.simps [of es nm flags first lst] Let_def)
    next
      case gt: 3
      have below: "gkey (es ! i) < k" if "i < ?next + 1" for i
        using gt mono [of i ?next] that nx(3) by (cases "i = ?next") auto
      have c: "compare3 k (gkey ?ce) = 1" using gt by (simp add: compare3_def)
      have "g_name_search es nm flags (?next + 1) lst = g_pos k es"
        using nx cmp c by (intro 1(2) [OF True refl refl refl]) (use prems below in auto)
      then show ?thesis using True cmp c by (simp add: g_name_search.simps [of es nm flags first lst] Let_def)
    qed
  qed
qed

lemma g_cache_name_pos_spec:
  assumes "g_inv ix" "flags mod 4096 \<le> length nm"
  shows "g_cache_name_pos nm flags ix = g_pos (take (flags mod 4096) nm, flags) (g_cache ix)"
  using assms g_name_search_spec [of "g_cache ix" flags nm 0 "length (g_cache ix)"]
  by (simp add: g_cache_name_pos_def g_inv_def)

lemma g_cache_name_pos_entry:
  assumes "g_inv ix" "g_wf ce"
  shows "g_cache_name_pos (g_name ce) (unat (g_flags ce)) ix = g_pos (gkey ce) (g_cache ix)"
  using assms g_cache_name_pos_spec [OF assms(1), of "unat (g_flags ce)" "g_name ce"]
  by (simp add: g_wf_def flags_namelen gkey_def)

section \<open>Removing\<close>

definition only_removed :: "gindex \<Rightarrow> gindex \<Rightarrow> bool" where
  "only_removed ix ix' \<longleftrightarrow> g_inv ix' \<and> g_alloc ix' = g_alloc ix \<and> set (g_cache ix') \<subseteq> set (g_cache ix)"

lemma only_removed_refl: "g_inv ix \<Longrightarrow> only_removed ix ix"
  by (simp add: only_removed_def)

lemma only_removed_trans: "only_removed a b \<Longrightarrow> only_removed b c \<Longrightarrow> only_removed a c"
  by (auto simp: only_removed_def)

lemma remove_at_list: "pos < length (g_cache ix) \<Longrightarrow>
  g_cache (snd (remove_cache_entry_at pos ix)) = take pos (g_cache ix) @ drop (pos + 1) (g_cache ix)"
proof (cases "length (g_cache ix) - 1 \<le> pos")
  case True
  moreover assume "pos < length (g_cache ix)"
  ultimately have "pos = length (g_cache ix) - 1" by simp
  then show ?thesis using True by (simp add: remove_cache_entry_at_def Let_def)
qed (simp add: remove_cache_entry_at_def Let_def)

lemma remove_at_removed:
  assumes "g_inv ix" "pos < length (g_cache ix)"
  shows "only_removed ix (snd (remove_cache_entry_at pos ix))" "g_cache ix ! pos \<notin> set (g_cache (snd (remove_cache_entry_at pos ix)))"
proof -
  let ?es = "g_cache ix"
  have s: "key_sorted gkey (take pos ?es @ ?es ! pos # drop (pos + 1) ?es)"
    using assms by (simp add: g_inv_def id_take_nth_drop [OF assms(2), symmetric])
  then have "key_sorted gkey (take pos ?es @ drop (pos + 1) ?es)"
    by (auto simp: key_sorted_append key_sorted_Cons)
  moreover have "set (take pos ?es @ drop (pos + 1) ?es) \<subseteq> set ?es" by (auto dest: in_set_takeD in_set_dropD)
  moreover have "length (take pos ?es @ drop (pos + 1) ?es) \<le> g_alloc ix" using assms by (auto simp: g_inv_def)
  moreover have "g_alloc (snd (remove_cache_entry_at pos ix)) = g_alloc ix" by (simp add: remove_cache_entry_at_def Let_def)
  ultimately show "only_removed ix (snd (remove_cache_entry_at pos ix))"
    using assms(1) unfolding only_removed_def g_inv_def remove_at_list [OF assms(2)] by auto
  show "?es ! pos \<notin> set (g_cache (snd (remove_cache_entry_at pos ix)))"
    unfolding remove_at_list [OF assms(2)] using s by (auto simp: key_sorted_append key_sorted_Cons)
qed


lemma has_file_name_removed:
  "g_inv ix \<Longrightarrow> has_file_name ce ok pos ret ix = (r, ix') \<Longrightarrow> only_removed ix ix' \<and> (r = -1 \<or> (r = ret \<and> ix' = ix))"
proof (induction ce ok pos ret ix arbitrary: r ix' rule: has_file_name.induct)
  case (1 ce ok pos ret ix)
  let ?p = "g_cache ix ! pos" and ?len = "ce_namelen ce"
  note unfold = has_file_name.simps [of ce ok pos ret ix]
  show ?case
  proof (cases "pos < length (g_cache ix) \<and> \<not> ce_namelen ?p \<le> ?len \<and> \<not> memcmp ?len (g_name ce) (g_name ?p) \<noteq> 0")
    case False
    then have "has_file_name ce ok pos ret ix = (ret, ix)" by (subst unfold) (auto simp: Let_def)
    then show ?thesis using 1(4,5) by (simp add: only_removed_refl)
  next
    case True
    then have c: "pos < length (g_cache ix)" "\<not> ce_namelen ?p \<le> ?len" "\<not> memcmp ?len (g_name ce) (g_name ?p) \<noteq> 0" by auto
    consider (stage) "ce_stage ?p \<noteq> ce_stage ce" | (other) "\<not> ce_stage ?p \<noteq> ce_stage ce" "name_at (g_name ?p) ?len \<noteq> 47"
      | (found) "\<not> ce_stage ?p \<noteq> ce_stage ce" "\<not> name_at (g_name ?p) ?len \<noteq> 47" "\<not> ok"
      | (remove) "\<not> ce_stage ?p \<noteq> ce_stage ce" "\<not> name_at (g_name ?p) ?len \<noteq> 47" "\<not> \<not> ok" by blast
    then show ?thesis
    proof cases
      case stage
      then have "has_file_name ce ok pos ret ix = has_file_name ce ok (pos + 1) ret ix" using c by (subst unfold) (simp add: Let_def)
      then have "has_file_name ce ok (pos + 1) ret ix = (r, ix')" using 1(5) by (rule subst)
      then show ?thesis by (rule 1(1) [OF c(1) refl refl c(2,3) stage 1(4)])
    next
      case other
      then have "has_file_name ce ok pos ret ix = has_file_name ce ok (pos + 1) ret ix" using c by (subst unfold) (simp add: Let_def)
      then have "has_file_name ce ok (pos + 1) ret ix = (r, ix')" using 1(5) by (rule subst)
      then show ?thesis by (rule 1(2) [OF c(1) refl refl c(2,3) other 1(4)])
    next
      case found
      then have "has_file_name ce ok pos ret ix = (-1, ix)" using c by (subst unfold) (simp add: Let_def)
      then show ?thesis using 1(4,5) by (auto simp: only_removed_refl)
    next
      case remove
      have i: "only_removed ix (snd (remove_cache_entry_at pos ix))" using remove_at_removed(1) [OF 1(4) c(1)] .
      have "has_file_name ce ok pos ret ix = has_file_name ce ok pos (-1) (snd (remove_cache_entry_at pos ix))"
        using c remove by (subst unfold) (simp add: Let_def)
      then have h: "has_file_name ce ok pos (-1) (snd (remove_cache_entry_at pos ix)) = (r, ix')" using 1(5) by (rule subst)
      have "g_inv (snd (remove_cache_entry_at pos ix))" using i by (simp add: only_removed_def)
      from 1(3) [OF c(1) refl refl c(2,3) remove this h] only_removed_trans [OF i] show ?thesis by blast
    qed
  qed
qed

lemma prev_slash_ok: "name_at nm 0 \<noteq> 47 \<Longrightarrow> 0 < k \<Longrightarrow> \<exists>s. prev_slash nm k = Val s \<and> (\<forall>l. s = Some l \<longrightarrow> 0 < l)"
proof (induction k)
  case (Suc k)
  then show ?case by (cases "name_at nm k = 47"; cases "k = 0") auto
qed simp

lemma create_ce_flags_len: "len < 4096 \<Longrightarrow> unat (create_ce_flags len stage) mod 4096 = len"
proof -
  assume l: "len < 4096"
  have "take_bit 12 (create_ce_flags len stage) = take_bit 12 (of_nat len)"
    unfolding create_ce_flags_def by (rule bit_word_eqI) (auto simp: bit_simps)
  then have "unat (create_ce_flags len stage) mod 4096 = unat (of_nat len :: u16) mod 4096"
    by (simp add: take_bit_eq_mod unat_mod word_unat_eq_iff)
  then show ?thesis using l by (simp add: unat_of_nat)
qed

lemma g_pos_found: "key_sorted gkey es \<Longrightarrow> 0 \<le> g_pos k es \<Longrightarrow>
    nat (g_pos k es) < length es \<and> gkey (es ! nat (g_pos k es)) = k \<and> k \<in> gkey ` set es"
proof -
  assume s: "key_sorted gkey es" and p: "0 \<le> g_pos k es"
  then have k: "k \<in> gkey ` set es" by (auto simp: g_pos_def split: if_splits)
  then obtain i where i: "i < length es" "gkey (es ! i) = k" by (auto simp: in_set_conv_nth)
  have "gkey (es ! a) < gkey (es ! b)" if "a < b" "b < length es" for a b
    using that s by (auto simp: key_sorted_def sorted_wrt_iff_nth_less)
  then have "key_pos gkey k es = i"
    using i by (intro key_pos_unique [OF s]) (auto simp: le_eq_less_or_eq [of i] intro: less_imp_le)
  then show ?thesis using i k by (simp add: g_pos_def)
qed

lemma has_dir_name_removed:
  "g_inv ix \<Longrightarrow> g_wf ce \<Longrightarrow> name_at (g_name ce) 0 \<noteq> 47 \<Longrightarrow> 0 < slash \<Longrightarrow> slash \<le> ce_namelen ce \<Longrightarrow>
    \<exists>r ix'. has_dir_name ce ok slash ret ix = Val (r, ix') \<and> only_removed ix ix' \<and> (r = -1 \<or> (r = ret \<and> ix' = ix))"
proof (induction ce ok slash ret ix rule: has_dir_name.induct)
  case (1 ce ok slash ret ix)
  obtain s where s: "prev_slash (g_name ce) slash = Val s" "\<And>l. s = Some l \<Longrightarrow> 0 < l"
    using prev_slash_ok [OF 1(5,6)] by blast
  show ?case
  proof (cases s)
    case None
    then show ?thesis using s(1) 1(3) by (simp add: has_dir_name.simps [of ce ok slash] only_removed_refl)
  next
    case (Some l)
    let ?pos = "g_cache_name_pos (g_name ce) (unat (create_ce_flags l (ce_stage ce))) ix"
    have ps: "prev_slash (g_name ce) slash = Val (Some l)" using s(1) Some by simp
    have l: "0 < l" "l \<le> ce_namelen ce" "l < 4096"
      using s(2) Some prev_slash_less [OF ps] 1(7) ce_namelen_less [of ce] by auto
    have p: "?pos = g_pos (take l (g_name ce), unat (create_ce_flags l (ce_stage ce))) (g_cache ix)"
      using g_cache_name_pos_spec [OF 1(3), of "unat (create_ce_flags l (ce_stage ce))" "g_name ce"] l 1(4)
      by (simp add: create_ce_flags_len g_wf_def)
    show ?thesis
    proof (cases "0 \<le> ?pos")
      case True
      have "nat ?pos < length (g_cache ix)" using g_pos_found True p 1(3) by (auto simp: g_inv_def)
      note rem = remove_at_removed(1) [OF 1(3) this]
      show ?thesis
      proof (cases ok)
        case True
        then show ?thesis using \<open>0 \<le> ?pos\<close> ps 1(3) by (simp add: has_dir_name.simps [of ce True slash] only_removed_refl)
      next
        case False
        have "has_dir_name ce ok slash ret ix = has_dir_name ce ok l (-1) (snd (remove_cache_entry_at (nat ?pos) ix))"
          using False \<open>0 \<le> ?pos\<close> ps by (subst has_dir_name.simps) simp
        then show ?thesis using 1(1) [OF ps refl refl True False _ 1(4,5) l(1,2)] rem only_removed_trans [OF rem]
          by (auto simp: only_removed_def)
      qed
    next
      case False
      show ?thesis
      proof (cases "below_dir (g_name ce) l (ce_stage ce) (nat (- ?pos - 1)) ix")
        case True
        then show ?thesis using False ps 1(3) by (simp add: has_dir_name.simps [of ce ok slash] only_removed_refl Let_def)
      next
        case nb: False
        have "has_dir_name ce ok slash ret ix = has_dir_name ce ok l ret ix"
          using False nb ps by (simp add: has_dir_name.simps [of ce ok slash] Let_def)
        then show ?thesis using 1(2) [OF ps refl refl False nb 1(3-5) l(1,2)] by simp
      qed
    qed
  qed
qed


section \<open>Adding\<close>

lemma same_name_wf: "g_wf a \<Longrightarrow> g_wf b \<Longrightarrow> ce_same_name a b \<longleftrightarrow> g_name a = g_name b"
  unfolding ce_same_name_def g_wf_def
  using memcmp_compare3 [of "ce_namelen a" "g_name a" "g_name b"] by (auto simp: compare3_def split: if_splits)

lemma drop_unmerged_list:
  "pos \<le> length (g_cache ix) \<Longrightarrow> drop_unmerged ce pos ok ix = (ok', ix') \<Longrightarrow>
    g_cache ix' = take pos (g_cache ix) @ dropWhile (\<lambda>x. ce_same_name x ce) (drop pos (g_cache ix)) \<and> g_alloc ix' = g_alloc ix \<and> (ok \<longrightarrow> ok')"
proof (induction ce pos ok ix arbitrary: ix' rule: drop_unmerged.induct)
  case (1 ce pos ok ix)
  let ?es = "g_cache ix"
  show ?case
  proof (cases "pos < length ?es \<and> ce_same_name (?es ! pos) ce")
    case False
    then have "drop_unmerged ce pos ok ix = (ok, ix)" by (subst drop_unmerged.simps) auto
    moreover have "dropWhile (\<lambda>x. ce_same_name x ce) (drop pos ?es) = drop pos ?es"
      using False by (cases "drop pos ?es") (auto simp: nth_via_drop drop_eq_Nil)
    ultimately show ?thesis using 1(3) by simp
  next
    case True
    then have d: "drop pos ?es = ?es ! pos # drop (pos + 1) ?es" by (simp add: Cons_nth_drop_Suc)
    obtain left ix1 where r: "remove_cache_entry_at pos ix = (left, ix1)" by fastforce
    have e1: "g_cache ix1 = take pos ?es @ drop (pos + 1) ?es" using remove_at_list [of pos ix] True r by simp
    have a1: "g_alloc ix1 = g_alloc ix" using r by (auto simp: remove_cache_entry_at_def Let_def split: if_splits)
    show ?thesis
    proof (cases left)
      case t: True
      have "drop_unmerged ce pos ok ix = drop_unmerged ce pos True ix1" using True r t by (subst drop_unmerged.simps) simp
      then have h: "drop_unmerged ce pos True ix1 = (ok', ix')" using 1(3) by (rule subst)
      have pl: "pos \<le> length (g_cache ix1)" using e1 True by auto
      have "take pos (g_cache ix1) = take pos ?es" "drop pos (g_cache ix1) = drop (pos + 1) ?es" using e1 True by simp_all
      with 1(1) [OF True r [symmetric] t pl h] a1 True d show ?thesis by simp
    next
      case f: False
      have "drop_unmerged ce pos ok ix = (True, ix1)" using True r f by (subst drop_unmerged.simps) simp
      moreover have "drop (pos + 1) ?es = []" using r f True by (auto simp: remove_cache_entry_at_def Let_def split: if_splits)
      ultimately show ?thesis using 1(3) e1 a1 True d by simp
    qed
  qed
qed

lemma drop_unmerged_spec:
  assumes "g_inv ix" "pos = key_pos gkey (gkey ce) (g_cache ix)" "drop_unmerged ce pos ok ix = (ok', ix')"
  shows "only_removed ix ix'" "key_pos gkey (gkey ce) (g_cache ix') = pos"
proof -
  let ?es = "g_cache ix"
  have s: "key_sorted gkey ?es" using assms(1) by (simp add: g_inv_def)
  have pl: "pos \<le> length ?es" by (simp add: assms(2) key_pos_le)
  define dropped rest where "dropped = takeWhile (\<lambda>x. ce_same_name x ce) (drop pos ?es)"
    and "rest = dropWhile (\<lambda>x. ce_same_name x ce) (drop pos ?es)"
  have dr: "drop pos ?es = dropped @ rest" by (simp add: dropped_def rest_def)
  have e: "g_cache ix' = take pos ?es @ rest" "g_alloc ix' = g_alloc ix"
    using drop_unmerged_list [OF pl assms(3)] by (simp_all add: rest_def)
  have es: "take pos ?es @ dropped @ rest = ?es" unfolding dr [symmetric] by simp
  have "key_sorted gkey (take pos ?es @ dropped @ rest)" unfolding es by (rule s)
  then have sorted: "key_sorted gkey (take pos ?es @ rest)" by (auto simp: key_sorted_append)
  have "set (take pos ?es @ rest) \<subseteq> set (take pos ?es @ dropped @ rest)" by auto
  then have sub: "set (take pos ?es @ rest) \<subseteq> set ?es" unfolding es .
  have "length (take pos ?es @ rest) \<le> length (take pos ?es @ dropped @ rest)" by simp
  then have len: "length (take pos ?es @ rest) \<le> length ?es" unfolding es .
  show "only_removed ix ix'" using sorted sub len assms(1) unfolding only_removed_def g_inv_def e by auto
  have lt: "gkey x < gkey ce" if "x \<in> set (take pos ?es)" for x
    using that by (simp add: assms(2) flip: filter_less_take [OF s])
  have ge: "\<not> gkey x < gkey ce" if "x \<in> set rest" for x
  proof -
    have "x \<in> set (drop pos ?es)" using that by (simp add: dr)
    then obtain j where j: "j < length (drop pos ?es)" "drop pos ?es ! j = x" unfolding in_set_conv_nth by blast
    then have "gkey ce \<le> gkey (?es ! (pos + j))" by (intro key_pos_nth_ge [OF s]) (auto simp: assms(2))
    then show ?thesis using j by simp
  qed
  have "filter (\<lambda>x. gkey x < gkey ce) (take pos ?es @ rest) = take pos ?es"
    using lt ge by (auto simp: filter_id_conv filter_empty_conv)
  then show "key_pos gkey (gkey ce) (g_cache ix') = pos" using pl by (simp add: key_pos_def e)
qed

lemma insert_at_ok:
  assumes "g_inv ix" "g_wf ce" "gkey ce \<notin> gkey ` set (g_cache ix)" "pos = key_pos gkey (gkey ce) (g_cache ix)"
  shows "\<exists>ix'. insert_at ce pos ix = Val ix' \<and> g_inv ix' \<and> g_cache ix' = insert_key gkey ce (g_cache ix)"
proof -
  have s: "key_sorted gkey (g_cache ix)" "length (g_cache ix) \<le> g_alloc ix" "pos \<le> length (g_cache ix)"
    using assms(1,4) by (auto simp: g_inv_def key_pos_le)
  have i: "take pos (g_cache ix) @ ce # drop pos (g_cache ix) = insert_key gkey ce (g_cache ix)"
    using insert_key_absent [OF s(1) assms(3)] assms(4) by simp
  have "length (insert_key gkey ce (g_cache ix)) = Suc (length (g_cache ix))" unfolding i [symmetric] using s(3) by simp
  moreover have "\<forall>x\<in>set (insert_key gkey ce (g_cache ix)). g_wf x" using assms(1,2) by (auto simp: set_insert_key g_inv_def)
  ultimately show ?thesis using s i key_sorted_insert_key [OF s(1), of ce]
    by (auto simp: insert_at_def Let_def g_inv_def g_alloc_nr_def)
qed


definition g_addable :: "gce \<Rightarrow> bool" where
  "g_addable ce \<longleftrightarrow> g_wf ce \<and> g_name ce \<noteq> [] \<and> hd (g_name ce) \<noteq> 47"

lemma check_conflict_removed:
  assumes "g_inv ix" "g_addable ce"
  shows "\<exists>r ix'. check_file_directory_conflict ce pos ok ix = Val (r, ix') \<and> only_removed ix ix' \<and> (r = 0 \<longrightarrow> ix' = ix)"
proof -
  obtain r1 ix1 where f: "has_file_name ce ok pos 0 ix = (r1, ix1)" by fastforce
  have f': "only_removed ix ix1" "r1 = -1 \<or> (r1 = 0 \<and> ix1 = ix)" using has_file_name_removed [OF assms(1) f] by auto
  have n: "name_at (g_name ce) 0 \<noteq> 47" "0 < ce_namelen ce" "g_wf ce"
    using assms(2) unfolding g_addable_def g_wf_def name_at_def by (cases "g_name ce"; auto)+
  obtain r2 ix2 where d: "has_dir_name ce ok (ce_namelen ce) 0 ix1 = Val (r2, ix2)" "only_removed ix1 ix2"
      "r2 = -1 \<or> (r2 = 0 \<and> ix2 = ix1)"
    using has_dir_name_removed [OF _ n(3,1,2) order_refl, of ix1 ok 0] f'(1) by (auto simp: only_removed_def)
  have "check_file_directory_conflict ce pos ok ix = Val (r1 + r2, ix2)" by (simp add: check_file_directory_conflict_def f d(1))
  then show ?thesis using only_removed_trans [OF f'(1) d(2)] f'(2) d(3) by auto
qed

lemma g_pos_absent:
  "k \<notin> gkey ` set es \<Longrightarrow> g_pos k es < 0 \<and> nat (- g_pos k es - 1) = key_pos gkey k es"
  by (simp add: g_pos_def)

lemma insert_after_removal:
  assumes "only_removed ix ix1" "g_addable ce" "gkey ce \<notin> gkey ` set (g_cache ix)" "pos = key_pos gkey (gkey ce) (g_cache ix1)"
  shows "\<exists>ix'. insert_at ce pos ix1 = Val ix' \<and> g_inv ix' \<and> ce \<in> set (g_cache ix') \<and> set (g_cache ix') \<subseteq> insert ce (set (g_cache ix))"
proof -
  have "gkey ce \<notin> gkey ` set (g_cache ix1)" using assms(1,3) by (auto simp: only_removed_def)
  then obtain ix' where "insert_at ce pos ix1 = Val ix'" "g_inv ix'" "g_cache ix' = insert_key gkey ce (g_cache ix1)"
    using insert_at_ok [of ix1 ce pos] assms by (auto simp: only_removed_def g_addable_def)
  then show ?thesis using assms(1) by (auto simp: set_insert_key only_removed_def)
qed

lemma g_add_cache_entry_ok:
  assumes "g_inv ix" "g_addable ce"
  shows "\<exists>r ix'. g_add_cache_entry ce ok_to_add ok_to_replace skip_df_check ix = Val (r, ix') \<and> g_inv ix' \<and> (r = 0 \<or> r = -1) \<and>
    set (g_cache ix') \<subseteq> insert ce (set (g_cache ix)) \<and> (r = 0 \<longrightarrow> ce \<in> set (g_cache ix'))"
proof -
  let ?es = "g_cache ix" and ?k = "gkey ce"
  let ?ok = "\<lambda>(r :: int) ix'. g_inv ix' \<and> (r = 0 \<or> r = -1) \<and> set (g_cache ix') \<subseteq> insert ce (set ?es) \<and> (r = 0 \<longrightarrow> ce \<in> set (g_cache ix'))"
  have wf: "g_wf ce" using assms(2) by (simp add: g_addable_def)
  have s: "key_sorted gkey ?es" using assms(1) by (simp add: g_inv_def)
  note pos = g_cache_name_pos_entry [OF assms(1) wf]
  show ?thesis
  proof (cases "?k \<in> gkey ` set ?es")
    case True
    let ?p = "nat (g_pos ?k ?es)" and ?ix = "ix\<lparr>g_changed := True, g_cache := ?es[nat (g_pos ?k ?es) := ce]\<rparr>"
    have ge: "0 \<le> g_pos ?k ?es" using True by (simp add: g_pos_def)
    have p: "?p < length ?es" "gkey (?es ! ?p) = ?k" using g_pos_found [OF s ge] by auto
    have "map gkey (?es[?p := ce]) = map gkey ?es" using p by (simp add: map_update list_update_same_conv)
    then have "g_inv ?ix" using assms(1) wf set_update_subset_insert [of ?es ?p ce] by (auto simp: g_inv_def key_sorted_def)
    moreover have "g_add_cache_entry ce ok_to_add ok_to_replace skip_df_check ix = Val (0, ?ix)"
      using ge by (simp add: g_add_cache_entry_def pos)
    ultimately show ?thesis using set_update_subset_insert [of ?es ?p ce] set_update_memI [OF p(1), of ce] by auto
  next
    case absent: False
    define p where "p = key_pos gkey ?k ?es"
    note np = g_pos_absent [OF absent, folded p_def]
    obtain ok ix1 where o: "(if p < length ?es \<and> ce_stage ce = 0 then drop_unmerged ce p ok_to_add ix else (ok_to_add, ix)) = (ok, ix1)"
      by fastforce
    have r1: "only_removed ix ix1" "key_pos gkey ?k (g_cache ix1) = p"
      using drop_unmerged_spec [OF assms(1) p_def, of ok_to_add ok ix1] o only_removed_refl [OF assms(1)] p_def
      by (auto split: if_splits)
    have step: "g_add_cache_entry ce ok_to_add ok_to_replace skip_df_check ix =
      (if \<not> ok then Val (-1, ix1)
       else if skip_df_check then bindR (insert_at ce p ix1) (\<lambda>ix2. Val (0, ix2))
       else bindR (check_file_directory_conflict ce p ok_to_replace ix1) (\<lambda>(conflict, ix2).
         if conflict \<noteq> 0 then
           (if \<not> ok_to_replace then Val (-1, ix2)
            else bindR (insert_at ce (nat (- g_cache_name_pos (g_name ce) (unat (g_flags ce)) ix2 - 1)) ix2) (\<lambda>ix3. Val (0, ix3)))
         else bindR (insert_at ce p ix2) (\<lambda>ix3. Val (0, ix3))))"
      using np o by (simp add: g_add_cache_entry_def pos Let_def)
    obtain c ix2 where c: "check_file_directory_conflict ce p ok_to_replace ix1 = Val (c, ix2)" "only_removed ix1 ix2" "c = 0 \<longrightarrow> ix2 = ix1"
      using check_conflict_removed [OF r1(1) [unfolded only_removed_def, THEN conjunct1] assms(2), of p ok_to_replace] by blast
    have r2: "only_removed ix ix2" using only_removed_trans [OF r1(1) c(2)] .
    have gone: "gkey ce \<notin> gkey ` set (g_cache ix2)" using r2 absent by (auto simp: only_removed_def)
    have p2: "nat (- g_cache_name_pos (g_name ce) (unat (g_flags ce)) ix2 - 1) = key_pos gkey ?k (g_cache ix2)"
      using g_pos_absent [OF gone] g_cache_name_pos_entry [of ix2 ce] r2 wf by (simp add: only_removed_def)
    obtain ix3 where i1: "insert_at ce p ix1 = Val ix3" "?ok 0 ix3"
      using insert_after_removal [OF r1(1) assms(2) absent, of p] r1(2) by auto
    obtain ix4 where i2: "insert_at ce (key_pos gkey ?k (g_cache ix2)) ix2 = Val ix4" "?ok 0 ix4"
      using insert_after_removal [OF r2 assms(2) absent refl] by auto
    have k: "?ok (-1) ix1" "?ok (-1) ix2" using r1(1) r2 by (auto simp: only_removed_def)
    show ?thesis unfolding step c(1) using i1 i2 k c(3) p2 by auto
  qed
qed



lemma g_add_unmerged:
  assumes "g_inv ix" "g_addable ce" "ce_stage ce \<noteq> 0" "g_add_cache_entry ce True b True ix = Val (0, ix')"
  shows "g_cache ix' = insert_key gkey ce (g_cache ix)"
proof -
  let ?es = "g_cache ix" and ?k = "gkey ce"
  have wf: "g_wf ce" and s: "key_sorted gkey ?es" using assms(1,2) by (simp_all add: g_addable_def g_inv_def)
  note pos = g_cache_name_pos_entry [OF assms(1) wf]
  show ?thesis
  proof (cases "?k \<in> gkey ` set ?es")
    case True
    then show ?thesis using assms(4) insert_key_present [OF s True] by (auto simp: g_add_cache_entry_def pos g_pos_def Let_def)
  next
    case False
    then show ?thesis using assms(3,4) insert_at_ok [OF assms(1) wf False refl] g_pos_absent [OF False]
      by (auto simp: g_add_cache_entry_def pos Let_def)
  qed
qed

text \<open>Without the check for directories, and for the stages of a merge, the cache is a map from names and flags to entries.\<close>

interpretation git_index: name_index g_inv g_cache gkey "\<lambda>ce. g_addable ce \<and> ce_stage ce \<noteq> 0"
  "\<lambda>ce s s'. g_add_cache_entry ce True False True s = Val (0, s')"
proof unfold_locales
  show "key_sorted gkey (g_cache s)" if "g_inv s" for s using that by (simp add: g_inv_def)
  show "g_inv s'" if "g_inv s" "g_addable e \<and> ce_stage e \<noteq> 0" "g_add_cache_entry e True False True s = Val (0, s')" for s e s'
    using g_add_cache_entry_ok [of s e True False True] that by auto
  show "g_cache s' = insert_key gkey e (g_cache s)"
    if "g_inv s" "g_addable e \<and> ce_stage e \<noteq> 0" "g_add_cache_entry e True False True s = Val (0, s')" for s e s'
    using g_add_unmerged [of s e False s'] that by simp
qed

section \<open>File and directory of one name\<close>

lemma below_name:
  assumes "g_wf ce" "g_wf p" "ce_namelen ce < ce_namelen p" "memcmp (ce_namelen ce) (g_name ce) (g_name p) = 0"
    "name_at (g_name p) (ce_namelen ce) = 47"
  shows "\<exists>x. g_name p = g_name ce @ 47 # x"
proof -
  let ?n = "ce_namelen ce"
  have l: "length (g_name ce) = ?n" "length (g_name p) = ce_namelen p" using assms(1,2) by (simp_all add: g_wf_def)
  have "compare3 (take ?n (g_name ce)) (take ?n (g_name p)) = 0"
    using memcmp_compare3 [of ?n "g_name ce" "g_name p"] assms(3,4) l by simp
  then have "take ?n (g_name p) = g_name ce" using l(1) by (auto simp: compare3_def split: if_splits)
  moreover have "drop ?n (g_name p) = g_name p ! ?n # drop (Suc ?n) (g_name p)" using assms(3) l(2) by (simp add: Cons_nth_drop_Suc)
  ultimately have "g_name p = g_name ce @ g_name p ! ?n # drop (Suc ?n) (g_name p)" by (metis append_take_drop_id)
  then show ?thesis using assms(3,5) l(2) by (auto simp: name_at_def)
qed

lemma has_file_name_none:
  "g_wf ce \<Longrightarrow> \<forall>p\<in>set (g_cache ix). g_wf p \<and> (\<forall>x. g_name p \<noteq> g_name ce @ 47 # x) \<Longrightarrow> has_file_name ce ok pos ret ix = (ret, ix)"
proof (induction ce ok pos ret ix rule: has_file_name.induct)
  case (1 ce ok pos ret ix)
  show ?case
  proof (cases "pos < length (g_cache ix)")
    case True
    then have p: "g_wf (g_cache ix ! pos)" "\<And>x. g_name (g_cache ix ! pos) \<noteq> g_name ce @ 47 # x" using 1(5) by auto
    let ?p = "g_cache ix ! pos" and ?len = "ce_namelen ce"
    show ?thesis
    proof (cases "ce_namelen ?p \<le> ?len \<or> memcmp ?len (g_name ce) (g_name ?p) \<noteq> 0")
      case stop: True
      then show ?thesis by (subst has_file_name.simps) (auto simp: Let_def)
    next
      case False
      then have n: "\<not> ce_namelen ?p \<le> ?len" "\<not> memcmp ?len (g_name ce) (g_name ?p) \<noteq> 0" by auto
      then have s: "name_at (g_name ?p) ?len \<noteq> 47" using below_name [OF 1(4) p(1)] p(2) by auto
      have "has_file_name ce ok (pos + 1) ret ix = (ret, ix)"
        using 1(1) [OF True refl refl n _ 1(4,5)] 1(2) [OF True refl refl n _ s 1(4,5)] by (cases "ce_stage ?p = ce_stage ce") simp_all
      then show ?thesis using True n s by (subst has_file_name.simps) (simp add: Let_def)
    qed
  qed (simp add: has_file_name.simps [of ce ok pos])
qed

lemma prev_slash_last: "47 \<notin> set rest \<Longrightarrow> prev_slash (d @ 47 # rest) (length d + Suc (length rest)) = Val (Some (length d))"
proof -
  assume r: "47 \<notin> set rest"
  have "prev_slash (d @ 47 # rest) (Suc (length d + j)) = Val (Some (length d))" if "j \<le> length rest" for j
    using that
  proof (induction j)
    case (Suc j)
    have "rest ! j \<noteq> 47" using r Suc.prems by (metis Suc_le_eq nth_mem)
    moreover have "(d @ 47 # rest) ! (length d + Suc j) = rest ! j" by (simp add: nth_append)
    ultimately show ?case using Suc by (simp add: name_at_def)
  qed (simp add: name_at_def nth_append)
  from this [of "length rest"] show ?thesis by simp
qed

text \<open>The first directory that \<^verbatim>\<open>has_dir_name\<close> looks up, when there is an entry for it.\<close>

lemma dir_entry_found:
  fixes ce f :: gce and ix :: gindex
  defines "fp \<equiv> g_cache_name_pos (g_name ce) (unat (create_ce_flags (length (g_name f)) (ce_stage ce))) ix"
  assumes "g_inv ix" "g_wf ce" "f \<in> set (g_cache ix)" "g_name ce = g_name f @ 47 # rest" "47 \<notin> set rest"
    and "g_flags f = create_ce_flags (length (g_name f)) (ce_stage ce)"
  shows "prev_slash (g_name ce) (ce_namelen ce) = Val (Some (length (g_name f)))"
    and "0 \<le> fp" "nat fp < length (g_cache ix)" "g_cache ix ! nat fp = f"
proof -
  let ?es = "g_cache ix" and ?d = "g_name f"
  have wf: "g_wf f" using assms(2,4) by (simp add: g_inv_def)
  have d: "length ?d = ce_namelen f" "length (g_name ce) = ce_namelen ce" using wf assms(3) by (simp_all add: g_wf_def)
  have "ce_namelen ce = length ?d + Suc (length rest)" using d(2) assms(5) by simp
  then show "prev_slash (g_name ce) (ce_namelen ce) = Val (Some (length ?d))"
    unfolding assms(5) by (simp only: prev_slash_last [OF assms(6)])
  have l: "length ?d < 4096" "length ?d \<le> ce_namelen ce" using d ce_namelen_less [of f] assms(5) by auto
  have "fp = g_pos (gkey f) ?es"
    using g_cache_name_pos_spec [OF assms(2), of "unat (create_ce_flags (length ?d) (ce_stage ce))" "g_name ce"] l d(2) assms(5,7)
    by (simp add: fp_def create_ce_flags_len gkey_def)
  moreover have "0 \<le> g_pos (gkey f) ?es" using assms(4) by (simp add: g_pos_def)
  ultimately show fp: "0 \<le> fp" "nat fp < length ?es" and "?es ! nat fp = f"
    using g_pos_found [of ?es "gkey f"] assms(2,4) key_sorted_distinct [of gkey ?es]
    by (auto simp: g_inv_def distinct_map inj_on_def)
qed

text \<open>
  C21: The test of \<^verbatim>\<open>has_dir_name\<close> is the wrong way round.  With an entry for the file \<open>d\<close> in the index, adding \<open>d/rest\<close>
  with leave to replace keeps both, the file and what lies below it; without leave it fails, but removes the file.
\<close>

theorem has_dir_name_inverted:
  assumes "g_inv ix" "g_addable ce" "f \<in> set (g_cache ix)" "g_name ce = g_name f @ 47 # rest" "47 \<notin> set rest"
    and "g_flags f = create_ce_flags (length (g_name f)) (ce_stage ce)"
    and "\<forall>p\<in>set (g_cache ix). g_name p \<noteq> g_name ce \<and> (\<forall>x. g_name p \<noteq> g_name ce @ 47 # x)"
  shows "\<exists>ix1 ix2. g_add_cache_entry ce True True False ix = Val (0, ix1) \<and> {f, ce} \<subseteq> set (g_cache ix1) \<and>
    g_add_cache_entry ce True False False ix = Val (-1, ix2) \<and> f \<notin> set (g_cache ix2)"
proof -
  let ?es = "g_cache ix" and ?d = "g_name f"
  have wf: "g_wf ce" "g_wf f" "\<forall>p\<in>set ?es. g_wf p" using assms(1-3) by (auto simp: g_addable_def g_inv_def)
  have absent: "gkey ce \<notin> gkey ` set ?es" using assms(7) by (auto simp: gkey_def)
  define p where "p = key_pos gkey (gkey ce) ?es"
  note np = g_pos_absent [OF absent, folded p_def]
  have files: "has_file_name ce ok p 0 ix = (0, ix)" for ok using has_file_name_none [OF wf(1)] wf(3) assms(7) by blast
  have "\<not> ce_same_name (?es ! p) ce" if "p < length ?es" using same_name_wf [of "?es ! p" ce] wf(1,3) assms(7) that by auto
  then have unm: "(if p < length ?es \<and> ce_stage ce = 0 then drop_unmerged ce p True ix else (True, ix)) = (True, ix)"
    by (auto simp: drop_unmerged.simps [of ce p])
  have ne: "0 < length ?d" "length ?d \<le> ce_namelen ce" using assms(2,4) wf(1) by (cases ?d; auto simp: g_addable_def g_wf_def)+
  let ?fp = "g_cache_name_pos (g_name ce) (unat (create_ce_flags (length ?d) (ce_stage ce))) ix"
  note dir = dir_entry_found [OF assms(1) wf(1) assms(3-6)]
  have dirT: "has_dir_name ce True (ce_namelen ce) 0 ix = Val (-1, ix)"
    using dir(1,2) by (simp add: has_dir_name.simps [of ce True])
  note rem = remove_at_removed [OF assms(1) dir(3), unfolded dir(4)]
  have n0: "name_at (g_name ce) 0 \<noteq> 47" using assms(2) ne by (cases "g_name ce") (auto simp: g_addable_def name_at_def)
  obtain ix2 where dirF: "has_dir_name ce False (length ?d) (-1) (snd (remove_cache_entry_at (nat ?fp) ix)) = Val (-1, ix2)"
      "only_removed (snd (remove_cache_entry_at (nat ?fp) ix)) ix2"
    using has_dir_name_removed [OF _ wf(1) n0 ne, of "snd (remove_cache_entry_at (nat ?fp) ix)" False "-1"] rem(1)
    by (auto simp: only_removed_def)
  have F: "has_dir_name ce False (ce_namelen ce) 0 ix = Val (-1, ix2)"
    using dir(1,2) dirF(1) by (simp add: has_dir_name.simps [of ce False "ce_namelen ce"])
  obtain ix1 where ins: "insert_at ce p ix = Val ix1" "g_cache ix1 = insert_key gkey ce ?es"
    using insert_at_ok [OF assms(1) wf(1) absent p_def] by blast
  have "f \<notin> set (g_cache ix2)" using rem(2) dirF(2) by (auto simp: only_removed_def)
  moreover have "{f, ce} \<subseteq> set (g_cache ix1)" using assms(3) absent by (auto simp: ins(2) set_insert_key) (metis image_eqI)
  moreover have "g_add_cache_entry ce True True False ix = Val (0, ix1)" "g_add_cache_entry ce True False False ix = Val (-1, ix2)"
    using unm np files dirT F ins(1)
    by (simp_all add: g_add_cache_entry_def g_cache_name_pos_entry [OF assms(1) wf(1)] check_file_directory_conflict_def Let_def)
  ultimately show ?thesis by blast
qed

section \<open>Examples\<close>

definition toy_gce :: "bytes \<Rightarrow> gce" where
  "toy_gce nm = \<lparr>g_ctime = 1, g_ctime_nsec = 0, g_mtime = 2, g_mtime_nsec = 0, g_dev = 3, g_ino = 4, g_mode = 0x81a4, g_uid = 5, g_gid = 6,
     g_size = 7, g_sha1 = replicate 20 9, g_flags = create_ce_flags (length nm) 0, g_name = nm\<rparr>"

definition toy_index :: gindex where
  "toy_index = \<lparr>g_cache = [toy_gce [97]], g_alloc = 24, g_changed = False\<rparr>"

lemma toy_gce_simps [simp]:
  "g_name (toy_gce nm) = nm" "g_flags (toy_gce nm) = create_ce_flags (length nm) 0" "g_sha1 (toy_gce nm) = replicate 20 9"
  by (simp_all add: toy_gce_def)

lemma toy_namelen [simp]: "length nm < 4096 \<Longrightarrow> ce_namelen (toy_gce nm) = length nm"
  by (simp add: flags_namelen create_ce_flags_len)

lemma toy_wf: "no_nul nm \<Longrightarrow> length nm < 4096 \<Longrightarrow> g_wf (toy_gce nm)"
  by (simp add: g_wf_def)

lemma toy_index_inv: "g_inv toy_index"
  by (simp add: g_inv_def toy_index_def key_sorted_def toy_wf)

lemma toy_gce_addable: "g_addable (toy_gce [97, 47, 98])"
  by (simp add: g_addable_def toy_wf)


theorem has_dir_name_inverted_witness:
  "\<exists>ix1 ix2. g_add_cache_entry (toy_gce [97, 47, 98]) True True False toy_index = Val (0, ix1) \<and>
    {toy_gce [97], toy_gce [97, 47, 98]} \<subseteq> set (g_cache ix1) \<and>
    g_add_cache_entry (toy_gce [97, 47, 98]) True False False toy_index = Val (-1, ix2) \<and> toy_gce [97] \<notin> set (g_cache ix2)"
  by (rule has_dir_name_inverted [OF toy_index_inv toy_gce_addable, where rest = "[98]"])
    (simp_all add: toy_index_def ce_stage_def create_ce_flags_def CE_STAGEMASK_def)

end
