(* ===== verification/Git_Index_File.thy ===== *)
theory Git_Index_File
  imports Git_Index
begin

text \<open>
  The index file of git-0.99.1 (read-cache.c): the layout of an entry, \<^verbatim>\<open>verify_hdr\<close> and \<^verbatim>\<open>read_cache\<close> over the
  mapped bytes, and \<^verbatim>\<open>ce_write\<close>, \<^verbatim>\<open>ce_flush\<close> and \<^verbatim>\<open>write_cache\<close> through their buffer of 8192 bytes.  Reading a byte
  behind the mapping or writing one behind the buffer is \<^const>\<open>Oob\<close>.  The lemmas show what gets into the file for every
  list of entries, that reading it gives the entries back, and when the hash does not fit into the buffer.
\<close>

section \<open>The index file (read-cache.c)\<close>

definition be16 :: "u16 \<Rightarrow> bytes" where
  "be16 w = [ucast (drop_bit 8 w), ucast w]"

definition get_be32 :: "bytes \<Rightarrow> nat \<Rightarrow> u32" where
  "get_be32 m i = be_word (take 4 (drop i m))"

definition get_be16 :: "bytes \<Rightarrow> nat \<Rightarrow> u16" where
  "get_be16 m i = push_bit 8 (ucast (m ! i)) OR ucast (m ! (i + 1))"

text \<open>An entry as it lies in memory and in the file, padded with zero bytes.\<close>

definition g_put_ce :: "gce \<Rightarrow> bytes" where
  "g_put_ce ce = be32 (g_ctime ce) @ be32 (g_ctime_nsec ce) @ be32 (g_mtime ce) @ be32 (g_mtime_nsec ce) @
     be32 (g_dev ce) @ be32 (g_ino ce) @ be32 (g_mode ce) @ be32 (g_uid ce) @ be32 (g_gid ce) @ be32 (g_size ce) @
     g_sha1 ce @ be16 (g_flags ce) @ g_name ce @ replicate (g_ce_size ce - 62 - ce_namelen ce) 0"

text \<open>The entry at an offset of the mapping, whose fields and name must lie in it.\<close>

definition g_get_ce :: "bytes \<Rightarrow> nat \<Rightarrow> gce res" where
  "g_get_ce m off =
     (if length m < off + 62 then Oob
      else (let flags = get_be16 m (off + 60); len = unat (CE_NAMEMASK AND flags) in
        if length m < off + 62 + len then Oob
        else Val \<lparr>g_ctime = get_be32 m off, g_ctime_nsec = get_be32 m (off + 4), g_mtime = get_be32 m (off + 8),
          g_mtime_nsec = get_be32 m (off + 12), g_dev = get_be32 m (off + 16), g_ino = get_be32 m (off + 20),
          g_mode = get_be32 m (off + 24), g_uid = get_be32 m (off + 28), g_gid = get_be32 m (off + 32),
          g_size = get_be32 m (off + 36), g_sha1 = take 20 (drop (off + 40) m), g_flags = flags,
          g_name = take len (drop (off + 62) m)\<rparr>))"

definition sha1_bytes :: "bytes \<Rightarrow> bytes" where
  "sha1_bytes m = fst (SHA1_Final (SHA1_Update SHA1_Init m))"

definition g_verify_hdr :: "bytes \<Rightarrow> bool" where
  "g_verify_hdr m \<longleftrightarrow> get_be32 m 0 = CACHE_SIGNATURE \<and> get_be32 m 4 = 2 \<and>
     sha1_bytes (take (length m - 20) m) = drop (length m - 20) m"

fun g_read_entries :: "bytes \<Rightarrow> nat \<Rightarrow> nat \<Rightarrow> gce list res" where
  "g_read_entries m off 0 = Val []"
| "g_read_entries m off (Suc n) =
     bindR (g_get_ce m off) (\<lambda>ce. bindR (g_read_entries m (off + g_ce_size ce) n) (\<lambda>ces. Val (ce # ces)))"

text \<open>What \<^verbatim>\<open>open\<close> of the index finds.\<close>

datatype index_file = No_File | Open_Failed | Contents bytes

text \<open>\<^verbatim>\<open>read_cache\<close>: the value returned and the cache; \<open>loaded\<close> tells whether there is an array already.\<close>

definition g_read_cache :: "bool \<Rightarrow> index_file \<Rightarrow> gindex \<Rightarrow> (int \<times> gindex) res" where
  "g_read_cache loaded file ix =
     (if loaded then Val (-1, ix)
      else (case file of No_File \<Rightarrow> Val (0, ix) | Open_Failed \<Rightarrow> Val (-1, ix)
        | Contents m \<Rightarrow>
          (if length m < 12 + 20 then Val (-1, ix)
           else if \<not> g_verify_hdr m then Val (-1, ix)
           else (let nr = unat (get_be32 m 8) in
             bindR (g_read_entries m 12 nr) (\<lambda>ces.
               Val (int nr, ix\<lparr>g_cache := ces, g_alloc := g_alloc_nr nr\<rparr>))))))"

definition WRITE_BUFFER_SIZE :: nat where "WRITE_BUFFER_SIZE = 8192"

text \<open>The context of the hash, the buffer, what has reached the file, and how much room there is for it.\<close>

record wstate =
  w_ctx :: SHA_CTX
  w_buf :: bytes
  w_out :: bytes
  w_room :: nat

definition w_write :: "bytes \<Rightarrow> wstate \<Rightarrow> bool \<times> wstate" where
  "w_write data w =
     (let n = min (length data) (w_room w - length (w_out w)) in (n = length data, w\<lparr>w_out := w_out w @ take n data\<rparr>))"

text \<open>\<^verbatim>\<open>ce_write\<close>; the flag is false for -1.\<close>

function ce_write :: "bytes \<Rightarrow> wstate \<Rightarrow> bool \<times> wstate" where
  "ce_write data w =
     (if data = [] then (True, w)
      else (let partial = min (WRITE_BUFFER_SIZE - length (w_buf w)) (length data);
                buffered = w_buf w @ take partial data in
        if length buffered = WRITE_BUFFER_SIZE then
          (case w_write buffered (w\<lparr>w_ctx := SHA1_Update (w_ctx w) buffered\<rparr>) of (ok, w1) \<Rightarrow>
             if \<not> ok then (False, w1) else ce_write (drop partial data) (w1\<lparr>w_buf := []\<rparr>))
        else (True, w\<lparr>w_buf := buffered\<rparr>)))"
  by pat_completeness auto
termination
  by (relation "measure (\<lambda>(data, w). length data + length (w_buf w))") (auto simp: WRITE_BUFFER_SIZE_def)

declare ce_write.simps [simp del]

text \<open>\<^verbatim>\<open>ce_flush\<close>: the hash goes behind the bytes in the buffer, which has no room for it when they are too many.\<close>

definition ce_flush :: "wstate \<Rightarrow> (bool \<times> wstate) res" where
  "ce_flush w =
     (let ctx = (if w_buf w \<noteq> [] then SHA1_Update (w_ctx w) (w_buf w) else w_ctx w);
          sha1 = fst (SHA1_Final ctx) in
      if WRITE_BUFFER_SIZE < length (w_buf w) + 20 then Oob
      else Val (w_write (w_buf w @ sha1) (w\<lparr>w_ctx := ctx, w_buf := []\<rparr>)))"

fun write_ces :: "gce list \<Rightarrow> wstate \<Rightarrow> bool \<times> wstate" where
  "write_ces [] w = (True, w)"
| "write_ces (ce # ces) w =
     (if g_mode ce = 0 then write_ces ces w
      else (case ce_write (g_put_ce ce) w of (ok, w1) \<Rightarrow> if ok then write_ces ces w1 else (False, w1)))"

text \<open>\<^verbatim>\<open>write_cache\<close> into an empty file; entries without a mode are those to be removed.\<close>

definition g_write_cache :: "nat \<Rightarrow> gce list \<Rightarrow> (bool \<times> wstate) res" where
  "g_write_cache disk cache =
     (let n = length (filter (\<lambda>ce. g_mode ce \<noteq> 0) cache);
          hdr = be32 CACHE_SIGNATURE @ be32 2 @ be32 (of_nat n) in
      case ce_write hdr \<lparr>w_ctx = SHA1_Init, w_buf = [], w_out = [], w_room = disk\<rparr> of (ok, w1) \<Rightarrow>
        if \<not> ok then Val (False, w1)
        else (case write_ces cache w1 of (ok2, w2) \<Rightarrow> if \<not> ok2 then Val (False, w2) else ce_flush w2))"


text \<open>Reading back numbers and entries.\<close>

lemma be_word_be32 [codec]: "be_word (be32 w) = w"
proof (rule bit_word_eqI)
  fix n assume "n < LENGTH(32)"
  then consider "n < 8" | "8 \<le> n" "n < 16" | "16 \<le> n" "n < 24" | "24 \<le> n" "n < 32"
    by (auto simp: not_less) linarith
  then show "bit (be_word (be32 w)) n = bit w n"
    unfolding be_word_def be32_def by cases (auto simp: bit_simps)
qed

lemma be16_value [codec]: "push_bit 8 (ucast (be16 w ! 0)) OR ucast (be16 w ! 1) = w"
proof (rule bit_word_eqI)
  fix n assume "n < LENGTH(16)"
  then consider "n < 8" | "8 \<le> n" "n < 16" by fastforce
  then show "bit (push_bit 8 (ucast (be16 w ! 0)) OR ucast (be16 w ! 1) :: u16) n = bit w n"
    unfolding be16_def by cases (auto simp: bit_simps)
qed

lemma length_be16 [simp]: "length (be16 w) = 2"
  by (simp add: be16_def)

lemma get_be32_skip: "get_be32 (pre @ m) (length pre + i) = get_be32 m i"
  by (simp add: get_be32_def)

lemma get_be32_drop: "get_be32 m i = be_word (take 4 (drop i m))"
  by (simp add: get_be32_def)

lemma length_g_put_ce: "g_wf ce \<Longrightarrow> length (g_put_ce ce) = g_ce_size ce"
  using cache_entry_size_bounds(1) [of "ce_namelen ce"] by (simp add: g_put_ce_def g_wf_def g_ce_size_def)

lemma g_put_ce_fields:
  assumes "g_wf ce"
  shows "get_be32 (g_put_ce ce @ post) 0 = g_ctime ce" "get_be32 (g_put_ce ce @ post) 4 = g_ctime_nsec ce"
    "get_be32 (g_put_ce ce @ post) 8 = g_mtime ce" "get_be32 (g_put_ce ce @ post) 12 = g_mtime_nsec ce"
    "get_be32 (g_put_ce ce @ post) 16 = g_dev ce" "get_be32 (g_put_ce ce @ post) 20 = g_ino ce"
    "get_be32 (g_put_ce ce @ post) 24 = g_mode ce" "get_be32 (g_put_ce ce @ post) 28 = g_uid ce"
    "get_be32 (g_put_ce ce @ post) 32 = g_gid ce" "get_be32 (g_put_ce ce @ post) 36 = g_size ce"
    "take 20 (drop 40 (g_put_ce ce @ post)) = g_sha1 ce" "get_be16 (g_put_ce ce @ post) 60 = g_flags ce"
    "take (ce_namelen ce) (drop 62 (g_put_ce ce @ post)) = g_name ce"
  using assms be16_value [of "g_flags ce"]
  by (simp_all add: g_put_ce_def get_be32_def get_be16_def be_word_be32 g_wf_def nth_append)

lemma g_get_put_ce:
  assumes "g_wf ce"
  shows "g_get_ce (pre @ g_put_ce ce @ post) (length pre) = Val ce"
proof -
  let ?m = "pre @ g_put_ce ce @ post"
  have n: "62 + ce_namelen ce < length (g_put_ce ce)"
    using cache_entry_size_bounds(1) [of "ce_namelen ce"] length_g_put_ce [OF assms] by (simp add: g_ce_size_def)
  have g16: "get_be16 ?m (length pre + 60) = g_flags ce"
    using g_put_ce_fields(12) [OF assms, of post] by (simp add: get_be16_def nth_append)
  have d: "drop (length pre + k) ?m = drop k (g_put_ce ce @ post)" for k by simp
  have g32: "get_be32 ?m (length pre + k) = get_be32 (g_put_ce ce @ post) k" for k by (rule get_be32_skip)
  have g0: "get_be32 ?m (length pre) = g_ctime ce" using g32 [of 0] g_put_ce_fields(1) [OF assms, of post] by simp
  show ?thesis
    unfolding g_get_ce_def g16 g32 g0 d Let_def ce_namelen_def [symmetric] g_put_ce_fields [OF assms]
    using n by simp
qed

lemma g_read_entries_concat:
  "\<forall>ce\<in>set ces. g_wf ce \<Longrightarrow> g_read_entries (pre @ concat (map g_put_ce ces) @ post) (length pre) (length ces) = Val ces"
proof (induction ces arbitrary: pre)
  case (Cons ce ces)
  have wf: "g_wf ce" "\<forall>ce\<in>set ces. g_wf ce" using Cons.prems by auto
  have "g_read_entries ((pre @ g_put_ce ce) @ concat (map g_put_ce ces) @ post) (length (pre @ g_put_ce ce)) (length ces) = Val ces"
    by (rule Cons.IH [OF wf(2)])
  then show ?case using g_get_put_ce [OF wf(1), of pre "concat (map g_put_ce ces) @ post"] length_g_put_ce [OF wf(1)] by simp
qed simp

text \<open>What has gone through \<^verbatim>\<open>ce_write\<close> is in the file or in the buffer, and the hash has seen what is in the file.\<close>

definition w_inv :: "wstate \<Rightarrow> bytes \<Rightarrow> bool" where
  "w_inv w s \<longleftrightarrow> w_out w @ w_buf w = s \<and> w_ctx w = SHA1_Update SHA1_Init (w_out w) \<and>
     length (w_buf w) < 8192 \<and> 8192 dvd length (w_out w)"

lemma ce_write_ok:
  "w_inv w s \<Longrightarrow> length s + length data \<le> w_room w \<Longrightarrow>
    \<exists>w'. ce_write data w = (True, w') \<and> w_inv w' (s @ data) \<and> w_room w' = w_room w"
proof (induction data w arbitrary: s rule: ce_write.induct)
  case (1 data w)
  show ?case
  proof (cases "data = []")
    case True
    then show ?thesis using 1(2) by (simp add: ce_write.simps)
  next
    case False
    define partial where "partial = min (8192 - length (w_buf w)) (length data)"
    define buffered where "buffered = w_buf w @ take partial data"
    have i: "w_out w @ w_buf w = s" "w_ctx w = SHA1_Update SHA1_Init (w_out w)" "length (w_buf w) < 8192" "8192 dvd length (w_out w)"
      using 1(2) by (auto simp: w_inv_def)
    have lb: "length buffered = min 8192 (length (w_buf w) + length data)"
      using i(3) by (auto simp: buffered_def partial_def)
    show ?thesis
    proof (cases "length buffered = 8192")
      case full: True
      let ?w = "w\<lparr>w_ctx := SHA1_Update (w_ctx w) buffered\<rparr>"
      have "partial \<le> length data" by (simp add: partial_def)
      moreover have ls: "length s = length (w_out w) + length (w_buf w)" using i(1) by auto
      ultimately have room: "length (w_out w) + length buffered \<le> w_room w" using 1(3) by (simp add: buffered_def)
      then have wr: "w_write buffered ?w = (True, ?w\<lparr>w_out := w_out w @ buffered\<rparr>)" by (simp add: w_write_def Let_def)
      let ?w1 = "?w\<lparr>w_out := w_out w @ buffered, w_buf := []\<rparr>"
      have e: "ce_write data w = ce_write (drop partial data) ?w1"
        unfolding ce_write.simps [of data w] WRITE_BUFFER_SIZE_def Let_def partial_def [symmetric] buffered_def [symmetric]
        using False full wr by simp
      have s1: "w_inv ?w1 (s @ take partial data)"
        using i full by (simp add: w_inv_def buffered_def SHA1_Update_append)
      have "length (s @ take partial data) + length (drop partial data) \<le> w_room ?w1" using 1(3) by (simp add: partial_def)
      from 1(1) [OF False _ _ _ wr [symmetric] _ s1 this] full e i(3) show ?thesis
        by (simp add: WRITE_BUFFER_SIZE_def partial_def buffered_def)
    next
      case False
      then have all: "take partial data = data" using lb by (auto simp: partial_def)
      have "ce_write data w = (True, w\<lparr>w_buf := buffered\<rparr>)"
        unfolding ce_write.simps [of data w] WRITE_BUFFER_SIZE_def Let_def partial_def [symmetric] buffered_def [symmetric]
        using False \<open>data \<noteq> []\<close> by simp
      then show ?thesis using i lb False all by (auto simp: w_inv_def buffered_def)
    qed
  qed
qed

lemma write_ces_ok:
  "w_inv w s \<Longrightarrow> length s + length (concat (map g_put_ce (filter (\<lambda>ce. g_mode ce \<noteq> 0) ces))) \<le> w_room w \<Longrightarrow>
    \<exists>w'. write_ces ces w = (True, w') \<and> w_inv w' (s @ concat (map g_put_ce (filter (\<lambda>ce. g_mode ce \<noteq> 0) ces))) \<and> w_room w' = w_room w"
proof (induction ces arbitrary: w s)
  case (Cons ce ces)
  show ?case
  proof (cases "g_mode ce = 0")
    case True
    then show ?thesis using Cons by simp
  next
    case False
    then have "length s + length (g_put_ce ce) \<le> w_room w" using Cons.prems(2) by simp
    then obtain w1 where w1: "ce_write (g_put_ce ce) w = (True, w1)" "w_inv w1 (s @ g_put_ce ce)" "w_room w1 = w_room w"
      using ce_write_ok [OF Cons.prems(1)] by blast
    show ?thesis using Cons.IH [OF w1(2)] Cons.prems(2) False w1(1,3) by simp
  qed
qed simp

text \<open>The bytes of the index file before its hash.\<close>

definition g_index_bytes :: "gce list \<Rightarrow> bytes" where
  "g_index_bytes ces = be32 CACHE_SIGNATURE @ be32 2 @ be32 (of_nat (length ces)) @ concat (map g_put_ce ces)"

abbreviation kept :: "gce list \<Rightarrow> gce list" where
  "kept \<equiv> filter (\<lambda>ce. g_mode ce \<noteq> 0)"

lemma w_inv_mod: "w_inv w s \<Longrightarrow> length (w_buf w) = length s mod 8192"
proof -
  assume "w_inv w s"
  then have "length s = length (w_out w) + length (w_buf w)" "length (w_buf w) < 8192" "8192 dvd length (w_out w)"
    by (auto simp: w_inv_def)
  then show ?thesis by (auto elim!: dvdE)
qed

lemma ce_flush_ok:
  assumes "w_inv w s" "length s + 20 \<le> w_room w"
  shows "if 8172 < length s mod 8192 then ce_flush w = Oob
    else \<exists>w'. ce_flush w = Val (True, w') \<and> w_out w' = s @ sha1_bytes s"
proof -
  have i: "w_out w @ w_buf w = s" "w_ctx w = SHA1_Update SHA1_Init (w_out w)" using assms(1) by (auto simp: w_inv_def)
  have ctx: "(if w_buf w \<noteq> [] then SHA1_Update (w_ctx w) (w_buf w) else w_ctx w) = SHA1_Update SHA1_Init s"
    using i by (auto simp: SHA1_Update_append)
  have l20: "length (sha1_bytes s) = 20"
    by (simp add: sha1_bytes_def SHA1_fips length_sha1_fips)
  have ls: "length s = length (w_out w) + length (w_buf w)" using i(1) by auto
  show ?thesis
    unfolding ce_flush_def ctx Let_def sha1_bytes_def [symmetric] w_inv_mod [OF assms(1), symmetric]
    using assms(2) l20 ls i(1) by (auto simp: WRITE_BUFFER_SIZE_def w_write_def Let_def)
qed

lemma g_write_cache_ok:
  assumes "length (g_index_bytes (kept ces)) + 20 \<le> disk"
  shows "if 8172 < length (g_index_bytes (kept ces)) mod 8192 then g_write_cache disk ces = Oob
    else \<exists>w. g_write_cache disk ces = Val (True, w) \<and> w_out w = g_index_bytes (kept ces) @ sha1_bytes (g_index_bytes (kept ces))"
proof -
  let ?hdr = "be32 CACHE_SIGNATURE @ be32 2 @ be32 (of_nat (length (kept ces)))"
  let ?w = "\<lparr>w_ctx = SHA1_Init, w_buf = [], w_out = [], w_room = disk\<rparr>"
  have ib: "g_index_bytes (kept ces) = ?hdr @ concat (map g_put_ce (kept ces))" by (simp add: g_index_bytes_def)
  have "w_inv ?w []" by (simp add: w_inv_def SHA1_Update_def)
  moreover have "length [] + length ?hdr \<le> w_room ?w" using assms unfolding ib by simp
  ultimately obtain w1 where w1: "ce_write ?hdr ?w = (True, w1)" "w_inv w1 ([] @ ?hdr)" "w_room w1 = disk"
    using ce_write_ok by fastforce
  have "length ([] @ ?hdr) + length (concat (map g_put_ce (kept ces))) \<le> w_room w1" using assms w1(3) unfolding ib by simp
  from write_ces_ok [OF w1(2) this]
  obtain w2 where w2: "write_ces ces w1 = (True, w2)" "w_inv w2 (g_index_bytes (kept ces))" "w_room w2 = disk"
    using w1(3) unfolding ib by auto
  have "g_write_cache disk ces = ce_flush w2"
    unfolding g_write_cache_def Let_def w1(1) using w2(1) by simp
  then show ?thesis using ce_flush_ok [OF w2(2)] assms w2(3) by simp
qed

lemma g_verify_written: "g_verify_hdr (g_index_bytes ces @ sha1_bytes (g_index_bytes ces))"
proof -
  have l20: "length (sha1_bytes (g_index_bytes ces)) = 20" by (simp add: sha1_bytes_def SHA1_fips length_sha1_fips)
  show ?thesis unfolding g_verify_hdr_def using l20 by (simp add: g_index_bytes_def get_be32_def be_word_be32)
qed

lemma g_read_written:
  assumes "\<forall>ce\<in>set ces. g_wf ce" "length ces < 2 ^ 32"
  shows "g_read_cache False (Contents (g_index_bytes ces @ sha1_bytes (g_index_bytes ces))) ix =
    Val (int (length ces), ix\<lparr>g_cache := ces, g_alloc := g_alloc_nr (length ces)\<rparr>)"
proof -
  let ?m = "g_index_bytes ces @ sha1_bytes (g_index_bytes ces)"
  let ?hdr = "be32 CACHE_SIGNATURE @ be32 2 @ be32 (of_nat (length ces))"
  have l20: "length (sha1_bytes (g_index_bytes ces)) = 20" by (simp add: sha1_bytes_def SHA1_fips length_sha1_fips)
  have m: "?m = ?hdr @ concat (map g_put_ce ces) @ sha1_bytes (g_index_bytes ces)" by (simp add: g_index_bytes_def)
  have "unat (get_be32 ?m 8) = length ces"
    using assms(2) unfolding m by (simp add: get_be32_def be_word_be32 unat_of_nat)
  moreover have "g_read_entries ?m 12 (length ces) = Val ces"
    using g_read_entries_concat [OF assms(1), of ?hdr "sha1_bytes (g_index_bytes ces)"] unfolding m by simp
  moreover have "\<not> length ?m < 12 + 20" using l20 unfolding m by simp
  ultimately show ?thesis using g_verify_written [of ces] by (simp add: g_read_cache_def Let_def)
qed


text \<open>When fewer than 20 bytes of the last buffer are left, \<^verbatim>\<open>ce_flush\<close> puts the hash behind the end of it.\<close>

theorem ce_flush_overflow:
  "length (g_index_bytes (kept ces)) + 20 \<le> disk \<Longrightarrow> 8172 < length (g_index_bytes (kept ces)) mod 8192 \<Longrightarrow> g_write_cache disk ces = Oob"
  using g_write_cache_ok [of ces disk] by simp

definition toy_entries :: "gce list" where
  "toy_entries = [toy_gce [97], (toy_gce [98])\<lparr>g_mode := 0\<rparr>, toy_gce [99, 47, 100]]"

lemma toy_gce_mode: "g_mode (toy_gce nm) \<noteq> 0"
  by (simp add: toy_gce_def)

lemma kept_toy: "kept toy_entries = [toy_gce [97], toy_gce [99, 47, 100]]"
  by (simp add: toy_entries_def toy_gce_def)

lemma length_put_toy: "no_nul nm \<Longrightarrow> length nm < 4096 \<Longrightarrow> length (g_put_ce (toy_gce nm)) = cache_entry_size (length nm)"
  using length_g_put_ce [OF toy_wf, of nm] by (simp add: g_ce_size_def)

lemma toy_entries_bytes: "length (g_index_bytes (kept toy_entries)) = 148"
  by (simp add: kept_toy g_index_bytes_def length_put_toy cache_entry_size_def)


text \<open>Two entries, of the longest name the flags can count and of one of 3938 bytes, are enough.\<close>

lemma ce_flush_overflow_example:
  "g_write_cache 100000 [toy_gce (replicate 4095 97), toy_gce (replicate 3938 98)] = Oob"
proof (rule ce_flush_overflow)
  have l: "length (g_index_bytes (kept [toy_gce (replicate 4095 97), toy_gce (replicate 3938 98)])) = 8180"
    by (simp add: toy_gce_mode g_index_bytes_def length_put_toy cache_entry_size_def)
  then show "length (g_index_bytes (kept [toy_gce (replicate 4095 97), toy_gce (replicate 3938 98)])) + 20 \<le> 100000" by simp
  show "8172 < length (g_index_bytes (kept [toy_gce (replicate 4095 97), toy_gce (replicate 3938 98)])) mod 8192" unfolding l by simp
qed

end
