(* ===== verification/Git_Merge.thy ===== *)
theory Git_Merge
  imports Git_Index_File
begin

text \<open>
  \<^verbatim>\<open>src/git-0.99.1/read-tree.c\<close>: merging one, two or three trees with the index.  The entries of the trees stand in the
  array of the cache at stages 1 to 3 beside those of the index at stage 0; \<^verbatim>\<open>merge_cache\<close> takes the entries of one
  name at a time and writes the result over the part of the array it has read.  The working tree is an arbitrary type,
  with what the code calls on it as operations.
\<close>

section \<open>Outcomes\<close>

text \<open>The calls of \<^verbatim>\<open>die\<close> and \<^verbatim>\<open>usage\<close>.\<close>

datatype die = Not_Uptodate bytes | Would_Be_Overwritten bytes | Bad_Mode bytes | Cannot_Merge_Index
  | Not_Resolved | Usage | Unpack_Failed bytes | Bad_Trees | Emu23_Trees | Write_Failed | No_Lock | Checkout_Died bytes

text \<open>The process ends, does something undefined, or a value; with the working tree at that moment.\<close>

datatype ('a, 'w) run = Ended die 'w | Broken | Gives 'a 'w

fun bindM :: "('a, 'w) run \<Rightarrow> ('a \<Rightarrow> 'w \<Rightarrow> ('b, 'w) run) \<Rightarrow> ('b, 'w) run" where
  "bindM (Ended d w) f = Ended d w"
| "bindM Broken f = Broken"
| "bindM (Gives a w) f = f a w"

lemma bindM_Done_iff: "bindM m f = Gives b w' \<longleftrightarrow> (\<exists>a w. m = Gives a w \<and> f a w = Gives b w')"
  by (cases m) auto

datatype lstat_result = Stat_Ok stat | Stat_Enoent | Stat_Failed

text \<open>The working tree: \<^verbatim>\<open>lstat\<close>, \<^verbatim>\<open>unlink\<close> and \<^verbatim>\<open>checkout_entry\<close>, which may renew the stat fields of its entry.\<close>

record 'w tree_ops =
  lstat_path :: "'w \<Rightarrow> bytes \<Rightarrow> lstat_result"
  unlink_path :: "bytes \<Rightarrow> 'w \<Rightarrow> 'w"
  checkout_path :: "gce \<Rightarrow> 'w \<Rightarrow> (gce, 'w) run"

section \<open>Single entries (read-tree.c)\<close>

definition path_matches :: "gce \<Rightarrow> gce \<Rightarrow> bool" where
  "path_matches a b \<longleftrightarrow> ce_namelen b = ce_namelen a \<and> memcmp (ce_namelen a) (g_name a) (g_name b) = 0"

definition same :: "gce \<Rightarrow> gce \<Rightarrow> bool" where
  "same a b \<longleftrightarrow> g_mode a = g_mode b \<and> memcmp 20 (g_sha1 a) (g_sha1 b) = 0"

text \<open>\<^verbatim>\<open>a && b && same(a, b)\<close>.\<close>

definition same_opt :: "gce option \<Rightarrow> gce option \<Rightarrow> bool" where
  "same_opt a b = (case (a, b) of (Some x, Some y) \<Rightarrow> same x y | _ \<Rightarrow> False)"

definition merge_entries :: "gce option \<Rightarrow> gce option \<Rightarrow> gce option \<Rightarrow> gce option" where
  "merge_entries a b c =
     (if a \<noteq> None \<and> b \<noteq> None \<and> c \<noteq> None then
        (if same_opt b c then c else if same_opt a b then c else if same_opt a c then b else None)
      else None)"

definition verify_uptodate :: "'w tree_ops \<Rightarrow> gce \<Rightarrow> 'w \<Rightarrow> (unit, 'w) run" where
  "verify_uptodate T ce w =
     (case lstat_path T w (g_name ce) of
        Stat_Ok st \<Rightarrow>
          (case ce_match_stat ce st of None \<Rightarrow> Ended (Bad_Mode (g_name ce)) w
           | Some changed \<Rightarrow> if changed = 0 then Gives () w else Ended (Not_Uptodate (g_name ce)) w)
      | Stat_Enoent \<Rightarrow> Gives () w
      | Stat_Failed \<Rightarrow> Ended (Not_Uptodate (g_name ce)) w)"

text \<open>\<^verbatim>\<open>*merge = *old\<close> copies the fields; the names are equal bytes behind the structure.\<close>

definition copy_ce :: "gce \<Rightarrow> gce \<Rightarrow> gce" where
  "copy_ce merge old = old\<lparr>g_name := g_name merge\<rparr>"

definition clear_stage :: "gce \<Rightarrow> gce" where
  "clear_stage ce = ce\<lparr>g_flags := g_flags ce AND NOT CE_STAGEMASK\<rparr>"

text \<open>The entries a merge function stores at \<^verbatim>\<open>dst\<close>; their number is what it returns, and \<open>None\<close> is -1.\<close>

definition merged_entry_internal :: "'w tree_ops \<Rightarrow> gce \<Rightarrow> gce option \<Rightarrow> bool \<Rightarrow> 'w \<Rightarrow> (gce list option, 'w) run" where
  "merged_entry_internal T merge old allow_dirty w =
     (let merge = merge\<lparr>g_flags := g_flags merge OR CE_UPDATE\<rparr> in
      case old of None \<Rightarrow> Gives (Some [clear_stage merge]) w
      | Some old \<Rightarrow>
        if same old merge then Gives (Some [clear_stage (copy_ce merge old)]) w
        else if \<not> allow_dirty then bindM (verify_uptodate T old w) (\<lambda>_. Gives (Some [clear_stage merge]))
        else Gives (Some [clear_stage merge]) w)"

definition merged_entry_allow_dirty :: "'w tree_ops \<Rightarrow> gce \<Rightarrow> gce option \<Rightarrow> 'w \<Rightarrow> (gce list option, 'w) run" where
  "merged_entry_allow_dirty T merge old = merged_entry_internal T merge old True"

definition merged_entry :: "'w tree_ops \<Rightarrow> gce \<Rightarrow> gce option \<Rightarrow> 'w \<Rightarrow> (gce list option, 'w) run" where
  "merged_entry T merge old = merged_entry_internal T merge old False"

text \<open>\<open>if (old) verify_uptodate(old)\<close>\<close>

definition verify_old :: "'w tree_ops \<Rightarrow> gce option \<Rightarrow> 'w \<Rightarrow> (unit, 'w) run" where
  "verify_old T old w = (case old of None \<Rightarrow> Gives () w | Some old \<Rightarrow> verify_uptodate T old w)"

text \<open>\<^verbatim>\<open>deleted_entry\<close>, which stores through its first argument.\<close>

definition deleted_entry :: "'w tree_ops \<Rightarrow> gce option \<Rightarrow> gce option \<Rightarrow> 'w \<Rightarrow> (gce list option, 'w) run" where
  "deleted_entry T ce old w =
     bindM (verify_old T old w) (\<lambda>_ w. case ce of None \<Rightarrow> Broken | Some ce \<Rightarrow> Gives (Some [ce\<lparr>g_mode := 0\<rparr>]) w)"

section \<open>The merge functions (read-tree.c)\<close>

text \<open>The array during the merge: resolved entries before \<open>dst\<close>, entries to come from \<open>next\<close> to \<open>tail\<close>.\<close>

definition df_clash :: "gce \<Rightarrow> nat \<Rightarrow> gce \<Rightarrow> bool" where
  "df_clash ce stage e \<longleftrightarrow>
     (let namelen = ce_namelen ce; entlen = ce_namelen e in
      ce_stage e = stage \<and> namelen \<noteq> entlen \<and>
      (if namelen < entlen
       then memcmp namelen (g_name ce) (g_name e) = 0 \<and> name_at (g_name e) namelen = 47
       else memcmp entlen (g_name e) (g_name ce) = 0 \<and> name_at (g_name ce) entlen = 47))"

record merge_pos =
  m_arr :: "gce list"
  m_dst :: nat
  m_next :: nat
  m_tail :: nat

definition causes_df_conflict :: "gce \<Rightarrow> nat \<Rightarrow> merge_pos \<Rightarrow> bool" where
  "causes_df_conflict ce stage p =
     list_ex (\<lambda>i. \<not> (m_dst p \<le> i \<and> i < m_next p) \<and> df_clash ce stage (m_arr p ! i)) [0..<m_tail p]"

definition opt_list :: "gce option \<Rightarrow> gce list" where
  "opt_list x = (case x of None \<Rightarrow> [] | Some ce \<Rightarrow> [ce])"

definition threeway_merge :: "'w tree_ops \<Rightarrow> gce option list \<Rightarrow> merge_pos \<Rightarrow> 'w \<Rightarrow> (gce list option, 'w) run" where
  "threeway_merge T stages p w =
     (let old = stages ! 0; a = stages ! 1; b = stages ! 2; c = stages ! 3 in
      if a = None \<and> same_opt b c then
        (if old \<noteq> None \<and> \<not> same_opt b old then Gives None w else merged_entry_allow_dirty T (the b) old w)
      else if a = None \<and> b = None \<and> c \<noteq> None \<and> \<not> causes_df_conflict (the c) 2 p \<and> (old = None \<or> same_opt c old) then
        merged_entry_allow_dirty T (the c) old w
      else if a = None \<and> b \<noteq> None \<and> c = None \<and> \<not> causes_df_conflict (the b) 3 p \<and> (old = None \<or> same_opt b old) then
        merged_entry_allow_dirty T (the b) old w
      else if a \<noteq> None \<and> b \<noteq> None \<and> c \<noteq> None \<and> same_opt a b \<and> \<not> same_opt a c \<and> same_opt old c then
        merged_entry_allow_dirty T (the c) old w
      else if old \<noteq> None \<and> \<not> same_opt old b then Gives None w
      else (case merge_entries a b c of Some merge \<Rightarrow> merged_entry T merge old w
        | None \<Rightarrow> bindM (verify_old T old w) (\<lambda>_. Gives (Some (opt_list a @ opt_list b @ opt_list c)))))"

definition twoway_merge :: "'w tree_ops \<Rightarrow> gce option list \<Rightarrow> merge_pos \<Rightarrow> 'w \<Rightarrow> (gce list option, 'w) run" where
  "twoway_merge T src p w =
     (let current = src ! 0; oldtree = src ! 1; newtree = src ! 2 in
      if src ! 3 \<noteq> None then Gives None w
      else (case current of
        Some cur \<Rightarrow>
          if (oldtree = None \<and> newtree = None) \<or> (oldtree = None \<and> same_opt current newtree) \<or>
             (oldtree \<noteq> None \<and> newtree \<noteq> None \<and> same_opt oldtree newtree) \<or>
             (oldtree \<noteq> None \<and> newtree \<noteq> None \<and> \<not> same_opt oldtree newtree \<and> same_opt current newtree)
          then Gives (Some [cur]) w
          else if oldtree \<noteq> None \<and> newtree = None \<and> same_opt current oldtree then deleted_entry T oldtree current w
          else if oldtree \<noteq> None \<and> newtree \<noteq> None \<and> same_opt current oldtree \<and> \<not> same_opt current newtree
          then merged_entry T (the newtree) current w
          else Gives None w
      | None \<Rightarrow>
          (case newtree of Some new \<Rightarrow> merged_entry T new current w | None \<Rightarrow> deleted_entry T oldtree current w)))"

definition oneway_merge :: "'w tree_ops \<Rightarrow> gce option list \<Rightarrow> merge_pos \<Rightarrow> 'w \<Rightarrow> (gce list option, 'w) run" where
  "oneway_merge T src p w =
     (if src ! 2 \<noteq> None \<or> src ! 3 \<noteq> None then Gives None w
      else (case src ! 1 of None \<Rightarrow> Gives (Some []) w
        | Some a \<Rightarrow> if same_opt (src ! 0) (Some a) then Gives (Some (opt_list (src ! 0))) w else merged_entry T a None w))"

section \<open>The loop over the array (read-tree.c)\<close>

text \<open>
  The inner loop: from \<open>src\<close>, which holds an entry \<open>ce\<close> of the name, to the first entry of another name or the end.
  \<^verbatim>\<open>*++src\<close> reads the slot after the last entry too, which must lie in the allocated array.
\<close>

fun gather :: "gce list \<Rightarrow> nat \<Rightarrow> gce \<Rightarrow> nat \<Rightarrow> nat \<Rightarrow> gce option list \<Rightarrow> (gce option list \<times> nat) res" where
  "gather arr alloc nm_ce src 0 stages = Val (stages, src)"
| "gather arr alloc nm_ce src (Suc nr) stages =
     (let stages = stages[ce_stage (arr ! src) := Some (arr ! src)]; src = src + 1 in
      if alloc \<le> src then Oob
      else if nr = 0 then Val (stages, src)
      else if \<not> path_matches (arr ! src) nm_ce then Val (stages, src)
      else gather arr alloc nm_ce src nr stages)"

lemma gather_progress: "gather arr alloc nm_ce src nr stages = Val (stages', src') \<Longrightarrow> src' \<le> src + nr \<and> (0 < nr \<longrightarrow> src < src')"
  by (induction arr alloc nm_ce src nr stages rule: gather.induct) (fastforce simp: Let_def split: if_splits)+

text \<open>Stores at \<^verbatim>\<open>dst\<close>.\<close>

definition store_entries :: "gce list \<Rightarrow> nat \<Rightarrow> gce list \<Rightarrow> gce list" where
  "store_entries arr dst outs = take dst arr @ outs @ drop (dst + length outs) arr"

type_synonym 'w merge_fn = "gce option list \<Rightarrow> merge_pos \<Rightarrow> 'w \<Rightarrow> (gce list option, 'w) run"

text \<open>The outer loop; the array and the number of entries that are left in it.\<close>

function merge_loop :: "'w merge_fn \<Rightarrow> nat \<Rightarrow> nat \<Rightarrow> gce list \<Rightarrow> nat \<Rightarrow> nat \<Rightarrow> 'w \<Rightarrow> (gce list \<times> nat, 'w) run" where
  "merge_loop fn alloc tail arr dst src w =
     (if tail \<le> src then Gives (arr, dst) w
      else (case gather arr alloc (arr ! src) src (tail - src) (replicate 4 None) of
          Val (stages, src') \<Rightarrow>
            (case fn stages \<lparr>m_arr = arr, m_dst = dst, m_next = src', m_tail = tail\<rparr> w of
               Gives (Some outs) w' \<Rightarrow> merge_loop fn alloc tail (store_entries arr dst outs) (dst + length outs) src' w'
             | Gives None w' \<Rightarrow> Ended (Would_Be_Overwritten (g_name (arr ! src))) w'
             | Ended d w' \<Rightarrow> Ended d w'
             | Broken \<Rightarrow> Broken)
        | _ \<Rightarrow> Broken))"
  by pat_completeness auto
termination
  by (relation "measure (\<lambda>(fn, alloc, tail, arr, dst, src, w). tail - src)") (auto dest!: gather_progress)

declare merge_loop.simps [simp del]

text \<open>The body of the loop of \<^verbatim>\<open>check_updates\<close>, and the loop.\<close>

definition check_update :: "'w tree_ops \<Rightarrow> bool \<Rightarrow> gce \<Rightarrow> 'w \<Rightarrow> (gce, 'w) run" where
  "check_update T update ce w =
     (if g_mode ce = 0 then Gives ce (if update then unlink_path T (g_name ce) w else w)
      else if g_flags ce AND CE_UPDATE \<noteq> 0 then
        (let ce = ce\<lparr>g_flags := g_flags ce AND NOT CE_UPDATE\<rparr> in if update then checkout_path T ce w else Gives ce w)
      else Gives ce w)"

fun check_updates :: "'w tree_ops \<Rightarrow> bool \<Rightarrow> gce list \<Rightarrow> 'w \<Rightarrow> (gce list, 'w) run" where
  "check_updates T update [] w = Gives [] w"
| "check_updates T update (ce # ces) w =
     bindM (check_update T update ce w) (\<lambda>ce w. bindM (check_updates T update ces w) (\<lambda>r. Gives (ce # r)))"

definition merge_cache :: "'w tree_ops \<Rightarrow> bool \<Rightarrow> 'w merge_fn \<Rightarrow> gindex \<Rightarrow> 'w \<Rightarrow> (gindex, 'w) run" where
  "merge_cache T update fn ix w =
     bindM (merge_loop fn (g_alloc ix) (length (g_cache ix)) (g_cache ix) 0 0 w) (\<lambda>(arr, nr) w.
       bindM (check_updates T update (take nr arr) w) (\<lambda>ces. Gives (ix\<lparr>g_cache := ces\<rparr>)))"

section \<open>Flags and names\<close>

text \<open>An entry whose flags hold the length of the name and the stage only.\<close>

definition plain :: "gce \<Rightarrow> bool" where
  "plain ce \<longleftrightarrow> g_wf ce \<and> unat (g_flags ce) < 0x4000"

lemma memcmp_eq_0: "n \<le> length a \<Longrightarrow> n \<le> length b \<Longrightarrow> memcmp n a b = 0 \<longleftrightarrow> take n a = take n b"
  by (auto simp: memcmp_compare3 compare3_def)

lemma stagemask: "CE_STAGEMASK = push_bit 12 (mask 2)"
  by (simp add: CE_STAGEMASK_def mask_eq_exp_minus_1 push_bit_eq_mult)

lemma flags_stage: "ce_stage ce = unat (g_flags ce) div 4096 mod 4"
proof -
  have "drop_bit 12 (CE_STAGEMASK AND g_flags ce) = take_bit 2 (drop_bit 12 (g_flags ce))"
    unfolding stagemask by (rule bit_word_eqI) (auto simp: bit_simps)
  then have "ce_stage ce = take_bit 2 (drop_bit 12 (unat (g_flags ce)))"
    by (simp only: ce_stage_def unsigned_take_bit_eq) (simp only: unat_drop_bit_eq)
  then show ?thesis by (simp add: take_bit_eq_mod drop_bit_eq_div)
qed

lemma ce_stage_less: "ce_stage ce < 4"
  by (simp add: flags_stage)

lemma plain_flags:
  assumes "plain ce"
  shows "unat (g_flags ce) = length (g_name ce) + 4096 * ce_stage ce"
proof -
  have "unat (g_flags ce) div 4096 < 4" using assms by (simp add: plain_def less_mult_imp_div_less)
  then have "unat (g_flags ce) div 4096 = ce_stage ce" by (simp add: flags_stage)
  moreover have "unat (g_flags ce) mod 4096 = length (g_name ce)" using assms by (simp add: plain_def g_wf_def flags_namelen)
  ultimately show ?thesis using div_mult_mod_eq [of "unat (g_flags ce)" 4096] by linarith
qed

lemma path_matches_eq: "g_wf a \<Longrightarrow> g_wf b \<Longrightarrow> path_matches a b \<longleftrightarrow> g_name a = g_name b"
  by (auto simp: path_matches_def g_wf_def memcmp_eq_0)

lemma same_eq: "g_wf a \<Longrightarrow> g_wf b \<Longrightarrow> same a b \<longleftrightarrow> g_mode a = g_mode b \<and> g_sha1 a = g_sha1 b"
  by (auto simp: same_def g_wf_def memcmp_eq_0)

text \<open>Clearing the stage, and setting and clearing the update bit.\<close>

definition drop_update :: "gce \<Rightarrow> gce" where
  "drop_update ce = ce\<lparr>g_flags := g_flags ce AND NOT CE_UPDATE\<rparr>"

lemma clear_stage_0: "ce_stage ce = 0 \<Longrightarrow> clear_stage ce = ce"
proof -
  assume "ce_stage ce = 0"
  then have z: "drop_bit 12 (CE_STAGEMASK AND g_flags ce) = 0" by (simp add: ce_stage_def unsigned_eq_0_iff)
  have "\<not> bit (g_flags ce) (12 + i)" if "i < 2" for i
    using arg_cong [OF z, of "\<lambda>x. bit x i"] that by (simp add: stagemask bit_simps)
  from this [of "n - 12" for n]
  have "g_flags ce AND NOT CE_STAGEMASK = g_flags ce"
    unfolding stagemask by (intro bit_word_eqI) (fastforce simp: bit_simps)
  then show ?thesis by (simp add: clear_stage_def)
qed

lemma plain_no_update:
  assumes "plain ce"
  shows "\<not> bit (g_flags ce) 14"
proof -
  have "\<not> bit (unat (g_flags ce)) 14" using assms by (simp add: plain_def bit_iff_odd)
  then show ?thesis by (simp add: bit_unsigned_iff)
qed

section \<open>The entries of one name\<close>

definition put_stage :: "gce \<Rightarrow> gce option list \<Rightarrow> gce option list" where
  "put_stage e ss = ss[ce_stage e := Some e]"

definition stages_of :: "gce list \<Rightarrow> gce option list" where
  "stages_of es = fold put_stage es (replicate 4 None)"

definition first_group :: "gce list \<Rightarrow> gce list" where
  "first_group es = takeWhile (\<lambda>e. g_name e = g_name (hd es)) es"

lemma gather_group:
  "0 < nr \<Longrightarrow> src + nr = length arr \<Longrightarrow> length arr \<le> alloc \<Longrightarrow> \<forall>e\<in>set (drop src arr). g_wf e \<Longrightarrow> g_wf nm_ce \<Longrightarrow>
   g_name (arr ! src) = g_name nm_ce \<Longrightarrow> grp = takeWhile (\<lambda>e. g_name e = g_name nm_ce) (drop src arr) \<Longrightarrow>
   gather arr alloc nm_ce src nr ss =
     (if alloc \<le> src + length grp then Oob else Val (fold put_stage grp ss, src + length grp))"
proof (induction arr alloc nm_ce src nr ss arbitrary: grp rule: gather.induct)
  case (2 arr alloc nm_ce src nr ss)
  note prems = "2.prems"
  have d: "drop src arr = arr ! src # drop (src + 1) arr" using prems(2) by (simp add: Cons_nth_drop_Suc)
  then have grp: "grp = arr ! src # takeWhile (\<lambda>e. g_name e = g_name nm_ce) (drop (src + 1) arr)" using prems(6,7) by simp
  let ?ss = "ss[ce_stage (arr ! src) := Some (arr ! src)]"
  have ss: "put_stage (arr ! src) ss = ?ss" by (simp add: put_stage_def)
  show ?case
  proof (cases "nr = 0")
    case True
    then show ?thesis using prems(2,3) grp by (simp add: Let_def put_stage_def)
  next
    case False
    then have d1: "drop (src + 1) arr = arr ! (src + 1) # drop (src + 2) arr" using prems(2) by (simp add: Cons_nth_drop_Suc)
    have w1: "g_wf (arr ! (src + 1))" using prems(4) unfolding d d1 by simp
    show ?thesis
    proof (cases "g_name (arr ! (src + 1)) = g_name nm_ce")
      case False
      then show ?thesis using prems(2,3) \<open>nr \<noteq> 0\<close> grp w1 prems(5) d1 by (simp add: Let_def put_stage_def path_matches_eq)
    next
      case True
      have "gather arr alloc nm_ce (src + 1) nr ?ss =
          (if alloc \<le> src + 1 + length (tl grp) then Oob else Val (fold put_stage (tl grp) ?ss, src + 1 + length (tl grp)))"
        using prems \<open>nr \<noteq> 0\<close> True w1 grp d
        by (intro 2(1)) (auto simp: path_matches_eq)
      then show ?thesis using prems(2,3) \<open>nr \<noteq> 0\<close> grp w1 prems(5) True by (simp add: Let_def ss path_matches_eq)
    qed
  qed
qed simp

lemma stages_of_snoc: "stages_of (es @ [e]) = (stages_of es)[ce_stage e := Some e]"
  by (simp add: stages_of_def put_stage_def)

lemma length_stages_of [simp]: "length (stages_of es) = 4"
proof (induction es rule: rev_induct)
  case Nil
  then show ?case by (simp add: stages_of_def)
qed (simp add: stages_of_snoc)

lemma stages_of_iff:
  "distinct (map ce_stage es) \<Longrightarrow> k < 4 \<Longrightarrow> stages_of es ! k = Some e \<longleftrightarrow> e \<in> set es \<and> ce_stage e = k"
proof (induction es rule: rev_induct)
  case Nil
  then show ?case by (simp add: stages_of_def)
next
  case (snoc x es)
  show ?case
  proof (cases "ce_stage x = k")
    case True
    then have "k \<notin> ce_stage ` set es" using snoc.prems(1) by simp
    then have "e \<in> set es \<Longrightarrow> ce_stage e \<noteq> k" by blast
    then show ?thesis using True snoc.prems(2) by (auto simp: stages_of_snoc)
  next
    case False
    then show ?thesis using snoc by (auto simp: stages_of_snoc)
  qed
qed

definition present :: "gce option list \<Rightarrow> nat" where
  "present ss = length (filter (\<lambda>x. x \<noteq> None) ss)"

lemma present_update: "i < length ss \<Longrightarrow> ss ! i = None \<Longrightarrow> present (ss[i := Some e]) = Suc (present ss)"
  by (induction ss arbitrary: i) (auto simp: present_def nth_Cons split: nat.splits)

lemma present_stages_of: "distinct (map ce_stage es) \<Longrightarrow> present (stages_of es) = length es"
proof (induction es rule: rev_induct)
  case Nil
  then show ?case by (simp add: stages_of_def present_def)
next
  case (snoc x es)
  have "stages_of es ! ce_stage x = None"
  proof (rule ccontr)
    assume "stages_of es ! ce_stage x \<noteq> None"
    then obtain e where "stages_of es ! ce_stage x = Some e" by blast
    then have "e \<in> set es" "ce_stage e = ce_stage x" using snoc.prems stages_of_iff [of es "ce_stage x" e] by (simp_all add: ce_stage_less)
    then show False using snoc.prems imageI [of e "set es" ce_stage] by simp
  qed
  then show ?case using snoc by (simp add: stages_of_snoc present_update ce_stage_less)
qed

text \<open>The stages a merge function gets, and what it may return for the name.\<close>

definition good_stages :: "bytes \<Rightarrow> gce option list \<Rightarrow> bool" where
  "good_stages nm ss \<longleftrightarrow> length ss = 4 \<and> (\<exists>k<4. ss ! k \<noteq> None) \<and>
     (\<forall>k<4. \<forall>e. ss ! k = Some e \<longrightarrow> plain e \<and> g_mode e \<noteq> 0 \<and> g_name e = nm \<and> ce_stage e = k)"

definition stage_key :: "gce \<Rightarrow> bytes \<times> nat" where
  "stage_key ce = (g_name ce, ce_stage ce)"

definition outs_ok :: "bytes \<Rightarrow> gce list \<Rightarrow> bool" where
  "outs_ok nm outs \<longleftrightarrow> key_sorted stage_key outs \<and>
     (\<forall>e\<in>set outs. g_name e = nm \<and> g_wf e \<and> plain (drop_update e) \<and> (g_mode e = 0 \<longrightarrow> plain e))"

text \<open>A list of entries as it stands before a merge.\<close>

definition mergeable :: "gce list \<Rightarrow> bool" where
  "mergeable es \<longleftrightarrow> key_sorted gkey es \<and> (\<forall>e\<in>set es. plain e \<and> g_mode e \<noteq> 0)"

lemma plain_key_less: "plain a \<Longrightarrow> plain b \<Longrightarrow> gkey a < gkey b \<longleftrightarrow> stage_key a < stage_key b"
  by (auto simp: gkey_def stage_key_def plain_flags)

lemma mergeable_stage_sorted: "mergeable es \<Longrightarrow> key_sorted stage_key es"
  by (induction es) (auto simp: mergeable_def key_sorted_Cons plain_key_less)

lemma first_group_append: "first_group es @ drop (length (first_group es)) es = es"
  by (simp add: first_group_def dropWhile_eq_drop [symmetric])

lemma mergeable_rest: "mergeable es \<Longrightarrow> mergeable (drop n es)"
  using set_drop_subset [of n es] key_sorted_append [of gkey "take n es" "drop n es"] by (auto simp: mergeable_def)

lemma group_stages:
  assumes "mergeable es" "es \<noteq> []"
  shows "good_stages (g_name (hd es)) (stages_of (first_group es))"
    and "present (stages_of (first_group es)) = length (first_group es)"
    and "\<And>e. e \<in> set (first_group es) \<Longrightarrow> stages_of (first_group es) ! ce_stage e = Some e"
    and "\<And>k e. k < 4 \<Longrightarrow> stages_of (first_group es) ! k = Some e \<Longrightarrow> e \<in> set es \<and> ce_stage e = k \<and> g_name e = g_name (hd es)"
proof -
  have nm: "g_name e = g_name (hd es)" "e \<in> set es" if "e \<in> set (first_group es)" for e
    using that by (auto simp: first_group_def dest: set_takeWhileD)
  have "key_sorted stage_key (first_group es @ drop (length (first_group es)) es)"
    unfolding first_group_append by (rule mergeable_stage_sorted [OF assms(1)])
  then have "key_sorted stage_key (first_group es)" by (simp add: key_sorted_append)
  then have "distinct (map stage_key (first_group es))" by (rule key_sorted_distinct)
  moreover have "map stage_key (first_group es) = map (\<lambda>k. (g_name (hd es), k)) (map ce_stage (first_group es))"
    using nm by (auto simp: stage_key_def)
  ultimately have d: "distinct (map ce_stage (first_group es))" by (auto simp: distinct_map inj_on_def)
  have hd: "hd es \<in> set (first_group es)" using assms(2) by (cases es) (auto simp: first_group_def)
  show "present (stages_of (first_group es)) = length (first_group es)" by (rule present_stages_of [OF d])
  show st: "stages_of (first_group es) ! ce_stage e = Some e" if "e \<in> set (first_group es)" for e
    using stages_of_iff [OF d ce_stage_less] that by blast
  show mem: "e \<in> set es \<and> ce_stage e = k \<and> g_name e = g_name (hd es)"
    if "k < 4" "stages_of (first_group es) ! k = Some e" for k e
    using stages_of_iff [OF d that(1)] that(2) nm [of e] by blast
  have "plain e \<and> g_mode e \<noteq> 0 \<and> g_name e = g_name (hd es) \<and> ce_stage e = k"
    if "k < 4" "stages_of (first_group es) ! k = Some e" for k e
    using mem [OF that] assms(1) by (simp add: mergeable_def)
  moreover have "\<exists>k<4. stages_of (first_group es) ! k \<noteq> None"
    using st [OF hd] ce_stage_less [of "hd es"] by (intro exI [of _ "ce_stage (hd es)"]) simp
  ultimately show "good_stages (g_name (hd es)) (stages_of (first_group es))" by (simp add: good_stages_def)
qed

section \<open>The merge as a relation\<close>

text \<open>The results for the names in their order, each from the entries of the name and the entries still to come.\<close>

inductive merged :: "'w merge_fn \<Rightarrow> 'w \<Rightarrow> gce list \<Rightarrow> gce list \<Rightarrow> bool" for fn w where
  merged_Nil: "merged fn w [] []"
| merged_Cons: "es \<noteq> [] \<Longrightarrow> fn (stages_of (first_group es)) p w = Gives (Some outs) w \<Longrightarrow>
    drop (m_next p) (m_arr p) = drop (length (first_group es)) es \<Longrightarrow> m_tail p = length (m_arr p) \<Longrightarrow> m_dst p \<le> m_next p \<Longrightarrow>
    merged fn w (drop (length (first_group es)) es) R \<Longrightarrow> merged fn w es (outs @ R)"

locale merge_function =
  fixes fn :: "'w merge_fn"
  assumes fn_Done: "fn ss p w = Gives r w' \<Longrightarrow> w' = w"
    and fn_Ended: "fn ss p w = Ended d w' \<Longrightarrow> w' = w"
    and fn_not_Broken: "good_stages nm ss \<Longrightarrow> fn ss p w \<noteq> Broken"
    and fn_present: "good_stages nm ss \<Longrightarrow> fn ss p w = Gives (Some outs) w' \<Longrightarrow> length outs \<le> present ss"
    and fn_outs: "good_stages nm ss \<Longrightarrow> fn ss p w = Gives (Some outs) w' \<Longrightarrow> outs_ok nm outs"
begin

lemma loop_step:
  assumes "mergeable (drop src arr)" "length arr = tail" "tail \<le> alloc" "src < tail" "es = drop src arr" "grp = first_group es"
  shows "merge_loop fn alloc tail arr dst src w =
    (if alloc \<le> src + length grp then Broken
     else case fn (stages_of grp) \<lparr>m_arr = arr, m_dst = dst, m_next = src + length grp, m_tail = tail\<rparr> w of
       Gives (Some outs) w' \<Rightarrow> merge_loop fn alloc tail (store_entries arr dst outs) (dst + length outs) (src + length grp) w'
     | Gives None w' \<Rightarrow> Ended (Would_Be_Overwritten (g_name (arr ! src))) w'
     | Ended d w' \<Rightarrow> Ended d w' | Broken \<Rightarrow> Broken)"
    and "es \<noteq> []" "mergeable es" "0 < length grp" "src + length grp \<le> tail"
proof -
  show ne: "es \<noteq> []" and mg: "mergeable es" using assms by auto
  have hd: "hd es = arr ! src" using assms(2,4,5) by (simp add: hd_drop_conv_nth)
  have wf: "\<forall>e\<in>set es. g_wf e" using mg by (simp add: mergeable_def plain_def)
  have lg: "src + length grp \<le> tail"
    using length_takeWhile_le [of "\<lambda>e. g_name e = g_name (hd es)" es] assms(2,4,5,6) by (simp add: first_group_def)
  then show "src + length grp \<le> tail" .
  have "g_wf (arr ! src)" unfolding hd [symmetric] using wf ne by simp
  then have "gather arr alloc (arr ! src) src (tail - src) (replicate 4 None) =
      (if alloc \<le> src + length grp then Oob else Val (stages_of grp, src + length grp))"
    unfolding stages_of_def using gather_group [of "tail - src" src arr alloc "arr ! src" grp] assms wf hd lg by (simp add: first_group_def)
  then show "merge_loop fn alloc tail arr dst src w =
    (if alloc \<le> src + length grp then Broken
     else case fn (stages_of grp) \<lparr>m_arr = arr, m_dst = dst, m_next = src + length grp, m_tail = tail\<rparr> w of
       Gives (Some outs) w' \<Rightarrow> merge_loop fn alloc tail (store_entries arr dst outs) (dst + length outs) (src + length grp) w'
     | Gives None w' \<Rightarrow> Ended (Would_Be_Overwritten (g_name (arr ! src))) w'
     | Ended d w' \<Rightarrow> Ended d w' | Broken \<Rightarrow> Broken)"
    using assms(4) by (simp add: merge_loop.simps [of fn alloc tail arr dst src])
  show "0 < length grp" using ne assms(6) by (auto simp: first_group_def neq_Nil_conv)
qed

lemma store_entries_parts:
  assumes "dst + length outs \<le> n" "n \<le> length arr"
  shows "drop n (store_entries arr dst outs) = drop n arr" "length (store_entries arr dst outs) = length arr"
    "take (dst + length outs) (store_entries arr dst outs) = take dst arr @ outs"
  using assms by (auto simp: store_entries_def)

lemma loop_refines:
  assumes "mergeable (drop src arr)" "length arr = tail" "tail < alloc" "dst \<le> src" "src \<le> tail"
  shows "case merge_loop fn alloc tail arr dst src w of
      Gives (arr', n) w' \<Rightarrow> w' = w \<and> n \<le> tail \<and> (\<exists>R. merged fn w (drop src arr) R \<and> take n arr' = take dst arr @ R)
    | Ended d w' \<Rightarrow> w' = w
    | Broken \<Rightarrow> False"
  using assms
proof (induction "tail - src" arbitrary: arr dst src rule: less_induct)
  case less
  note prems = less.prems
  show ?case
  proof (cases "src < tail")
    case False
    then show ?thesis using prems(2,4,5) by (simp add: merge_loop.simps [of fn] merged_Nil)
  next
    case True
    define es where "es = drop src arr"
    define grp where "grp = first_group es"
    let ?p = "\<lparr>m_arr = arr, m_dst = dst, m_next = src + length grp, m_tail = tail\<rparr>"
    note step0 = loop_step [OF prems(1,2) less_imp_le [OF prems(3)] True es_def grp_def]
    have "\<not> alloc \<le> src + length grp" using step0(5) prems(3) by linarith
    note step = step0(1) [unfolded if_not_P [OF this]] step0(2-)
    note gs = group_stages [OF step(3,2), folded grp_def]
    consider d w' where "fn (stages_of grp) ?p w = Ended d w'" "w' = w" | "fn (stages_of grp) ?p w = Gives None w"
      | outs where "fn (stages_of grp) ?p w = Gives (Some outs) w"
      using fn_Ended fn_Done fn_not_Broken [OF gs(1)] by (cases "fn (stages_of grp) ?p w") (metis not_Some_eq)+
    then show ?thesis
    proof cases
      case (3 outs)
      have "length outs \<le> length grp" using fn_present [OF gs(1) 3] gs(2) by simp
      then have bnd: "dst + length outs \<le> src + length grp" "src + length grp \<le> length arr" using step(5) prems(2,4) by auto
      note parts = store_entries_parts [OF bnd]
      have rest: "drop (src + length grp) arr = drop (length grp) es" by (simp add: es_def add.commute)
      have m: "tail - (src + length grp) < tail - src" using step(4) True by linarith
      have ih: "case merge_loop fn alloc tail (store_entries arr dst outs) (dst + length outs) (src + length grp) w of
          Gives (arr', n) w' \<Rightarrow> w' = w \<and> n \<le> tail \<and> (\<exists>R. merged fn w (drop (src + length grp) (store_entries arr dst outs)) R \<and>
            take n arr' = take (dst + length outs) (store_entries arr dst outs) @ R)
        | Ended d w' \<Rightarrow> w' = w | Broken \<Rightarrow> False"
        using bnd prems(2,3) parts rest mergeable_rest [OF step(3), of "length grp"] by (intro less.hyps [OF m]) auto
      have cons: "merged fn w es (outs @ R)" if "merged fn w (drop (length grp) es) R" for R
        using rest bnd(1) prems(2)
        by (intro merged_Cons [where p = ?p and es = es, folded grp_def, OF step(2) 3 _ _ _ that]) simp_all
      show ?thesis using ih unfolding step(1) 3 parts rest es_def [symmetric]
        by (auto split: run.splits intro: cons)
    qed (simp_all add: step(1))
  qed
qed

end

section \<open>The merge functions keep the contract\<close>

lemma unat_less_bits: "unat (x :: u16) < 2 ^ k \<longleftrightarrow> (\<forall>n\<ge>k. \<not> bit x n)"
proof
  assume "unat x < 2 ^ k"
  then have "\<not> bit (unat x) n" if "k \<le> n" for n
  proof -
    have "unat x < 2 ^ n" using \<open>unat x < 2 ^ k\<close> power_increasing [OF that, of "2 :: nat"] by linarith
    then show ?thesis by (simp add: bit_iff_odd)
  qed
  then show "\<forall>n\<ge>k. \<not> bit x n" by (simp add: bit_unsigned_iff)
next
  assume "\<forall>n\<ge>k. \<not> bit x n"
  then have "take_bit k x = x" by (intro bit_word_eqI) (metis bit_take_bit_iff not_le)
  then have "unat x = take_bit k (unat x)" by (metis unsigned_take_bit_eq)
  then show "unat x < 2 ^ k" by (metis take_bit_nat_less_exp)
qed

lemma plain_bits: "plain ce \<longleftrightarrow> g_wf ce \<and> (\<forall>n\<ge>14. \<not> bit (g_flags ce) n)"
  using unat_less_bits [of "g_flags ce" 14] by (simp add: plain_def)

lemma bit_masks: "bit CE_NAMEMASK n \<longleftrightarrow> n < 12" "bit CE_STAGEMASK n \<longleftrightarrow> n = 12 \<or> n = 13" "bit CE_UPDATE n \<longleftrightarrow> n = 14"
proof -
  have m: "CE_NAMEMASK = mask 12" by (simp add: CE_NAMEMASK_def mask_eq_exp_minus_1)
  show "bit CE_NAMEMASK n \<longleftrightarrow> n < 12" unfolding m by (auto simp: bit_simps)
  show "bit CE_STAGEMASK n \<longleftrightarrow> n = 12 \<or> n = 13" unfolding stagemask by (auto simp: bit_simps)
  have u: "CE_UPDATE = 2 ^ 14" by (simp add: CE_UPDATE_def)
  show "bit CE_UPDATE n \<longleftrightarrow> n = 14" unfolding u by (subst bit_exp_iff) auto
qed

lemma namelen_bits: "(\<And>n. n < 12 \<Longrightarrow> bit (g_flags a) n = bit (g_flags b) n) \<Longrightarrow> ce_namelen a = ce_namelen b"
proof -
  assume "\<And>n. n < 12 \<Longrightarrow> bit (g_flags a) n = bit (g_flags b) n"
  then have "CE_NAMEMASK AND g_flags a = CE_NAMEMASK AND g_flags b"
    by (intro bit_word_eqI) (auto simp: bit_simps bit_masks)
  then show ?thesis by (simp add: ce_namelen_def)
qed

lemma stage_bits: "(\<And>n. n = 12 \<or> n = 13 \<Longrightarrow> \<not> bit (g_flags a) n) \<Longrightarrow> ce_stage a = 0"
proof -
  assume a: "\<And>n. n = 12 \<or> n = 13 \<Longrightarrow> \<not> bit (g_flags a) n"
  have "CE_STAGEMASK AND g_flags a = 0"
    using a by (intro bit_word_eqI) (auto simp: bit_simps bit_masks)
  then show ?thesis by (simp add: ce_stage_def)
qed

lemma resolved_entry:
  fixes merge :: gce
  defines "e \<equiv> clear_stage (merge\<lparr>g_flags := g_flags merge OR CE_UPDATE\<rparr>)"
  assumes "plain merge"
  shows "g_name e = g_name merge" "g_mode e = g_mode merge" "g_sha1 e = g_sha1 merge" "ce_stage e = 0" "g_wf e" "plain (drop_update e)"
proof -
  show nm: "g_name e = g_name merge" "g_mode e = g_mode merge" "g_sha1 e = g_sha1 merge" by (simp_all add: e_def clear_stage_def)
  have "ce_namelen e = ce_namelen merge" "ce_namelen (drop_update e) = ce_namelen merge"
    by (rule namelen_bits, simp add: e_def clear_stage_def drop_update_def bit_masks bit_simps)+
  then show w: "g_wf e" and "plain (drop_update e)"
    using assms(2) nm unfolding plain_bits
    by (auto simp: g_wf_def drop_update_def e_def clear_stage_def bit_masks bit_simps)
  show "ce_stage e = 0"
    by (rule stage_bits) (auto simp: e_def clear_stage_def bit_masks bit_simps)
qed

definition uptodate :: "'w tree_ops \<Rightarrow> 'w \<Rightarrow> gce \<Rightarrow> bool" where
  "uptodate T w ce \<longleftrightarrow> lstat_path T w (g_name ce) = Stat_Enoent \<or>
     (\<exists>st. lstat_path T w (g_name ce) = Stat_Ok st \<and> ce_match_stat ce st = Some 0)"

lemma verify_uptodate_cases:
  "verify_uptodate T ce w = Gives () w \<and> uptodate T w ce \<or> (\<exists>d. verify_uptodate T ce w = Ended d w)"
  by (auto simp: verify_uptodate_def uptodate_def split: lstat_result.splits option.splits)

lemma outs_ok_one: "g_name e = nm \<Longrightarrow> g_wf e \<Longrightarrow> plain (drop_update e) \<Longrightarrow> g_mode e \<noteq> 0 \<or> plain e \<Longrightarrow> outs_ok nm [e]"
  by (auto simp: outs_ok_def key_sorted_def)

text \<open>No merge function changes the working tree.\<close>

definition still :: "'w \<Rightarrow> ('a, 'w) run \<Rightarrow> bool" where
  "still w r = (case r of Gives _ w' \<Rightarrow> w' = w | Ended _ w' \<Rightarrow> w' = w | Broken \<Rightarrow> True)"

lemma still_simps [simp]: "still w (Gives a w') \<longleftrightarrow> w' = w" "still w (Ended d w') \<longleftrightarrow> w' = w" "still w Broken"
  by (simp_all add: still_def)

lemma still_verify: "still w (verify_uptodate T ce w)" "still w (verify_old T old w)"
  by (simp_all add: verify_old_def verify_uptodate_def split: lstat_result.split option.split)

lemma still_bind: "still w m \<Longrightarrow> (\<And>a. still w (f a w)) \<Longrightarrow> still w (bindM m f)"
  by (cases m) auto

lemma still_merged: "still w (merged_entry_internal T merge old ad w)"
  unfolding merged_entry_internal_def Let_def
  by (auto simp: still_verify split: option.split intro!: still_bind)

lemma still_deleted: "still w (deleted_entry T ce old w)"
  unfolding deleted_entry_def by (auto simp: still_verify split: option.split intro!: still_bind)

lemma still_if: "still w x \<Longrightarrow> still w y \<Longrightarrow> still w (if c then x else y)"
  by simp

lemma still_opt: "still w x \<Longrightarrow> (\<And>a. still w (f a)) \<Longrightarrow> still w (case m of None \<Rightarrow> x | Some a \<Rightarrow> f a)"
  by (cases m) auto

lemmas still_rules = still_if still_opt still_bind still_merged still_deleted still_verify

lemma still_threeway: "still w (threeway_merge T ss p w)"
  unfolding threeway_merge_def Let_def merged_entry_allow_dirty_def merged_entry_def by (intro still_rules) simp_all

lemma still_twoway: "still w (twoway_merge T ss p w)"
  unfolding twoway_merge_def Let_def merged_entry_def by (intro still_rules) simp_all

lemma still_oneway: "still w (oneway_merge T ss p w)"
  unfolding oneway_merge_def merged_entry_def by (intro still_rules) simp_all

lemma stillD: "still w r \<Longrightarrow> r = Gives a w' \<Longrightarrow> w' = w" "still w r \<Longrightarrow> r = Ended d w' \<Longrightarrow> w' = w"
  by (auto simp: still_def)

text \<open>What becomes of one name.\<close>

definition entry_of :: "bytes \<Rightarrow> nat \<Rightarrow> gce \<Rightarrow> bool" where
  "entry_of nm k e \<longleftrightarrow> plain e \<and> g_mode e \<noteq> 0 \<and> g_name e = nm \<and> ce_stage e = k"

lemma good_stages_entry: "good_stages nm ss \<Longrightarrow> k < 4 \<Longrightarrow> ss ! k = Some e \<Longrightarrow> entry_of nm k e"
  by (auto simp: good_stages_def entry_of_def)

lemma drop_update_plain: "plain ce \<Longrightarrow> drop_update ce = ce"
proof -
  assume "plain ce"
  then have "g_flags ce AND NOT CE_UPDATE = g_flags ce"
    using plain_no_update [of ce] by (intro bit_word_eqI) (auto simp: bit_simps bit_masks)
  then show ?thesis by (simp add: drop_update_def)
qed

lemma outs_ok_plain: "entry_of nm k e \<Longrightarrow> outs_ok nm [e]"
  by (intro outs_ok_one) (auto simp: entry_of_def drop_update_plain plain_def)

lemma copy_ce_same: "g_name merge = g_name old \<Longrightarrow> copy_ce merge old = old"
  by (cases old) (simp add: copy_ce_def)

lemma merged_entry_result:
  assumes "entry_of nm k merge" "\<And>y. old = Some y \<Longrightarrow> entry_of nm 0 y"
  shows "(\<exists>d. merged_entry_internal T merge old ad w = Ended d w) \<or>
    (\<exists>e. merged_entry_internal T merge old ad w = Gives (Some [e]) w \<and> outs_ok nm [e] \<and> ce_stage e = 0 \<and>
      same e merge \<and> (\<forall>y. old = Some y \<longrightarrow> e = y \<or> uptodate T w y \<or> ad \<and> \<not> same y merge))"
proof -
  define e where "e = clear_stage (merge\<lparr>g_flags := g_flags merge OR CE_UPDATE\<rparr>)"
  have pl: "plain merge" "g_mode merge \<noteq> 0" "g_name merge = nm" using assms(1) by (auto simp: entry_of_def)
  note re = resolved_entry [OF pl(1), folded e_def]
  have ok: "outs_ok nm [e]" using re pl by (intro outs_ok_one) auto
  have sm: "same e merge" "\<And>y. same y (merge\<lparr>g_flags := x\<rparr>) = same y merge" for x using re by (auto simp: same_def memcmp_eq_0 plain_def pl) (use pl in \<open>auto simp: plain_def g_wf_def memcmp_eq_0\<close>)
  show ?thesis
  proof (cases old)
    case None
    then show ?thesis using ok re sm by (simp add: merged_entry_internal_def e_def)
  next
    case (Some y)
    then have en: "entry_of nm 0 y" using assms(2) by simp
    then have c: "clear_stage (copy_ce (merge\<lparr>g_flags := x\<rparr>) y) = y" for x
      using pl(3) by (simp add: clear_stage_0 copy_ce_same entry_of_def)
    note oo = outs_ok_plain [OF en]
    show ?thesis
      using verify_uptodate_cases [of T y w] Some ok oo re sm en unfolding merged_entry_internal_def Let_def e_def [symmetric]
      by (auto simp: c entry_of_def)
  qed
qed

lemma same_opt_iff: "same_opt a b \<longleftrightarrow> (\<exists>x y. a = Some x \<and> b = Some y \<and> same x y)"
  by (auto simp: same_opt_def split: option.splits)

lemma same_sym: "g_wf a \<Longrightarrow> g_wf b \<Longrightarrow> same a b \<longleftrightarrow> same b a"
  by (auto simp: same_eq)

text \<open>A result that loses no change: the entry of the index is in it, or its file is up to date.\<close>

definition careful :: "'w tree_ops \<Rightarrow> bytes \<Rightarrow> gce option list \<Rightarrow> 'w \<Rightarrow> (gce list option, 'w) run \<Rightarrow> bool" where
  "careful T nm ss w r \<longleftrightarrow> r \<noteq> Broken \<and> (\<forall>outs w'. r = Gives (Some outs) w' \<longrightarrow>
     outs_ok nm outs \<and> length outs \<le> present ss \<and> (\<forall>y. ss ! 0 = Some y \<longrightarrow> y \<in> set outs \<or> uptodate T w y))"

lemma careful_if: "(c \<Longrightarrow> careful T nm ss w x) \<Longrightarrow> (\<not> c \<Longrightarrow> careful T nm ss w y) \<Longrightarrow> careful T nm ss w (if c then x else y)"
  by simp

lemma careful_None [simp]: "careful T nm ss w (Gives None w')"
  by (simp add: careful_def)

lemma present_pos: "good_stages nm ss \<Longrightarrow> 1 \<le> present ss"
proof -
  assume "good_stages nm ss"
  then obtain k e where "k < length ss" "ss ! k = Some e" by (auto simp: good_stages_def)
  then have "Some e \<in> set (filter (\<lambda>x. x \<noteq> None) ss)" using nth_mem [of k ss] by simp
  then have "0 < length (filter (\<lambda>x. x \<noteq> None) ss)" by (rule length_pos_if_in_set)
  then show ?thesis by (simp add: present_def Suc_le_eq)
qed

lemma careful_merged:
  assumes "good_stages nm ss" "ss ! k = Some merge" "k < 4" "ad \<Longrightarrow> \<forall>y. ss ! 0 = Some y \<longrightarrow> same y merge"
  shows "careful T nm ss w (merged_entry_internal T merge (ss ! 0) ad w)"
  using merged_entry_result [OF good_stages_entry [OF assms(1,3,2)], of "ss ! 0" T ad w] good_stages_entry [OF assms(1), of 0]
    assms(4) present_pos [OF assms(1)]
  by (auto simp: careful_def)

lemma careful_old:
  assumes "outs_ok nm outs" "length outs \<le> present ss" "f = (\<lambda>_. Gives (Some outs))"
  shows "careful T nm ss w (bindM (verify_old T (ss ! 0) w) f)"
proof (cases "ss ! 0")
  case None
  then show ?thesis using assms by (simp add: careful_def verify_old_def)
next
  case (Some y)
  then show ?thesis using assms verify_uptodate_cases [of T y w] by (auto simp: careful_def verify_old_def)
qed

lemma length_4: "length ss = 4 \<longleftrightarrow> (\<exists>a b c d. ss = [a, b, c, d])"
  by (auto simp: numeral_eq_Suc length_Suc_conv)

lemma outs_ok_stages:
  assumes "good_stages nm ss"
  shows "outs_ok nm (opt_list (ss ! 1) @ opt_list (ss ! 2) @ opt_list (ss ! 3))"
    "length (opt_list (ss ! 1) @ opt_list (ss ! 2) @ opt_list (ss ! 3)) \<le> present ss"
proof -
  have en: "entry_of nm k e" if "e \<in> set (opt_list (ss ! k))" "k < 4" for k e
    using good_stages_entry [OF assms that(2)] that(1) by (auto simp: opt_list_def split: option.splits)
  have srt: "key_sorted stage_key (opt_list x)" for x by (simp add: opt_list_def key_sorted_def split: option.split)
  show "outs_ok nm (opt_list (ss ! 1) @ opt_list (ss ! 2) @ opt_list (ss ! 3))"
    using en [of _ 1] en [of _ 2] en [of _ 3]
    by (auto simp: outs_ok_def key_sorted_append srt entry_of_def stage_key_def drop_update_plain plain_def)
  show "length (opt_list (ss ! 1) @ opt_list (ss ! 2) @ opt_list (ss ! 3)) \<le> present ss"
  proof -
    obtain a b c d where "ss = [a, b, c, d]" using assms length_4 [of ss] by (auto simp: good_stages_def)
    then show ?thesis by (simp add: opt_list_def present_def numeral_eq_Suc split: option.split)
  qed
qed

lemma careful_threeway:
  assumes "good_stages nm ss"
  shows "careful T nm ss w (threeway_merge T ss p w)"
proof -
  have wf: "g_wf e" if "ss ! k = Some e" "k < 4" for k e
    using good_stages_entry [OF assms that(2,1)] by (simp add: entry_of_def plain_def)
  have merge: "careful T nm ss w (merged_entry_internal T (the (ss ! k)) (ss ! 0) ad w)"
    if "k < 4" "ss ! k \<noteq> None" "ad \<Longrightarrow> ss ! 0 = None \<or> same_opt (ss ! k) (ss ! 0) \<or> same_opt (ss ! 0) (ss ! k)" for k ad
    using that wf [of k] wf [of 0] by (intro careful_merged [OF assms, of k]) (auto simp: same_opt_iff same_sym)
  have three: "careful T nm ss w (merged_entry_internal T m (ss ! 0) False w)"
    if "merge_entries (ss ! 1) (ss ! 2) (ss ! 3) = Some m" for m
    using that merge [of 2 False] merge [of 3 False] by (auto simp: merge_entries_def split: if_splits)
  show ?thesis
    unfolding threeway_merge_def Let_def merged_entry_allow_dirty_def merged_entry_def
  proof (intro careful_if)
    show "careful T nm ss w (case merge_entries (ss ! 1) (ss ! 2) (ss ! 3) of
        None \<Rightarrow> bindM (verify_old T (ss ! 0) w) (\<lambda>_. Gives (Some (opt_list (ss ! 1) @ opt_list (ss ! 2) @ opt_list (ss ! 3))))
      | Some merge \<Rightarrow> merged_entry_internal T merge (ss ! 0) False w)"
      by (cases "merge_entries (ss ! 1) (ss ! 2) (ss ! 3)") (simp_all add: three careful_old [OF outs_ok_stages [OF assms]])
  qed (auto intro!: merge simp: same_opt_iff)
qed

lemma careful_deleted:
  assumes "good_stages nm ss" "ss ! k = Some e" "k < 4"
  shows "careful T nm ss w (deleted_entry T (ss ! k) (ss ! 0) w)"
proof -
  have "plain (e\<lparr>g_mode := 0\<rparr>)" "g_name e = nm"
    using good_stages_entry [OF assms(1,3,2)] by (auto simp: entry_of_def plain_def g_wf_def ce_namelen_def)
  then have "outs_ok nm [e\<lparr>g_mode := 0\<rparr>]"
    using drop_update_plain [of "e\<lparr>g_mode := 0\<rparr>"] by (intro outs_ok_one) (auto simp: plain_def)
  then show ?thesis unfolding deleted_entry_def assms(2)
    using present_pos [OF assms(1)] by (intro careful_old) auto
qed

lemma careful_current:
  assumes "good_stages nm ss" "ss ! 0 = Some cur"
  shows "careful T nm ss w (Gives (Some [cur]) w')"
  using assms outs_ok_plain [OF good_stages_entry [OF assms(1), of 0]] present_pos [OF assms(1)] by (simp add: careful_def)

lemma careful_twoway:
  assumes "good_stages nm ss"
  shows "careful T nm ss w (twoway_merge T ss p w)"
proof -
  have merge: "careful T nm ss w (merged_entry_internal T m (ss ! 0) False w)" if "ss ! 2 = Some m" for m
    by (rule careful_merged [OF assms that]) simp_all
  have del: "careful T nm ss w (deleted_entry T (ss ! 1) (ss ! 0) w)" if "ss ! 1 = Some m" for m
    by (rule careful_deleted [OF assms that]) simp
  show ?thesis
  proof (cases "ss ! 0")
    case (Some cur)
    show ?thesis unfolding twoway_merge_def Let_def merged_entry_def
      using careful_current [OF assms Some] merge del Some by (auto intro!: careful_if)
  next
    case None
    have "ss ! 1 \<noteq> None" if "ss ! 2 = None" "ss ! 3 = None"
      using assms that None by (auto simp: good_stages_def less_Suc_eq numeral_eq_Suc)
    then show ?thesis unfolding twoway_merge_def Let_def merged_entry_def
      using merge del None by (auto intro!: careful_if split: option.split)
  qed
qed

lemma oneway_result:
  assumes "good_stages nm ss"
  shows "oneway_merge T ss p w \<noteq> Broken"
    and "oneway_merge T ss p w = Gives (Some outs) w' \<Longrightarrow> outs_ok nm outs \<and> length outs \<le> present ss"
proof -
  have "\<exists>e. merged_entry_internal T a None False w = Gives (Some [e]) w \<and> outs_ok nm [e]" if "ss ! 1 = Some a" for a
    using merged_entry_result [OF good_stages_entry [OF assms _ that], of None T False w] by (auto simp: merged_entry_internal_def)
  moreover have "outs_ok nm [old]" if "ss ! 0 = Some old" for old
    using outs_ok_plain [OF good_stages_entry [OF assms _ that]] by simp
  moreover have "outs_ok nm []" by (simp add: outs_ok_def)
  ultimately show "oneway_merge T ss p w \<noteq> Broken"
    and "oneway_merge T ss p w = Gives (Some outs) w' \<Longrightarrow> outs_ok nm outs \<and> length outs \<le> present ss"
    using present_pos [OF assms]
    by (auto simp: oneway_merge_def merged_entry_def opt_list_def same_opt_iff split: if_splits option.splits)
qed

lemma carefulD:
  "careful T nm ss w r \<Longrightarrow> r \<noteq> Broken"
  "careful T nm ss w r \<Longrightarrow> r = Gives (Some outs) w' \<Longrightarrow> length outs \<le> present ss"
  "careful T nm ss w r \<Longrightarrow> r = Gives (Some outs) w' \<Longrightarrow> outs_ok nm outs"
  "careful T nm ss w r \<Longrightarrow> ss ! 0 = Some y \<Longrightarrow> r = Gives (Some outs) w' \<Longrightarrow> y \<in> set outs \<or> uptodate T w y"
  by (auto simp: careful_def)

interpretation threeway: merge_function "threeway_merge T" for T
proof unfold_locales
qed (rule stillD [OF still_threeway] carefulD [OF careful_threeway]; assumption)+

interpretation twoway: merge_function "twoway_merge T" for T
proof unfold_locales
qed (rule stillD [OF still_twoway] carefulD [OF careful_twoway]; assumption)+

interpretation oneway: merge_function "oneway_merge T" for T
proof unfold_locales
qed (rule stillD [OF still_oneway] oneway_result(1) oneway_result(2) [THEN conjunct1] oneway_result(2) [THEN conjunct2]; assumption)+

text \<open>Merge functions that lose no change.\<close>

locale careful_merge = merge_function fn for fn :: "'w merge_fn" +
  fixes T :: "'w tree_ops"
  assumes keeps_old: "good_stages nm ss \<Longrightarrow> ss ! 0 = Some y \<Longrightarrow> fn ss p w = Gives (Some outs) w' \<Longrightarrow> y \<in> set outs \<or> uptodate T w y"
begin

lemma merged_keeps_old:
  "merged fn w es R \<Longrightarrow> mergeable es \<Longrightarrow> y \<in> set es \<Longrightarrow> ce_stage y = 0 \<Longrightarrow> y \<in> set R \<or> uptodate T w y"
proof (induction rule: merged.induct)
  case (merged_Cons es p outs R)
  show ?case
  proof (cases "y \<in> set (first_group es)")
    case True
    then have "stages_of (first_group es) ! 0 = Some y"
      using group_stages(3) [OF merged_Cons.prems(1) merged_Cons.hyps(1)] merged_Cons.prems(3) by metis
    then show ?thesis
      using keeps_old [OF group_stages(1) [OF merged_Cons.prems(1) merged_Cons.hyps(1)] _ merged_Cons.hyps(2)] by auto
  next
    case False
    then have "y \<in> set (drop (length (first_group es)) es)" using merged_Cons.prems(2) first_group_append [of es] by (metis Un_iff set_append)
    then show ?thesis using merged_Cons.IH mergeable_rest [OF merged_Cons.prems(1)] merged_Cons.prems(3) by auto
  qed
qed simp

end

interpretation threeway: careful_merge "threeway_merge T" T for T
  by unfold_locales (rule carefulD(4) [OF careful_threeway])

interpretation twoway: careful_merge "twoway_merge T" T for T
  by unfold_locales (rule carefulD(4) [OF careful_twoway])

section \<open>The whole array\<close>

lemma dropWhile_greater:
  fixes f :: "'a \<Rightarrow> 'b::linorder"
  shows "sorted (map f xs) \<Longrightarrow> \<forall>x\<in>set xs. c \<le> f x \<Longrightarrow> x \<in> set (dropWhile (\<lambda>y. f y = c) xs) \<Longrightarrow> c < f x"
proof (induction xs)
  case (Cons y ys)
  show ?case
  proof (cases "f y = c")
    case True
    then show ?thesis using Cons by simp
  next
    case False
    then have "c < f y" using Cons.prems(2) by (simp add: less_le)
    moreover have "f y \<le> f x" using Cons.prems(1,3) False by auto
    ultimately show ?thesis by simp
  qed
qed simp

lemma mergeable_names: "mergeable es \<Longrightarrow> sorted (map g_name es)"
  by (induction es) (auto simp: mergeable_def key_sorted_Cons gkey_def)

lemma rest_names:
  assumes "mergeable es" "es \<noteq> []" "x \<in> set (drop (length (first_group es)) es)"
  shows "g_name (hd es) < g_name x"
proof (rule dropWhile_greater [OF mergeable_names [OF assms(1)]])
  show "\<forall>x\<in>set es. g_name (hd es) \<le> g_name x"
    using mergeable_names [OF assms(1)] assms(2) by (cases es) auto
  show "x \<in> set (dropWhile (\<lambda>y. g_name y = g_name (hd es)) es)"
    using assms(3) by (simp add: first_group_def dropWhile_eq_drop)
qed

context merge_function
begin

lemma merged_outs:
  "merged fn w es R \<Longrightarrow> mergeable es \<Longrightarrow> key_sorted stage_key R \<and> length R \<le> length es \<and>
    (\<forall>e\<in>set R. g_name e \<in> g_name ` set es \<and> g_wf e \<and> plain (drop_update e) \<and> (g_mode e = 0 \<longrightarrow> plain e))"
proof (induction rule: merged.induct)
  case (merged_Cons es p outs R)
  let ?rest = "drop (length (first_group es)) es"
  note gs = group_stages [OF merged_Cons.prems merged_Cons.hyps(1)]
  have ok: "outs_ok (g_name (hd es)) outs" by (rule fn_outs [OF gs(1) merged_Cons.hyps(2)])
  have len: "length outs \<le> length (first_group es)" using fn_present [OF gs(1) merged_Cons.hyps(2)] gs(2) by simp
  have l: "length (first_group es) + length ?rest = length es" using arg_cong [OF first_group_append [of es], of length] by simp
  have ih: "key_sorted stage_key R" "length R \<le> length ?rest"
    "\<forall>e\<in>set R. g_name e \<in> g_name ` set ?rest \<and> g_wf e \<and> plain (drop_update e) \<and> (g_mode e = 0 \<longrightarrow> plain e)"
    using merged_Cons.IH mergeable_rest [OF merged_Cons.prems] by auto
  have "key_sorted stage_key (outs @ R)"
    using ok ih(1,3) rest_names [OF merged_Cons.prems merged_Cons.hyps(1)]
    by (fastforce simp: key_sorted_append outs_ok_def stage_key_def)
  moreover have "length (outs @ R) \<le> length es" using len l ih(2) by simp
  moreover have "g_name e \<in> g_name ` set es" if "e \<in> set (outs @ R)" for e
  proof -
    have "g_name (hd es) \<in> g_name ` set es" using merged_Cons.hyps(1) by simp
    moreover have "set ?rest \<subseteq> set es" by (rule set_drop_subset)
    ultimately show ?thesis using that ok ih(3) by (fastforce simp: outs_ok_def)
  qed
  ultimately show ?case using ok ih(3) by (auto simp: outs_ok_def)
qed simp

end

text \<open>An entry that has no update flag comes through \<^verbatim>\<open>check_updates\<close> as it is.\<close>

lemma plain_no_update_flag: "plain e \<Longrightarrow> g_flags e AND CE_UPDATE = 0"
  using plain_no_update [of e] by (intro bit_word_eqI) (auto simp: bit_simps bit_masks)

lemma check_updates_kept:
  "check_updates T update es w = Gives es' w' \<Longrightarrow> e \<in> set es \<Longrightarrow> plain e \<Longrightarrow> e \<in> set es'"
proof (induction es arbitrary: es' w)
  case (Cons ce ces)
  then obtain ce1 w1 r where 1: "check_update T update ce w = Gives ce1 w1" "check_updates T update ces w1 = Gives r w'" "es' = ce1 # r"
    by (auto simp: bindM_Done_iff)
  show ?case
  proof (cases "e = ce")
    case True
    then have "ce1 = e" using 1(1) Cons.prems(3) by (auto simp: check_update_def plain_no_update_flag split: if_splits)
    then show ?thesis using 1(3) by simp
  next
    case False
    then show ?thesis using Cons 1(2,3) by auto
  qed
qed simp

text \<open>The interface to \<^verbatim>\<open>checkout_entry\<close>: only the stat fields of the entry change.\<close>

definition keeps_entry :: "gce \<Rightarrow> gce \<Rightarrow> bool" where
  "keeps_entry ce ce' \<longleftrightarrow> g_name ce' = g_name ce \<and> g_flags ce' = g_flags ce \<and> g_mode ce' = g_mode ce \<and> g_sha1 ce' = g_sha1 ce"

locale checkout =
  fixes T :: "'w tree_ops"
  assumes checkout_keeps: "checkout_path T ce w = Gives ce' w' \<Longrightarrow> keeps_entry ce ce'"
begin

lemma check_update_keeps:
  assumes "check_update T update e w = Gives e' w'" "g_mode e = 0 \<longrightarrow> plain e"
  shows "keeps_entry (drop_update e) e'"
proof (cases "g_mode e = 0 \<or> g_flags e AND CE_UPDATE = 0")
  case True
  have "e' = e" using assms(1) True by (auto simp: check_update_def split: if_splits)
  moreover have "drop_update e = e"
  proof (cases "g_mode e = 0")
    case False
    then have "g_flags e AND CE_UPDATE = 0" using True by simp
    then have "\<not> bit (g_flags e) 14" using bit_masks(3) by (metis bit_and_iff bit_0_eq bot_apply bot_bool_def)
    then have "g_flags e AND NOT CE_UPDATE = g_flags e" by (intro bit_word_eqI) (auto simp: bit_simps bit_masks)
    then show ?thesis by (simp add: drop_update_def)
  qed (use assms(2) drop_update_plain in blast)
  ultimately show ?thesis by (simp add: keeps_entry_def)
next
  case False
  then show ?thesis using assms(1) checkout_keeps
    by (auto simp: check_update_def drop_update_def keeps_entry_def Let_def split: if_splits)
qed

lemma check_updates_keep:
  "check_updates T update es w = Gives es' w' \<Longrightarrow> \<forall>e\<in>set es. g_mode e = 0 \<longrightarrow> plain e \<Longrightarrow>
    list_all2 (\<lambda>e e'. keeps_entry (drop_update e) e') es es'"
proof (induction es arbitrary: es' w)
  case (Cons ce ces)
  then obtain ce1 w1 r where 1: "check_update T update ce w = Gives ce1 w1" "check_updates T update ces w1 = Gives r w'" "es' = ce1 # r"
    by (auto simp: bindM_Done_iff)
  then show ?case using Cons check_update_keeps [OF 1(1)] by simp
qed simp

end

lemma stage_drop_update: "ce_stage (drop_update e) = ce_stage e"
proof -
  have "CE_STAGEMASK AND (g_flags e AND NOT CE_UPDATE) = CE_STAGEMASK AND g_flags e"
    by (rule bit_word_eqI) (auto simp: bit_simps bit_masks)
  then show ?thesis by (simp add: ce_stage_def drop_update_def)
qed

lemma keeps_entry_stage: "keeps_entry (drop_update e) e' \<Longrightarrow> stage_key e' = stage_key e"
  using stage_drop_update [of e] by (simp add: keeps_entry_def stage_key_def ce_stage_def drop_update_def)

lemma keeps_entry_plain: "keeps_entry e e' \<Longrightarrow> plain e \<Longrightarrow> plain e'"
  by (simp add: keeps_entry_def plain_def g_wf_def ce_namelen_def)

context merge_function
begin

lemma merge_cache_steps:
  assumes "mergeable (g_cache ix)" "length (g_cache ix) < g_alloc ix" "merge_cache T update fn ix w = Gives ix' w'"
  obtains R where "merged fn w (g_cache ix) R" "check_updates T update R w = Gives (g_cache ix') w'" "g_alloc ix' = g_alloc ix"
proof -
  obtain arr n w1 where l: "merge_loop fn (g_alloc ix) (length (g_cache ix)) (g_cache ix) 0 0 w = Gives (arr, n) w1"
    "bindM (check_updates T update (take n arr) w1) (\<lambda>ces. Gives (ix\<lparr>g_cache := ces\<rparr>)) = Gives ix' w'"
    using assms(3) by (auto simp: merge_cache_def bindM_Done_iff)
  obtain ces where u: "check_updates T update (take n arr) w1 = Gives ces w'" "ix' = ix\<lparr>g_cache := ces\<rparr>"
    using l(2) by (auto simp: bindM_Done_iff)
  from loop_refines [of 0 "g_cache ix" "length (g_cache ix)" "g_alloc ix" 0 w] assms(1,2) l(1)
  have "w1 = w" "merged fn w (g_cache ix) (take n arr)" by auto
  then show ?thesis using that u by simp
qed

lemma merge_cache_loop_ends:
  assumes "mergeable (g_cache ix)" "length (g_cache ix) < g_alloc ix"
    and "merge_loop fn (g_alloc ix) (length (g_cache ix)) (g_cache ix) 0 0 w = r"
  shows "r \<noteq> Broken \<and> still w r"
  using loop_refines [of 0 "g_cache ix" "length (g_cache ix)" "g_alloc ix" 0 w] assms by (auto simp: still_def split: run.splits)

text \<open>When the array is full, the loop reads the slot behind it, unless the merge is refused before.\<close>

lemma loop_overread:
  assumes "mergeable (drop src arr)" "length arr = alloc" "src < alloc" "dst \<le> src"
  shows "merge_loop fn alloc alloc arr dst src w \<noteq> Gives r w'"
  using assms
proof (induction "alloc - src" arbitrary: arr dst src rule: less_induct)
  case less
  note prems = less.prems
  define es where "es = drop src arr"
  define grp where "grp = first_group es"
  let ?p = "\<lparr>m_arr = arr, m_dst = dst, m_next = src + length grp, m_tail = alloc\<rparr>"
  note step = loop_step [OF prems(1,2) order_refl prems(3) es_def grp_def]
  note gs = group_stages [OF step(3,2), folded grp_def]
  show ?case
  proof (cases "alloc \<le> src + length grp")
    case True
    then show ?thesis by (simp add: step(1))
  next
    case False
    show ?thesis
    proof
      assume "merge_loop fn alloc alloc arr dst src w = Gives r w'"
      then obtain outs w1 where fn: "fn (stages_of grp) ?p w = Gives (Some outs) w1"
        "merge_loop fn alloc alloc (store_entries arr dst outs) (dst + length outs) (src + length grp) w1 = Gives r w'"
        using False unfolding step(1) by (auto split: run.splits option.splits)
      have w1: "w1 = w" by (rule fn_Done [OF fn(1)])
      have "length outs \<le> length grp" using fn_present [OF gs(1) fn(1)] gs(2) by simp
      then have bnd: "dst + length outs \<le> src + length grp" "src + length grp \<le> length arr" using step(5) prems(2,4) by auto
      note parts = store_entries_parts [OF bnd]
      have rest: "drop (src + length grp) arr = drop (length grp) es" by (simp add: es_def add.commute)
      have m: "alloc - (src + length grp) < alloc - src" using step(4) prems(3) by linarith
      have "merge_loop fn alloc alloc (store_entries arr dst outs) (dst + length outs) (src + length grp) w \<noteq> Gives r w'"
        using bnd prems(2) parts rest mergeable_rest [OF step(3), of "length grp"] False by (intro less.hyps [OF m]) auto
      then show False using fn(2) w1 by simp
    qed
  qed
qed

end

locale merging = merge_function fn + checkout T for fn :: "'w merge_fn" and T :: "'w tree_ops"
begin

lemma merge_cache_inv:
  assumes "mergeable (g_cache ix)" "length (g_cache ix) < g_alloc ix" "merge_cache T update fn ix w = Gives ix' w'"
  shows "g_inv ix'" "\<forall>e\<in>set (g_cache ix'). plain e"
proof -
  obtain R where R: "merged fn w (g_cache ix) R" "check_updates T update R w = Gives (g_cache ix') w'" "g_alloc ix' = g_alloc ix"
    using merge_cache_steps [OF assms] .
  note outs = merged_outs [OF R(1) assms(1)]
  have all: "list_all2 (\<lambda>e e'. keeps_entry (drop_update e) e') R (g_cache ix')"
    using outs by (intro check_updates_keep [OF R(2)]) simp
  then have keys: "map stage_key (g_cache ix') = map stage_key R"
    by (intro nth_equalityI) (auto simp: list_all2_conv_all_nth keeps_entry_stage)
  show p: "\<forall>e\<in>set (g_cache ix'). plain e"
  proof
    fix e' assume "e' \<in> set (g_cache ix')"
    then obtain e where "e \<in> set R" "keeps_entry (drop_update e) e'" using all by (metis in_set_conv_nth list_all2_conv_all_nth)
    then show "plain e'" using outs keeps_entry_plain by blast
  qed
  have "key_sorted stage_key (g_cache ix')" using outs keys by (simp add: key_sorted_def)
  then have "key_sorted gkey (g_cache ix')"
    unfolding key_sorted_def sorted_wrt_map by (rule sorted_wrt_mono_rel [rotated]) (use p in \<open>simp add: plain_key_less\<close>)
  moreover have "length (g_cache ix') = length R" using keys by (metis length_map)
  ultimately show "g_inv ix'" using p outs assms(2) R(3) by (auto simp: g_inv_def plain_def)
qed

end

section \<open>Files and directories in a three-way merge\<close>

text \<open>A name below another one as a directory.\<close>

definition below_path :: "bytes \<Rightarrow> bytes \<Rightarrow> bool" where
  "below_path a b \<longleftrightarrow> (\<exists>r. b = a @ 47 # r)"

definition stage_names :: "nat \<Rightarrow> gce list \<Rightarrow> bytes set" where
  "stage_names k es = g_name ` {e \<in> set es. ce_stage e = k}"

definition df_free :: "bytes set \<Rightarrow> bool" where
  "df_free S \<longleftrightarrow> (\<forall>a\<in>S. \<forall>b\<in>S. \<not> below_path a b)"

lemma df_free_mono: "S \<subseteq> S' \<Longrightarrow> df_free S' \<Longrightarrow> df_free S"
  by (auto simp: df_free_def)

lemma below_path_iff: "below_path a b \<longleftrightarrow> length a < length b \<and> take (length a) b = a \<and> b ! length a = 47"
proof
  assume "length a < length b \<and> take (length a) b = a \<and> b ! length a = 47"
  then have "b = a @ 47 # drop (Suc (length a)) b" by (metis id_take_nth_drop)
  then show "below_path a b" by (auto simp: below_path_def)
qed (auto simp: below_path_def)

lemma df_clash_iff:
  "g_wf ce \<Longrightarrow> g_wf e \<Longrightarrow> df_clash ce k e \<longleftrightarrow> ce_stage e = k \<and> (below_path (g_name ce) (g_name e) \<or> below_path (g_name e) (g_name ce))"
  unfolding df_clash_def Let_def below_path_iff by (auto simp: g_wf_def memcmp_eq_0 name_at_def)

lemma causes_df_conflict_later:
  assumes "x \<in> set (drop (m_next p) (m_arr p))" "m_tail p = length (m_arr p)" "df_clash ce k x"
  shows "causes_df_conflict ce k p"
proof -
  obtain i where "i < length (m_arr p) - m_next p" "drop (m_next p) (m_arr p) ! i = x" using assms(1) by (auto simp: in_set_conv_nth)
  then have "m_next p + i < m_tail p" "m_arr p ! (m_next p + i) = x" using assms(2) by auto
  then show ?thesis using assms(3) by (auto simp: causes_df_conflict_def list_ex_iff intro!: bexI [of _ "m_next p + i"])
qed

text \<open>Where an entry that \<^verbatim>\<open>threeway_merge\<close> resolves comes from.\<close>

definition from_both :: "gce option list \<Rightarrow> merge_pos \<Rightarrow> bool" where
  "from_both ss p \<longleftrightarrow> (ss ! 2 \<noteq> None \<and> ss ! 3 \<noteq> None) \<or>
     (\<exists>c. ss ! 2 = None \<and> ss ! 3 = Some c \<and> \<not> causes_df_conflict c 2 p) \<or>
     (\<exists>b. ss ! 2 = Some b \<and> ss ! 3 = None \<and> \<not> causes_df_conflict b 3 p)"

lemma threeway_resolved:
  assumes "good_stages nm ss" "threeway_merge T ss p w = Gives (Some outs) w'" "e \<in> set outs" "ce_stage e = 0"
  shows "from_both ss p"
proof (rule ccontr)
  assume n: "\<not> from_both ss p"
  then have "\<not> (ss ! 2 \<noteq> None \<and> ss ! 3 \<noteq> None)" by (auto simp: from_both_def)
  then have c1: "same_opt (ss ! 2) (ss ! 3) = False" "merge_entries (ss ! 1) (ss ! 2) (ss ! 3) = None"
    "(ss ! 1 \<noteq> None \<and> ss ! 2 \<noteq> None \<and> ss ! 3 \<noteq> None \<and> X) = False" for X
    by (auto simp: same_opt_iff merge_entries_def)
  have c2: "(ss ! 1 = None \<and> ss ! 2 = None \<and> ss ! 3 \<noteq> None \<and> \<not> causes_df_conflict (the (ss ! 3)) 2 p \<and> X) = False"
    "(ss ! 1 = None \<and> ss ! 2 \<noteq> None \<and> ss ! 3 = None \<and> \<not> causes_df_conflict (the (ss ! 2)) 3 p \<and> X) = False" for X
    using n by (auto simp: from_both_def)
  have "threeway_merge T ss p w = (if ss ! 0 \<noteq> None \<and> \<not> same_opt (ss ! 0) (ss ! 2) then Gives None w
      else bindM (verify_old T (ss ! 0) w) (\<lambda>_. Gives (Some (opt_list (ss ! 1) @ opt_list (ss ! 2) @ opt_list (ss ! 3)))))"
    unfolding threeway_merge_def Let_def c1 c2 by simp
  then have "bindM (verify_old T (ss ! 0) w) (\<lambda>_. Gives (Some (opt_list (ss ! 1) @ opt_list (ss ! 2) @ opt_list (ss ! 3)))) = Gives (Some outs) w'"
    using assms(2) by (metis run.inject(2) option.distinct(1))
  then have "e \<in> set (opt_list (ss ! 1) @ opt_list (ss ! 2) @ opt_list (ss ! 3))"
    using assms(3) by (cases "verify_old T (ss ! 0) w") auto
  then have "ss ! 1 = Some e \<or> ss ! 2 = Some e \<or> ss ! 3 = Some e" by (auto simp: opt_list_def split: option.splits)
  moreover have "ss ! k \<noteq> Some e" if "k < 4" "k \<noteq> 0" for k
    using good_stages_entry [OF assms(1) that(1)] that(2) assms(4) by (auto simp: entry_of_def)
  ultimately show False by simp
qed

lemma stage_names_append: "stage_names k (xs @ ys) = stage_names k xs \<union> stage_names k ys"
  by (auto simp: stage_names_def)

lemma stage_names_group:
  assumes "mergeable es" "es \<noteq> []" "k < 4" "stages_of (first_group es) ! k \<noteq> None"
  shows "g_name (hd es) \<in> stage_names k es"
proof -
  obtain e where "stages_of (first_group es) ! k = Some e" using assms(4) by blast
  from group_stages(4) [OF assms(1,2,3) this] show ?thesis by (auto simp: stage_names_def intro: rev_image_eqI)
qed

lemma no_conflict_later:
  assumes "\<not> causes_df_conflict ce k p" "drop (m_next p) (m_arr p) = rest" "m_tail p = length (m_arr p)"
    and "g_wf ce" "\<forall>e\<in>set rest. g_wf e" "b \<in> stage_names k rest"
  shows "\<not> below_path (g_name ce) b \<and> \<not> below_path b (g_name ce)"
proof -
  obtain x where x: "x \<in> set rest" "ce_stage x = k" "g_name x = b" using assms(6) by (auto simp: stage_names_def)
  have "\<not> df_clash ce k x" using causes_df_conflict_later [of x p ce k] assms(1-3) x(1) by blast
  then show ?thesis using assms(4,5) x by (simp add: df_clash_iff)
qed

lemma stage_names_drop: "stage_names k (drop n es) \<subseteq> stage_names k es"
  using set_drop_subset [of n es] by (auto simp: stage_names_def)

lemma resolved_no_df:
  fixes es :: "gce list"
  defines "rest \<equiv> drop (length (first_group es)) es" and "ss \<equiv> stages_of (first_group es)" and "nm \<equiv> g_name (hd es)"
  assumes "mergeable es" "es \<noteq> []" "from_both ss p" "drop (m_next p) (m_arr p) = rest" "m_tail p = length (m_arr p)"
    and "df_free (stage_names 2 es)" "df_free (stage_names 3 es)" "b \<in> stage_names 2 rest \<union> stage_names 3 rest"
  shows "\<not> below_path nm b \<and> \<not> below_path b nm"
proof -
  note gs = group_stages(1) [OF assms(4,5), folded ss_def nm_def]
  have wf: "\<forall>e\<in>set rest. g_wf e" using mergeable_rest [OF assms(4)] by (simp add: rest_def mergeable_def plain_def)
  have sub: "stage_names k rest \<subseteq> stage_names k es" for k unfolding rest_def by (rule stage_names_drop)
  have same: "\<not> below_path nm b \<and> \<not> below_path b nm" if "ss ! k \<noteq> None" "b \<in> stage_names k rest" "k < 4" "df_free (stage_names k es)" for k
  proof -
    have "nm \<in> stage_names k es" unfolding nm_def using that by (intro stage_names_group [OF assms(4,5)]) (simp_all add: ss_def)
    moreover have "b \<in> stage_names k es" using that(2) sub by blast
    ultimately show ?thesis using that(4) by (simp add: df_free_def)
  qed
  have other: "\<not> below_path nm b \<and> \<not> below_path b nm"
    if "ss ! j = Some e" "\<not> causes_df_conflict e k p" "b \<in> stage_names k rest" "j < 4" for e j k
    using no_conflict_later [OF that(2) assms(7,8) _ wf that(3)] good_stages_entry [OF gs that(4,1)] by (simp add: entry_of_def plain_def)
  consider "ss ! 2 \<noteq> None" "ss ! 3 \<noteq> None" | c where "ss ! 3 = Some c" "\<not> causes_df_conflict c 2 p"
    | c where "ss ! 2 = Some c" "\<not> causes_df_conflict c 3 p"
    using assms(6) unfolding from_both_def by blast
  then show ?thesis
  proof cases
    case 1
    then show ?thesis using same [of 2] same [of 3] assms(9-11) by auto
  next
    case (2 c)
    then show ?thesis using same [of 3] other [OF 2] assms(10,11) by auto
  next
    case (3 c)
    then show ?thesis using same [of 2] other [OF 3] assms(9,11) by auto
  qed
qed

lemma merged_df_free:
  "merged (threeway_merge T) w es R \<Longrightarrow> mergeable es \<Longrightarrow> df_free (stage_names 2 es) \<Longrightarrow> df_free (stage_names 3 es) \<Longrightarrow>
    df_free (stage_names 0 R) \<and> stage_names 0 R \<subseteq> stage_names 2 es \<union> stage_names 3 es"
proof (induction rule: merged.induct)
  case (merged_Cons es p outs R)
  let ?rest = "drop (length (first_group es)) es" and ?ss = "stages_of (first_group es)" and ?nm = "g_name (hd es)"
  note prems = merged_Cons.prems and gs = group_stages(1) [OF merged_Cons.prems(1) merged_Cons.hyps(1)]
  note ih = merged_Cons.IH [OF mergeable_rest [OF prems(1)] df_free_mono [OF stage_names_drop prems(2)] df_free_mono [OF stage_names_drop prems(3)]]
  have sub: "stage_names 0 R \<subseteq> stage_names 2 es \<union> stage_names 3 es"
    using ih stage_names_drop [of 2 "length (first_group es)" es] stage_names_drop [of 3 "length (first_group es)" es] by blast
  have names: "\<forall>e\<in>set outs. g_name e = ?nm" using threeway.fn_outs [OF gs merged_Cons.hyps(2)] by (simp add: outs_ok_def)
  show ?case
  proof (cases "\<exists>e\<in>set outs. ce_stage e = 0")
    case False
    then have "stage_names 0 (outs @ R) = stage_names 0 R" by (auto simp: stage_names_def)
    then show ?thesis using ih sub by simp
  next
    case True
    then have fb: "from_both ?ss p" using threeway_resolved [OF gs merged_Cons.hyps(2)] by blast
    have nm: "stage_names 0 (outs @ R) \<subseteq> insert ?nm (stage_names 0 R)" using names by (auto simp: stage_names_def)
    have "?ss ! 2 \<noteq> None \<or> ?ss ! 3 \<noteq> None" using fb by (auto simp: from_both_def)
    then have "?nm \<in> stage_names 2 es \<union> stage_names 3 es"
      using stage_names_group [OF prems(1) merged_Cons.hyps(1), of 2] stage_names_group [OF prems(1) merged_Cons.hyps(1), of 3] by auto
    moreover have "\<not> below_path ?nm b \<and> \<not> below_path b ?nm" if "b \<in> stage_names 0 R" for b
      using ih that by (intro resolved_no_df [OF prems(1) merged_Cons.hyps(1) fb merged_Cons.hyps(3,4) prems(2,3)]) blast
    moreover have "\<not> below_path ?nm ?nm" by (simp add: below_path_def)
    ultimately have "df_free (insert ?nm (stage_names 0 R))" "insert ?nm (stage_names 0 R) \<subseteq> stage_names 2 es \<union> stage_names 3 es"
      using ih sub by (simp_all add: df_free_def)
    then show ?thesis using nm df_free_mono by blast
  qed
qed (simp add: df_free_def stage_names_def)

end
