(* ===== verification/Git_Checkout.thy ===== *)
theory Git_Checkout
  imports Git_Merge
begin

text \<open>
  \<^verbatim>\<open>src/git-0.99.1/entry.c\<close>: writing an entry of the index to the working tree.  The system calls are the fields of a record,
  arbitrary functions of an arbitrary state, so what is shown holds whatever they do; the lengths of the path buffers are
  those of the source.
\<close>

section \<open>System calls\<close>

datatype mkdir_result = Mkdir_Ok | Mkdir_Exists | Mkdir_Failed

record 'w posix =
  px_lstat :: "bytes \<Rightarrow> 'w \<Rightarrow> lstat_result"
  px_stat :: "bytes \<Rightarrow> 'w \<Rightarrow> stat option"
  px_unlink :: "bytes \<Rightarrow> 'w \<Rightarrow> bool \<times> 'w"
  px_mkdir :: "bytes \<Rightarrow> 'w \<Rightarrow> mkdir_result \<times> 'w"
  px_rmdir :: "bytes \<Rightarrow> 'w \<Rightarrow> bool \<times> 'w"
  px_readdir :: "bytes \<Rightarrow> 'w \<Rightarrow> bytes list option"
  px_create :: "bytes \<Rightarrow> u32 \<Rightarrow> 'w \<Rightarrow> bool \<times> 'w"
  px_write :: "bytes \<Rightarrow> bytes \<Rightarrow> 'w \<Rightarrow> nat \<times> 'w"
  px_symlink :: "bytes \<Rightarrow> bytes \<Rightarrow> 'w \<Rightarrow> bool \<times> 'w"

text \<open>The fields of \<^verbatim>\<open>struct checkout\<close>.\<close>

record checkout_opts =
  co_base_dir :: bytes
  co_force :: bool
  co_not_new :: bool
  co_refresh_cache :: bool

section \<open>Directories (entry.c)\<close>

text \<open>One round of the loop of \<^verbatim>\<open>create_directories\<close>, for the slash at \<open>len\<close>.\<close>

definition create_directory :: "'w posix \<Rightarrow> checkout_opts \<Rightarrow> bytes \<Rightarrow> nat \<Rightarrow> 'w \<Rightarrow> (unit, 'w) run" where
  "create_directory P opts path len w =
     (let buf = take len path;
          is_dir = (\<lambda>w. case px_stat P buf w of Some st \<Rightarrow> S_ISDIR (st_mode st) | None \<Rightarrow> False);
          check = (\<lambda>w. if is_dir w then Gives () w else Ended (Checkout_Died buf) w) in
      case px_mkdir P buf w of
        (Mkdir_Ok, w1) \<Rightarrow> Gives () w1
      | (Mkdir_Failed, w1) \<Rightarrow> Ended (Checkout_Died buf) w1
      | (Mkdir_Exists, w1) \<Rightarrow>
          if length (co_base_dir opts) < len \<and> co_force opts then
            (case px_unlink P buf w1 of
               (False, w2) \<Rightarrow> check w2
             | (True, w2) \<Rightarrow> (case px_mkdir P buf w2 of (Mkdir_Ok, w3) \<Rightarrow> Gives () w3 | (_, w3) \<Rightarrow> check w3))
          else check w1)"

fun create_directories_at :: "'w posix \<Rightarrow> checkout_opts \<Rightarrow> bytes \<Rightarrow> nat list \<Rightarrow> 'w \<Rightarrow> (unit, 'w) run" where
  "create_directories_at P opts path [] w = Gives () w"
| "create_directories_at P opts path (len # lens) w =
     bindM (create_directory P opts path len w) (\<lambda>_. create_directories_at P opts path lens)"

text \<open>The search starts behind the first byte, which must not be the NUL.\<close>

definition create_directories :: "'w posix \<Rightarrow> checkout_opts \<Rightarrow> bytes \<Rightarrow> 'w \<Rightarrow> (unit, 'w) run" where
  "create_directories P opts path w =
     (if path = [] then Broken
      else create_directories_at P opts path (filter (\<lambda>i. path ! i = 47) [1..<length path]) w)"

text \<open>\<^verbatim>\<open>remove_subtree\<close> with its buffer of \<^verbatim>\<open>PATH_MAX\<close> bytes, and its loop over the names of the directory.\<close>

function remove_subtree :: "'w posix \<Rightarrow> bytes \<Rightarrow> 'w \<Rightarrow> (unit, 'w) run"
  and remove_names :: "'w posix \<Rightarrow> bytes \<Rightarrow> bytes list \<Rightarrow> 'w \<Rightarrow> (unit, 'w) run" where
  "remove_subtree P path w =
     (case px_readdir P path w of None \<Rightarrow> Ended (Checkout_Died path) w
      | Some names \<Rightarrow>
        if PATH_MAX \<le> length path then Broken
        else bindM (remove_names P path names w) (\<lambda>_ w.
          case px_rmdir P path w of (ok, w1) \<Rightarrow> if ok then Gives () w1 else Ended (Checkout_Died path) w1))"
| "remove_names P path [] w = Gives () w"
| "remove_names P path (d # ds) w =
     (if d = [46] \<or> d = [46, 46] then remove_names P path ds w
      else
        (let pathbuf = path @ 47 # d in
         if PATH_MAX \<le> length pathbuf then Broken
         else (case px_lstat P pathbuf w of
             Stat_Ok st \<Rightarrow>
               bindM (if S_ISDIR (st_mode st) then remove_subtree P pathbuf w
                      else (case px_unlink P pathbuf w of (ok, w1) \<Rightarrow> if ok then Gives () w1 else Ended (Checkout_Died pathbuf) w1))
                 (\<lambda>_. remove_names P path ds)
           | _ \<Rightarrow> Ended (Checkout_Died pathbuf) w)))"
  by pat_completeness auto
termination
  by (relation "measures [\<lambda>x. case x of Inl (P, path, w) \<Rightarrow> PATH_MAX - length path | Inr (P, path, ds, w) \<Rightarrow> PATH_MAX - length path,
        \<lambda>x. case x of Inl _ \<Rightarrow> Suc 0 | Inr _ \<Rightarrow> 0, \<lambda>x. case x of Inl _ \<Rightarrow> 0 | Inr (P, path, ds, w) \<Rightarrow> length ds]") auto

declare remove_subtree.simps [simp del] remove_names.simps [simp del]

section \<open>Files (entry.c)\<close>

definition create_file :: "'w posix \<Rightarrow> bytes \<Rightarrow> u32 \<Rightarrow> 'w \<Rightarrow> bool \<times> 'w" where
  "create_file P path mode w = px_create P path (if mode AND 0x40 \<noteq> 0 then 0x1ff else 0x1b6) w"

text \<open>
  \<^verbatim>\<open>write_entry\<close>; \<open>objects\<close> is \<^verbatim>\<open>read_sha1_file\<close>.  The target of a link is copied to a buffer of 1024 bytes, and the stat
  structure that is used at the end is undefined when \<^verbatim>\<open>lstat\<close> fails.
\<close>

definition write_entry :: "'w posix \<Rightarrow> (bytes \<Rightarrow> (bytes \<times> bytes) option) \<Rightarrow> checkout_opts \<Rightarrow> gce \<Rightarrow> bytes \<Rightarrow> 'w \<Rightarrow> (int \<times> gce, 'w) run" where
  "write_entry P objects opts ce path w =
     (let finish = (\<lambda>w. if co_refresh_cache opts
            then (case px_lstat P (g_name ce) w of Stat_Ok st \<Rightarrow> Gives (0, fill_stat_cache_info ce st) w | _ \<Rightarrow> Broken)
            else Gives (0, ce) w) in
      case objects (g_sha1 ce) of None \<Rightarrow> Gives (-1, ce) w
      | Some (type, new) \<Rightarrow>
        if type \<noteq> str ''blob'' then Gives (-1, ce) w
        else if g_mode ce AND S_IFMT = S_IFREG then
          (case create_file P path (g_mode ce) w of (fd, w1) \<Rightarrow>
             if \<not> fd then Gives (-1, ce) w1
             else (case px_write P path new w1 of (wrote, w2) \<Rightarrow> if wrote \<noteq> length new then Gives (-1, ce) w2 else finish w2))
        else if g_mode ce AND S_IFMT = S_IFLNK then
          (if 1024 \<le> length new then Broken
           else (case px_symlink P (cstr new) path w of (ok, w1) \<Rightarrow> if \<not> ok then Gives (-1, ce) w1 else finish w1))
        else Gives (-1, ce) w)"

definition checkout_entry :: "'w posix \<Rightarrow> (bytes \<Rightarrow> (bytes \<times> bytes) option) \<Rightarrow> checkout_opts \<Rightarrow> gce \<Rightarrow> 'w \<Rightarrow> (int \<times> gce, 'w) run" where
  "checkout_entry P objects opts ce w =
     (let path = co_base_dir opts @ g_name ce;
          write = (\<lambda>w. bindM (create_directories P opts path w) (\<lambda>_. write_entry P objects opts ce path)) in
      if PATH_MAX < length path then Broken
      else (case px_lstat P path w of
          Stat_Ok st \<Rightarrow>
            (case ce_match_stat ce st of None \<Rightarrow> Ended (Bad_Mode (g_name ce)) w
             | Some changed \<Rightarrow>
               if changed = 0 then Gives (0, ce) w
               else if \<not> co_force opts then Gives (0, ce) w
               else (case px_unlink P path w of (_, w1) \<Rightarrow>
                 bindM (if S_ISDIR (st_mode st) then remove_subtree P path w1 else Gives () w1) (\<lambda>_. write)))
        | _ \<Rightarrow> if co_not_new opts then Gives (0, ce) w else write w))"

text \<open>The operations \<^verbatim>\<open>read-tree\<close> uses, with its \<^verbatim>\<open>struct checkout\<close>; the value of \<^verbatim>\<open>checkout_entry\<close> is ignored there.\<close>

definition read_tree_opts :: checkout_opts where
  "read_tree_opts = \<lparr>co_base_dir = [], co_force = True, co_not_new = False, co_refresh_cache = True\<rparr>"

definition entry_ops :: "'w posix \<Rightarrow> (bytes \<Rightarrow> (bytes \<times> bytes) option) \<Rightarrow> 'w tree_ops" where
  "entry_ops P objects = \<lparr>lstat_path = (\<lambda>w p. px_lstat P p w), unlink_path = (\<lambda>p w. snd (px_unlink P p w)),
     checkout_path = (\<lambda>ce w. bindM (checkout_entry P objects read_tree_opts ce w) (\<lambda>(_, ce). Gives ce))\<rparr>"

section \<open>The contract of checkout_entry\<close>

lemma keeps_entry_refl [simp]: "keeps_entry ce ce"
  by (simp add: keeps_entry_def)

lemma keeps_entry_stat [simp]: "keeps_entry ce (fill_stat_cache_info ce st)"
  by (simp add: keeps_entry_def fill_stat_cache_info_def)

lemma write_entry_keeps: "write_entry P objects opts ce path w = Gives (r, ce') w' \<Longrightarrow> keeps_entry ce ce'"
  by (auto simp: write_entry_def Let_def split: option.splits prod.splits if_splits lstat_result.splits)

lemma checkout_entry_keeps: "checkout_entry P objects opts ce w = Gives (r, ce') w' \<Longrightarrow> keeps_entry ce ce'"
  by (auto simp: checkout_entry_def Let_def bindM_Done_iff dest!: write_entry_keeps
      split: option.splits prod.splits if_splits lstat_result.splits)

interpretation entry: checkout "entry_ops P objects" for P objects
  by unfold_locales (auto simp: entry_ops_def bindM_Done_iff dest: checkout_entry_keeps)

text \<open>An entry whose file is up to date is left alone; so is every existing file without \<^verbatim>\<open>force\<close>.\<close>

lemma checkout_entry_untouched:
  assumes "px_lstat P (co_base_dir opts @ g_name ce) w = Stat_Ok st" "ce_match_stat ce st = Some changed" "changed = 0 \<or> \<not> co_force opts"
    and "length (co_base_dir opts @ g_name ce) \<le> PATH_MAX"
  shows "checkout_entry P objects opts ce w = Gives (0, ce) w"
  using assms by (auto simp: checkout_entry_def Let_def)

text \<open>The link target is copied into 1024 bytes whatever its length is.\<close>

lemma symlink_overflow:
  assumes "objects (g_sha1 ce) = Some (str ''blob'', target)" "g_mode ce AND S_IFMT = S_IFLNK" "1024 \<le> length target"
  shows "write_entry P objects opts ce path w = Broken"
  using assms by (simp add: write_entry_def Let_def S_IFLNK_def S_IFREG_def)

text \<open>The ways \<^verbatim>\<open>checkout_entry\<close> ends the process.\<close>

definition dies_in_checkout :: "('a, 'w) run \<Rightarrow> bool" where
  "dies_in_checkout r \<longleftrightarrow> (\<forall>d w'. r = Ended d w' \<longrightarrow> (\<exists>p. d = Checkout_Died p \<or> d = Bad_Mode p))"

lemma dies_simps [simp]: "dies_in_checkout (Gives a w)" "dies_in_checkout Broken" "dies_in_checkout (Ended (Checkout_Died p) w)"
  "dies_in_checkout (Ended (Bad_Mode p) w)"
  by (simp_all add: dies_in_checkout_def)

lemma dies_bind: "dies_in_checkout m \<Longrightarrow> (\<And>a w. dies_in_checkout (f a w)) \<Longrightarrow> dies_in_checkout (bindM m f)"
  by (cases m) (auto simp: dies_in_checkout_def)

lemma dies_create: "dies_in_checkout (create_directories P opts path w)"
proof -
  have "dies_in_checkout (create_directory P opts path len w)" for len w
    by (simp add: create_directory_def Let_def split: prod.split mkdir_result.split bool.split)
  then have "dies_in_checkout (create_directories_at P opts path lens w)" for lens
    by (induction lens arbitrary: w) (auto intro: dies_bind)
  then show ?thesis by (simp add: create_directories_def)
qed

lemma dies_remove: "dies_in_checkout (remove_subtree P path w)" "dies_in_checkout (remove_names P path names w)"
proof (induction P path w and P path names w rule: remove_subtree_remove_names.induct)
  case (1 P path w)
  then show ?case by (subst remove_subtree.simps) (auto split: option.split prod.split intro!: dies_bind)
next
  case (3 P path d ds w)
  then show ?case
    by (subst remove_names.simps) (auto simp: Let_def split: lstat_result.split prod.split intro!: dies_bind)
qed (simp add: remove_names.simps)

lemma dies_write: "dies_in_checkout (write_entry P objects opts ce path w)"
  by (simp add: write_entry_def Let_def split: option.split prod.split lstat_result.split)

lemma dies_checkout: "dies_in_checkout (checkout_path (entry_ops P objects) ce w)"
  by (auto simp: entry_ops_def checkout_entry_def Let_def dies_create dies_remove dies_write
      split: lstat_result.split option.split prod.split intro!: dies_bind)

end
