(* ===== verification/Git_Read_Tree.thy ===== *)
theory Git_Read_Tree
  imports Git_Checkout
begin

text \<open>
  The command \<^verbatim>\<open>git-read-tree\<close>: reading trees into the index (\<^verbatim>\<open>src/git-0.99.1/tree.c\<close>) and \<^verbatim>\<open>main\<close> of
  \<^verbatim>\<open>src/git-0.99.1/read-tree.c\<close>, which composes the index, the merge functions and the working tree.  The lookup of names
  (\<^verbatim>\<open>get_sha1\<close>) and the object store (\<^verbatim>\<open>read_sha1_file\<close>, \<^verbatim>\<open>read_object_with_reference\<close>) are parameters.
\<close>

section \<open>Trees (tree.c)\<close>

definition read_one_entry :: "bytes \<Rightarrow> bytes \<Rightarrow> bytes \<Rightarrow> u32 \<Rightarrow> nat \<Rightarrow> gindex \<Rightarrow> (int \<times> gindex) res" where
  "read_one_entry sha1 base pathname mode stage ix =
     g_add_cache_entry \<lparr>g_ctime = 0, g_ctime_nsec = 0, g_mtime = 0, g_mtime_nsec = 0, g_dev = 0, g_ino = 0,
       g_mode = create_ce_mode mode, g_uid = 0, g_gid = 0, g_size = 0, g_sha1 = sha1,
       g_flags = create_ce_flags (length base + length pathname) stage, g_name = base @ pathname\<rparr> True False True ix"

text \<open>\<open>None\<close> is the null pointer; the strings have no zero bytes, so that \<^verbatim>\<open>strncmp\<close> compares prefixes.\<close>

fun match_paths :: "bytes \<Rightarrow> bytes \<Rightarrow> u32 \<Rightarrow> bytes list \<Rightarrow> bool" where
  "match_paths base path mode [] = False"
| "match_paths base path mode (match # paths) =
     (let matchlen = length match; baselen = length base; pathlen = length path in
      if matchlen \<le> baselen then
        (if take matchlen base \<noteq> match then match_paths base path mode paths else True)
      else if base \<noteq> take baselen match then match_paths base path mode paths
      else
        (let match = drop baselen match; matchlen = matchlen - baselen in
         if matchlen < pathlen then match_paths base path mode paths
         else if pathlen < matchlen \<and> (match ! pathlen \<noteq> 47 \<or> \<not> S_ISDIR mode) then match_paths base path mode paths
         else if path \<noteq> take pathlen match then match_paths base path mode paths
         else True))"

definition match_tree_entry :: "bytes \<Rightarrow> bytes \<Rightarrow> u32 \<Rightarrow> bytes list option \<Rightarrow> bool" where
  "match_tree_entry base path mode paths = (case paths of None \<Rightarrow> True | Some ms \<Rightarrow> match_paths base path mode ms)"

text \<open>
  \<open>depth\<close> is the number of nested calls for which the stack has room.  The object has a NUL after its last byte; a name
  without a space in front of it is a null pointer.
\<close>

function read_tree_recursive ::
  "(bytes \<Rightarrow> (bytes \<times> bytes) option) \<Rightarrow> bytes list option \<Rightarrow> nat \<Rightarrow> nat \<Rightarrow> bytes \<Rightarrow> bytes \<Rightarrow> gindex \<Rightarrow> (int \<times> gindex) res" where
  "read_tree_recursive objects match stage depth base buffer ix =
     (if buffer = [] then Val (0, ix)
      else (let s = cstr buffer; len = length s + 1 in
        if length buffer < len + 20 then Val (-1, ix)
        else (case scan_unsigned 8 32 s of None \<Rightarrow> Val (-1, ix)
          | Some (m, _) \<Rightarrow>
            if 32 \<notin> set s then Null
            else (let path = tl (dropWhile (\<lambda>c. c \<noteq> 32) s); mode = of_nat m; sha1 = take 20 (drop len buffer) in
              if \<not> match_tree_entry base path mode match then
                read_tree_recursive objects match stage depth base (drop (len + 20) buffer) ix
              else if S_ISDIR mode then
                (case objects sha1 of None \<Rightarrow> Val (-1, ix)
                 | Some (type, elt) \<Rightarrow>
                   if type \<noteq> str ''tree'' then Val (-1, ix)
                   else if depth = 0 then Oob
                   else bindR (read_tree_recursive objects match stage (depth - 1) (base @ path @ [47]) elt ix) (\<lambda>(retval, ix1).
                     if retval \<noteq> 0 then Val (-1, ix1)
                     else read_tree_recursive objects match stage depth base (drop (len + 20) buffer) ix1))
              else bindR (read_one_entry sha1 base path mode stage ix) (\<lambda>(r, ix1).
                if r < 0 then Val (-1, ix1)
                else read_tree_recursive objects match stage depth base (drop (len + 20) buffer) ix1)))))"
  by pat_completeness auto
termination
  by (relation "measures [\<lambda>(objects, match, stage, depth, base, buffer, ix). depth,
        \<lambda>(objects, match, stage, depth, base, buffer, ix). length buffer]") auto

declare read_tree_recursive.simps [simp del]

definition g_read_tree :: "(bytes \<Rightarrow> (bytes \<times> bytes) option) \<Rightarrow> nat \<Rightarrow> bytes \<Rightarrow> nat \<Rightarrow> bytes list option \<Rightarrow> gindex \<Rightarrow> (int \<times> gindex) res" where
  "g_read_tree objects depth buffer stage match ix = read_tree_recursive objects match stage depth [] buffer ix"

section \<open>Two trees by a three-way merge (read-tree.c)\<close>

definition hoist_stage2 :: "gce \<Rightarrow> gce" where
  "hoist_stage2 ce = (if ce_stage ce \<noteq> 2 then ce else ce\<lparr>g_flags := create_ce_flags (ce_namelen ce) 3\<rparr>)"

text \<open>The end of the entries from \<open>i\<close> on that have the name of \<open>ce\<close>.\<close>

function skip_name :: "gce \<Rightarrow> gce list \<Rightarrow> nat \<Rightarrow> nat" where
  "skip_name ce es i =
     (if i < length es \<and> ce_namelen (es ! i) = ce_namelen ce \<and> memcmp (ce_namelen ce) (g_name (es ! i)) (g_name ce) = 0
      then skip_name ce es (i + 1) else i)"
  by pat_completeness auto
termination by (relation "measure (\<lambda>(ce, es, i). length es - i)") auto

declare skip_name.simps [simp del]

text \<open>
  The second loop of \<^verbatim>\<open>setup_emu23\<close>.  \<open>rounds\<close> bounds the number of rounds; \<open>None\<close> means that they are used up, and the
  flag is false when the index and the tree cannot be merged.
\<close>

fun emu23_loop :: "nat \<Rightarrow> nat \<Rightarrow> gindex \<Rightarrow> (bool \<times> gindex) res option" where
  "emu23_loop 0 i ix = None"
| "emu23_loop (Suc rounds) i ix =
     (if length (g_cache ix) \<le> i then Some (Val (True, ix))
      else (let ce = g_cache ix ! i in
        if 1 < ce_stage ce then emu23_loop rounds (i + 1) ix
        else (case g_add_cache_entry (ce\<lparr>g_flags := create_ce_flags (ce_namelen ce) 2\<rparr>) True False False ix of
            Val (r, ix1) \<Rightarrow>
              if r < 0 then Some (Val (False, ix1))
              else emu23_loop rounds (skip_name ce (g_cache ix1) i) ix1
          | Oob \<Rightarrow> Some Oob | Null \<Rightarrow> Some Null)))"

definition setup_emu23 :: "nat \<Rightarrow> gindex \<Rightarrow> (bool \<times> gindex) res option" where
  "setup_emu23 rounds ix = emu23_loop rounds 0 (ix\<lparr>g_cache := map hoist_stage2 (g_cache ix)\<rparr>)"

section \<open>The command (read-tree.c)\<close>

text \<open>\<^verbatim>\<open>read_cache_unmerged\<close> drops the entries of a merge under way and counts them.\<close>

definition read_cache_unmerged :: "bool \<Rightarrow> index_file \<Rightarrow> gindex \<Rightarrow> (nat \<times> gindex) res" where
  "read_cache_unmerged loaded file ix =
     bindR (g_read_cache loaded file ix) (\<lambda>(_, ix1).
       Val (length (filter (\<lambda>ce. ce_stage ce \<noteq> 0) (g_cache ix1)), ix1\<lparr>g_cache := filter (\<lambda>ce. ce_stage ce = 0) (g_cache ix1)\<rparr>))"

text \<open>What the command meets, and its global and local variables.\<close>

record 'w rt_env =
  rt_posix :: "'w posix"
  rt_objects :: "bytes \<Rightarrow> (bytes \<times> bytes) option"
  rt_get_sha1 :: "bytes \<Rightarrow> bytes option"
  rt_tree :: "bytes \<Rightarrow> bytes option"
  rt_depth :: nat
  rt_index :: index_file
  rt_lock :: bool
  rt_disk :: nat
  rt_commit :: bool

record rt_state =
  rt_update :: bool
  rt_stage :: nat
  rt_merge :: bool
  rt_emu23 :: bool
  rt_loaded :: bool
  rt_ix :: gindex

definition lift_res :: "'a res \<Rightarrow> 'w \<Rightarrow> ('a, 'w) run" where
  "lift_res r w = (case r of Val a \<Rightarrow> Gives a w | _ \<Rightarrow> Broken)"

text \<open>\<^verbatim>\<open>unpack_tree\<close>; the flag is false for -1.\<close>

definition unpack_tree :: "'w rt_env \<Rightarrow> nat \<Rightarrow> bytes \<Rightarrow> gindex \<Rightarrow> (bool \<times> gindex) res" where
  "unpack_tree E stage sha1 ix =
     (case rt_tree E sha1 of None \<Rightarrow> Val (False, ix)
      | Some buffer \<Rightarrow> bindR (g_read_tree (rt_objects E) (rt_depth E) buffer stage None ix) (\<lambda>(ret, ix1). Val (\<not> ret < 0, ix1)))"

definition start_merge :: "'w rt_env \<Rightarrow> bool \<Rightarrow> bool \<Rightarrow> rt_state \<Rightarrow> 'w \<Rightarrow> (rt_state, 'w) run" where
  "start_merge E reset emu s w =
     (if rt_stage s \<noteq> 0 \<or> rt_merge s \<or> rt_emu23 s then Ended Usage w
      else bindM (lift_res (read_cache_unmerged (rt_loaded s) (rt_index E) (rt_ix s)) w) (\<lambda>(deleted, ix) w.
        if \<not> reset \<and> deleted \<noteq> 0 then Ended Not_Resolved w
        else Gives (s\<lparr>rt_merge := True, rt_stage := 1, rt_emu23 := emu, rt_loaded := True, rt_ix := ix\<rparr>) w))"

fun rt_args :: "'w rt_env \<Rightarrow> bytes list \<Rightarrow> rt_state \<Rightarrow> 'w \<Rightarrow> (rt_state, 'w) run" where
  "rt_args E [] s w = Gives s w"
| "rt_args E (arg # args) s w =
     (if arg = str ''-u'' then rt_args E args (s\<lparr>rt_update := True\<rparr>) w
      else if arg = str ''--reset'' then bindM (start_merge E True False s w) (rt_args E args)
      else if arg = str ''-m'' then bindM (start_merge E False False s w) (rt_args E args)
      else if arg = str ''--emu23'' then bindM (start_merge E False True s w) (rt_args E args)
      else (case rt_get_sha1 E arg of None \<Rightarrow> Ended Usage w
        | Some sha1 \<Rightarrow>
          if 3 < rt_stage s then Ended Usage w
          else bindM (lift_res (unpack_tree E (rt_stage s) sha1 (rt_ix s)) w) (\<lambda>(ok, ix) w.
            if \<not> ok then Ended (Unpack_Failed arg) w
            else rt_args E args (s\<lparr>rt_stage := rt_stage s + 1, rt_loaded := True, rt_ix := ix\<rparr>) w)))"

definition merge_function_of :: "'w tree_ops \<Rightarrow> nat \<Rightarrow> 'w merge_fn" where
  "merge_function_of T n = (if n = 1 then oneway_merge T else if n = 2 then twoway_merge T else threeway_merge T)"

definition rt_do_merge :: "'w rt_env \<Rightarrow> rt_state \<Rightarrow> 'w \<Rightarrow> (gindex, 'w) run" where
  "rt_do_merge E s w =
     (let T = entry_ops (rt_posix E) (rt_objects E); stage = rt_stage s in
      if stage < 2 \<or> 4 < stage then Ended Bad_Trees w
      else if rt_emu23 s \<and> stage \<noteq> 3 then Ended Emu23_Trees w
      else if stage = 3 \<and> rt_emu23 s then
        (case setup_emu23 (2 * length (g_cache (rt_ix s)) + 1) (rt_ix s) of
           Some (Val (True, ix)) \<Rightarrow> merge_cache T (rt_update s) (merge_function_of T 3) ix w
         | Some (Val (False, ix)) \<Rightarrow> Ended Cannot_Merge_Index w
         | _ \<Rightarrow> Broken)
      else merge_cache T (rt_update s) (merge_function_of T (stage - 1)) (rt_ix s) w)"

text \<open>\<^verbatim>\<open>main\<close>; the value is the index file that replaces the old one.\<close>

definition rt_main :: "'w rt_env \<Rightarrow> bytes list \<Rightarrow> 'w \<Rightarrow> (bytes, 'w) run" where
  "rt_main E args w =
     (if \<not> rt_lock E then Ended No_Lock w
      else bindM (rt_args E args \<lparr>rt_update = False, rt_stage = 0, rt_merge = False, rt_emu23 = False, rt_loaded = False,
          rt_ix = \<lparr>g_cache = [], g_alloc = 0, g_changed = False\<rparr>\<rparr> w) (\<lambda>s w.
        if rt_update s \<and> \<not> rt_merge s then Ended Usage w
        else bindM (if rt_merge s then rt_do_merge E s w else Gives (rt_ix s) w) (\<lambda>ix w.
          case g_write_cache (rt_disk E) (g_cache ix) of
            Val (ok, ws) \<Rightarrow> if ok \<and> rt_commit E then Gives (w_out ws) w else Ended Write_Failed w
          | _ \<Rightarrow> Broken)))"

section \<open>Merging keeps local changes\<close>

interpretation entry_threeway: merging "threeway_merge (entry_ops P objects)" "entry_ops P objects" for P objects
  by unfold_locales

interpretation entry_twoway: merging "twoway_merge (entry_ops P objects)" "entry_ops P objects" for P objects
  by unfold_locales

interpretation entry_oneway: merging "oneway_merge (entry_ops P objects)" "entry_ops P objects" for P objects
  by unfold_locales

context checkout
begin

lemma check_updates_stages:
  assumes "check_updates T update es w = Gives es' w'" "\<forall>e\<in>set es. g_mode e = 0 \<longrightarrow> plain e"
  shows "stage_names k es' = stage_names k es"
proof -
  have "map stage_key es' = map stage_key es"
    using check_updates_keep [OF assms] by (intro nth_equalityI) (auto simp: list_all2_conv_all_nth keeps_entry_stage)
  then have "stage_key ` set es' = stage_key ` set es" by (metis list.set_map)
  moreover have "stage_names k xs = fst ` {x \<in> stage_key ` set xs. snd x = k}" for xs
    by (force simp: stage_names_def stage_key_def)
  ultimately show ?thesis by simp
qed

end

context careful_merge
begin

lemma merge_cache_keeps_old:
  assumes "mergeable (g_cache ix)" "length (g_cache ix) < g_alloc ix" "merge_cache T update fn ix w = Gives ix' w'"
    and "y \<in> set (g_cache ix)" "ce_stage y = 0"
  shows "y \<in> set (g_cache ix') \<or> uptodate T w y"
proof -
  obtain R where R: "merged fn w (g_cache ix) R" "check_updates T update R w = Gives (g_cache ix') w'"
    using merge_cache_steps [OF assms(1-3)] .
  have "plain y" using assms(1,4) by (simp add: mergeable_def)
  then show ?thesis using merged_keeps_old [OF R(1) assms(1,4,5)] check_updates_kept [OF R(2)] by blast
qed

end



text \<open>
  C13: When neither of the two branches (stages 2 and 3) has a file where it has a directory, the paths that
  a three-way merge resolves do not have one either, as the comment in \<^verbatim>\<open>threeway_merge\<close> argues.
\<close>

theorem threeway_no_df_conflict:
  assumes "mergeable (g_cache ix)" "length (g_cache ix) < g_alloc ix"
    and "df_free (stage_names 2 (g_cache ix))" "df_free (stage_names 3 (g_cache ix))"
    and "merge_cache (entry_ops P objects) update (threeway_merge (entry_ops P objects)) ix w = Gives ix' w'"
  shows "df_free (stage_names 0 (g_cache ix'))"
proof -
  obtain R where R: "merged (threeway_merge (entry_ops P objects)) w (g_cache ix) R"
    "check_updates (entry_ops P objects) update R w = Gives (g_cache ix') w'"
    using threeway.merge_cache_steps [OF assms(1,2,5)] .
  have "stage_names 0 (g_cache ix') = stage_names 0 R"
    using entry.check_updates_stages [OF R(2)] threeway.merged_outs [OF R(1) assms(1)] by blast
  then show ?thesis using merged_df_free [OF R(1) assms(1,3,4)] by simp
qed

section \<open>A refused merge\<close>

lemma still_loop: "(\<And>ss p w. still w (fn ss p w)) \<Longrightarrow> still w (merge_loop fn alloc tail arr dst src w)"
proof (induction fn alloc tail arr dst src w rule: merge_loop.induct)
  case (1 fn alloc tail arr dst src w)
  show ?case
  proof (cases "\<exists>ss src'. src < tail \<and> gather arr alloc (arr ! src) src (tail - src) (replicate 4 None) = Val (ss, src')")
    case False
    then show ?thesis by (subst merge_loop.simps) (auto split: res.split)
  next
    case True
    then obtain ss src' where g: "src < tail" "gather arr alloc (arr ! src) src (tail - src) (replicate 4 None) = Val (ss, src')" by blast
    let ?p = "\<lparr>m_arr = arr, m_dst = dst, m_next = src', m_tail = tail\<rparr>"
    have eq: "merge_loop fn alloc tail arr dst src w = (case fn ss ?p w of
        Gives (Some outs) w' \<Rightarrow> merge_loop fn alloc tail (store_entries arr dst outs) (dst + length outs) src' w'
      | Gives None w' \<Rightarrow> Ended (Would_Be_Overwritten (g_name (arr ! src))) w'
      | Ended d w' \<Rightarrow> Ended d w' | Broken \<Rightarrow> Broken)"
      using g by (simp add: merge_loop.simps [of fn alloc tail arr dst src])
    show ?thesis
    proof (cases "\<exists>outs. fn ss ?p w = Gives (Some outs) w")
      case True
      then obtain outs where f: "fn ss ?p w = Gives (Some outs) w" by blast
      have "still w (merge_loop fn alloc tail (store_entries arr dst outs) (dst + length outs) src' w)"
        using g(1) by (intro 1(1) [OF _ g(2) refl f refl 1(2)]) simp
      then show ?thesis unfolding eq by (simp add: f)
    next
      case False
      then show ?thesis unfolding eq using 1(2) [of w ss ?p] by (auto simp: still_def split: run.splits option.splits)
    qed
  qed
qed

lemma check_updates_dies: "dies_in_checkout (check_updates (entry_ops P objects) update es w)"
proof (induction es arbitrary: w)
  case (Cons ce ces)
  have "dies_in_checkout (check_update (entry_ops P objects) update ce w)"
    by (simp add: check_update_def Let_def dies_checkout)
  then show ?case using Cons by (auto intro!: dies_bind)
qed simp

text \<open>The working tree is as before, or the process ended in \<^verbatim>\<open>checkout_entry\<close>.\<close>

definition tree_kept :: "'w \<Rightarrow> ('a, 'w) run \<Rightarrow> bool" where
  "tree_kept w r \<longleftrightarrow> (\<forall>d w'. r = Ended d w' \<longrightarrow> w' = w \<or> (\<exists>p. d = Checkout_Died p \<or> d = Bad_Mode p))"

lemma tree_kept_still: "still w r \<Longrightarrow> tree_kept w r"
  by (auto simp: tree_kept_def)

lemma tree_kept_dies: "dies_in_checkout r \<Longrightarrow> tree_kept w r"
  by (auto simp: tree_kept_def dies_in_checkout_def)

lemma tree_kept_bind: "still w m \<Longrightarrow> (\<And>a. tree_kept w (f a w)) \<Longrightarrow> tree_kept w (bindM m f)"
  by (cases m) (auto simp: tree_kept_def)

lemma still_merge_function: "still w (merge_function_of T n ss p w)"
  by (simp add: merge_function_of_def still_oneway still_twoway still_threeway)

lemma tree_kept_merge:
  "tree_kept w (merge_cache (entry_ops P objects) update (merge_function_of (entry_ops P objects) n) ix w)"
proof -
  have d: "dies_in_checkout (bindM (check_updates (entry_ops P objects) update es w) (\<lambda>ces. Gives (f ces)))" for es f
    by (intro dies_bind check_updates_dies) simp
  show ?thesis unfolding merge_cache_def
    by (intro tree_kept_bind still_loop still_merge_function) (auto intro!: tree_kept_dies d split: prod.split)
qed

lemma still_lift [simp]: "still w (lift_res r w)"
  by (simp add: lift_res_def split: res.split)

lemma still_args: "still w (rt_args E args s w)"
proof (induction args arbitrary: s)
  case (Cons arg args)
  have m: "still w (start_merge E reset emu s w)" for reset emu
    by (auto simp: start_merge_def intro!: still_bind split: prod.split)
  show ?case using Cons m by (auto intro!: still_bind split: option.split prod.split)
qed simp

lemma tree_kept_do_merge: "tree_kept w (rt_do_merge E s w)"
  unfolding rt_do_merge_def Let_def
  by (auto simp: tree_kept_merge tree_kept_still split: option.split res.split prod.split bool.split)


section \<open>The index laid over the first tree\<close>

definition as_stage :: "nat \<Rightarrow> gce \<Rightarrow> gce" where
  "as_stage k ce = ce\<lparr>g_flags := create_ce_flags (ce_namelen ce) k\<rparr>"

lemma unat_create_ce_flags:
  assumes "len < 4096" "k < 4"
  shows "unat (create_ce_flags len k) = len + 4096 * k"
proof -
  have small: "\<not> bit (of_nat len :: u16) n" if "12 \<le> n" for n
  proof -
    have "unat (of_nat len :: u16) < 2 ^ 12" using assms(1) by (simp add: unat_of_nat)
    then show ?thesis using that unat_less_bits [of "of_nat len" 12] by simp
  qed
  have "(of_nat len :: u16) + push_bit 12 (of_nat k) = of_nat len OR push_bit 12 (of_nat k)"
  proof (rule disjunctive_add)
    fix n show "\<not> bit (of_nat len :: u16) n \<or> \<not> bit (push_bit 12 (of_nat k) :: u16) n"
      by (cases "12 \<le> n") (simp_all only: small bit_push_bit_iff simp_thms)
  qed
  then have "create_ce_flags len k = of_nat len + push_bit 12 (of_nat k)" by (simp only: create_ce_flags_def)
  also have "\<dots> = of_nat (len + 4096 * k)" by (simp add: push_bit_eq_mult mult.commute)
  finally show ?thesis using assms by (simp only: unat_of_nat) simp
qed

lemma as_stage_simps [simp]: "g_name (as_stage k ce) = g_name ce" "g_sha1 (as_stage k ce) = g_sha1 ce" "g_mode (as_stage k ce) = g_mode ce"
  by (simp_all add: as_stage_def)

lemma plain_as_stage:
  assumes "plain ce" "k < 4"
  shows "plain (as_stage k ce)" "ce_stage (as_stage k ce) = k" "gkey (as_stage k ce) = (g_name ce, length (g_name ce) + 4096 * k)"
proof -
  have len: "ce_namelen ce = length (g_name ce)" "length (g_name ce) < 4096"
    using assms(1) ce_namelen_less [of ce] by (auto simp: plain_def g_wf_def)
  have f: "unat (g_flags (as_stage k ce)) = length (g_name ce) + 4096 * k"
    using unat_create_ce_flags [OF len(2) assms(2)] by (simp add: as_stage_def len)
  show "ce_stage (as_stage k ce) = k" using f len(2) assms(2) by (simp add: flags_stage)
  show "plain (as_stage k ce)" using f len assms by (simp add: plain_def g_wf_def flags_namelen)
  show "gkey (as_stage k ce) = (g_name ce, length (g_name ce) + 4096 * k)" by (simp add: gkey_def f)
qed

lemma gkey_plain: "plain ce \<Longrightarrow> gkey ce = (g_name ce, length (g_name ce) + 4096 * ce_stage ce)"
  by (simp add: gkey_def plain_flags)

lemma hoist_stage2_eq: "hoist_stage2 ce = (if ce_stage ce = 2 then as_stage 3 ce else ce)"
  by (simp add: hoist_stage2_def as_stage_def)

text \<open>Adding an entry that is neither of stage 0 nor in conflict inserts it.\<close>

lemma g_add_inserts:
  assumes "g_inv ix" "g_addable ce" "ce_stage ce \<noteq> 0" "g_add_cache_entry ce True False False ix = Val (r, ix1)" "\<not> r < 0"
  shows "g_cache ix1 = insert_key gkey ce (g_cache ix)" "g_inv ix1"
proof -
  show inv: "g_inv ix1" using g_add_cache_entry_ok [OF assms(1,2), of True False False] assms(4) by auto
  let ?es = "g_cache ix"
  have s: "key_sorted gkey ?es" and wf: "g_wf ce" using assms(1,2) by (auto simp: g_inv_def g_addable_def)
  note pos = g_cache_name_pos_entry [OF assms(1) wf]
  show "g_cache ix1 = insert_key gkey ce ?es"
  proof (cases "gkey ce \<in> gkey ` set ?es")
    case True
    have "g_pos (gkey ce) ?es = int (key_pos gkey (gkey ce) ?es)" using True by (simp add: g_pos_def)
    then show ?thesis using assms(4) insert_key_present(1) [OF s True] by (auto simp: g_add_cache_entry_def pos)
  next
    case False
    note np = g_pos_absent [OF False]
    obtain c ix2 where c: "check_file_directory_conflict ce (key_pos gkey (gkey ce) ?es) False ix = Val (c, ix2)" "c = 0 \<longrightarrow> ix2 = ix"
      using check_conflict_removed [OF assms(1,2)] by blast
    have "c = 0" using assms(3-5) np c(1) by (auto simp: g_add_cache_entry_def pos Let_def split: if_splits)
    then have "insert_at ce (key_pos gkey (gkey ce) ?es) ix = Val ix1"
      using assms(3,4) np c by (auto simp: g_add_cache_entry_def pos Let_def bindR_Val_iff)
    then show ?thesis using insert_at_ok [OF assms(1) wf False refl] by auto
  qed
qed

lemma same_name_iff:
  "g_wf a \<Longrightarrow> g_wf b \<Longrightarrow>
    (ce_namelen a = ce_namelen b \<and> memcmp (ce_namelen b) (g_name a) (g_name b) = 0) \<longleftrightarrow> g_name a = g_name b"
  by (auto simp: g_wf_def memcmp_eq_0)

lemma skip_name_drop:
  "g_wf ce \<Longrightarrow> \<forall>e\<in>set es. g_wf e \<Longrightarrow> i \<le> length es \<Longrightarrow>
    i \<le> skip_name ce es i \<and> skip_name ce es i \<le> length es \<and> drop (skip_name ce es i) es = dropWhile (\<lambda>e. g_name e = g_name ce) (drop i es)"
proof (induction ce es i rule: skip_name.induct)
  case (1 ce es i)
  show ?case
  proof (cases "i < length es")
    case False
    then have "skip_name ce es i = i" by (subst skip_name.simps) simp
    then show ?thesis using False 1(4) by simp
  next
    case True
    then have d: "drop i es = es ! i # drop (i + 1) es" by (simp add: Cons_nth_drop_Suc)
    have "g_wf (es ! i)" using 1(3) True by simp
    note c = same_name_iff [OF this 1(2)]
    have e: "skip_name ce es i = (if i < length es \<and> g_name (es ! i) = g_name ce then skip_name ce es (i + 1) else i)"
      by (rule trans [OF skip_name.simps]) (simp only: c)
    show ?thesis
    proof (cases "g_name (es ! i) = g_name ce")
      case False
      then have "skip_name ce es i = i" unfolding e by simp
      then show ?thesis using True False d by simp
    next
      case m: True
      then have "skip_name ce es i = skip_name ce es (i + 1)" using True unfolding e by simp
      moreover have "i + 1 \<le> skip_name ce es (i + 1) \<and> skip_name ce es (i + 1) \<le> length es \<and>
          drop (skip_name ce es (i + 1)) es = dropWhile (\<lambda>e. g_name e = g_name ce) (drop (i + 1) es)"
        using True m by (intro 1(1) [OF _ 1(2,3)]) (metis c, simp)
      ultimately show ?thesis unfolding d using m by auto
    qed
  qed
qed

text \<open>What the loop makes of the entries from a position on.\<close>

function emu_spec :: "gce list \<Rightarrow> gce list" where
  "emu_spec [] = []"
| "emu_spec (ce # es) =
     (if 1 < ce_stage ce then ce # emu_spec es
      else insert_key gkey (as_stage 2 ce) (takeWhile (\<lambda>e. g_name e = g_name ce) (ce # es)) @
        emu_spec (dropWhile (\<lambda>e. g_name e = g_name ce) (ce # es)))"
  by pat_completeness auto
termination by (relation "measure length") (auto simp: le_imp_less_Suc length_dropWhile_le)

declare emu_spec.simps(2) [simp del]

definition emu_ready :: "gce list \<Rightarrow> bool" where
  "emu_ready es \<longleftrightarrow> key_sorted gkey es \<and> (\<forall>e\<in>set es. plain e \<and> g_addable e)"

lemma addable_as_stage: "plain ce \<Longrightarrow> g_addable ce \<Longrightarrow> k < 4 \<Longrightarrow> g_addable (as_stage k ce)"
  using plain_as_stage(1) [of ce k] by (simp add: g_addable_def plain_def)

lemma emu_ready_append: "emu_ready (xs @ ys) \<Longrightarrow> emu_ready ys"
  by (auto simp: emu_ready_def key_sorted_append)

lemma emu_ready_insert: "emu_ready es \<Longrightarrow> ce \<in> set es \<Longrightarrow> k < 4 \<Longrightarrow> emu_ready (insert_key gkey (as_stage k ce) es)"
  using plain_as_stage(1) [of ce k] addable_as_stage [of ce k]
  by (auto simp: emu_ready_def set_insert_key key_sorted_insert_key)

lemma insert_key_append_left:
  "\<forall>x\<in>set xs. key x < key e \<Longrightarrow> insert_key key e (xs @ ys) = xs @ insert_key key e ys"
  by (auto simp: insert_key_def filter_id_conv filter_empty_conv)

lemma insert_key_append_right:
  "\<forall>y\<in>set ys. key e < key y \<Longrightarrow> insert_key key e (xs @ ys) = insert_key key e xs @ ys"
  by (auto simp: insert_key_def filter_id_conv filter_empty_conv)

lemma emu_ready_names: "emu_ready es \<Longrightarrow> sorted (map g_name es)"
  by (induction es) (auto simp: emu_ready_def key_sorted_Cons gkey_def)

lemma insert_into_group:
  assumes "emu_ready (ce # es)" "ce_stage ce \<le> 1"
  defines "like \<equiv> \<lambda>e. g_name e = g_name ce"
  shows "insert_key gkey (as_stage 2 ce) (ce # es) = insert_key gkey (as_stage 2 ce) (takeWhile like (ce # es)) @ dropWhile like (ce # es)"
    and "dropWhile like (insert_key gkey (as_stage 2 ce) (ce # es)) = dropWhile like (ce # es)"
proof -
  let ?G = "takeWhile like (ce # es)" and ?R = "dropWhile like (ce # es)" and ?s = "as_stage 2 ce"
  have "sorted (map g_name (ce # es))" by (rule emu_ready_names [OF assms(1)])
  then have gt: "g_name ce < g_name x" if "x \<in> set ?R" for x
    using dropWhile_greater [of g_name "ce # es" "g_name ce" x] that by (auto simp: like_def)
  have pl: "plain ce" "\<forall>x\<in>set (ce # es). plain x" using assms(1) by (auto simp: emu_ready_def)
  have "\<forall>x\<in>set ?R. gkey ?s < gkey x" using gt plain_as_stage(3) [OF pl(1), of 2] by (auto simp: gkey_def)
  from insert_key_append_right [OF this, of ?G]
  show c: "insert_key gkey ?s (ce # es) = insert_key gkey ?s ?G @ ?R" unfolding takeWhile_dropWhile_id .
  have "like x" if "x \<in> set ?G" for x using set_takeWhileD [OF that] by simp
  moreover have "like ?s" by (simp add: like_def)
  ultimately have "x \<in> set (insert_key gkey ?s ?G) \<Longrightarrow> like x" for x unfolding set_insert_key by blast
  then have "dropWhile like (insert_key gkey ?s ?G @ ?R) = dropWhile like ?R" by (rule dropWhile_append2)
  then show "dropWhile like (insert_key gkey ?s (ce # es)) = ?R" unfolding c by (simp only: dropWhile_idem)
qed

lemma emu_add:
  assumes "g_inv ix" "emu_ready (g_cache ix)" "i < length (g_cache ix)" "ce = g_cache ix ! i" "ce_stage ce \<le> 1"
    and "D = drop i (g_cache ix)" "like = (\<lambda>e. g_name e = g_name ce)"
    and "g_add_cache_entry (as_stage 2 ce) True False False ix = Val (r, ix1)" "\<not> r < 0" "j = skip_name ce (g_cache ix1) i"
  shows "g_inv ix1" "emu_ready (g_cache ix1)" "j \<le> length (g_cache ix1)" "drop j (g_cache ix1) = dropWhile like D"
    "take j (g_cache ix1) = take i (g_cache ix) @ insert_key gkey (as_stage 2 ce) (takeWhile like D)"
proof -
  let ?es = "g_cache ix" and ?es1 = "g_cache ix1" and ?s = "as_stage 2 ce"
  have D: "D = ce # drop (i + 1) ?es" using assms(3,4,6) by (simp add: Cons_nth_drop_Suc)
  have es: "take i ?es @ D = ?es" by (simp add: assms(6))
  have mem: "ce \<in> set ?es" using assms(3,4) by simp
  then have ce: "plain ce" "g_addable ce" using assms(2) by (auto simp: emu_ready_def)
  have rd: "emu_ready D" using assms(2) es emu_ready_append by metis
  have ad: "g_addable ?s" "ce_stage ?s \<noteq> 0" using ce addable_as_stage plain_as_stage(2) [OF ce(1), of 2] by auto
  note ins = g_add_inserts [OF assms(1) ad assms(8,9)]
  show "g_inv ix1" by (rule ins(2))
  show rd1: "emu_ready ?es1" unfolding ins(1) by (rule emu_ready_insert [OF assms(2) mem]) simp
  have "\<forall>x\<in>set (take i ?es). gkey x < gkey ce" using assms(2) es D unfolding emu_ready_def by (metis key_sorted_append list.set_intros(1))
  moreover have "gkey ce < gkey ?s" using plain_as_stage(3) [OF ce(1), of 2] gkey_plain [OF ce(1)] assms(5) by simp
  ultimately have "insert_key gkey ?s (take i ?es @ D) = take i ?es @ insert_key gkey ?s D"
    by (intro insert_key_append_left) (auto intro: less_trans)
  then have es1: "?es1 = take i ?es @ insert_key gkey ?s D" unfolding ins(1) es .
  note grp = insert_into_group [of ce "drop (i + 1) ?es", folded D assms(7), OF rd assms(5)]
  have wf: "g_wf ce" "\<forall>e\<in>set ?es1. g_wf e" using ce rd1 by (auto simp: emu_ready_def plain_def)
  have "i \<le> length ?es1" using assms(3) by (simp add: es1)
  note skip = skip_name_drop [OF wf this, folded assms(7,10)]
  show "j \<le> length ?es1" using skip by simp
  have "drop i ?es1 = insert_key gkey ?s D" using assms(3) by (simp add: es1)
  then show dj: "drop j ?es1 = dropWhile like D" using skip grp(2) by simp
  have "take j ?es1 @ dropWhile like D = (take i ?es @ insert_key gkey ?s (takeWhile like D)) @ dropWhile like D"
    using append_take_drop_id [of j ?es1] unfolding dj using es1 grp(1) by simp
  then show "take j ?es1 = take i ?es @ insert_key gkey ?s (takeWhile like D)" by simp
qed

lemma emu_loop_spec:
  "g_inv ix \<Longrightarrow> emu_ready (g_cache ix) \<Longrightarrow> i \<le> length (g_cache ix) \<Longrightarrow> length (g_cache ix) - i < rounds \<Longrightarrow>
    \<exists>ok ix'. emu23_loop rounds i ix = Some (Val (ok, ix')) \<and>
      (ok \<longrightarrow> g_inv ix' \<and> g_cache ix' = take i (g_cache ix) @ emu_spec (drop i (g_cache ix)))"
proof (induction rounds arbitrary: i ix)
  case (Suc rounds)
  let ?es = "g_cache ix"
  show ?case
  proof (cases "i < length ?es")
    case False
    then show ?thesis using Suc.prems by (intro exI [of _ True]) simp
  next
    case True
    let ?ce = "?es ! i"
    have D: "drop i ?es = ?ce # drop (i + 1) ?es" using True by (simp add: Cons_nth_drop_Suc)
    show ?thesis
    proof (cases "1 < ce_stage ?ce")
      case high: True
      have "emu23_loop (Suc rounds) i ix = emu23_loop rounds (i + 1) ix" using True high by simp
      moreover have "take i ?es @ emu_spec (drop i ?es) = take (i + 1) ?es @ emu_spec (drop (i + 1) ?es)"
        unfolding D using True high by (simp add: emu_spec.simps(2) take_Suc_conv_app_nth)
      ultimately show ?thesis using Suc.IH [OF Suc.prems(1,2), of "i + 1"] Suc.prems(4) True by simp
    next
      case low: False
      then have st: "ce_stage ?ce \<le> 1" by simp
      have ce: "plain ?ce" "g_addable ?ce" using Suc.prems(2) True by (auto simp: emu_ready_def)
      obtain r ix1 where a: "g_add_cache_entry (as_stage 2 ?ce) True False False ix = Val (r, ix1)"
        using g_add_cache_entry_ok [OF Suc.prems(1) addable_as_stage [OF ce], of 2] by fastforce
      let ?j = "skip_name ?ce (g_cache ix1) i"
      have step: "emu23_loop (Suc rounds) i ix = (if r < 0 then Some (Val (False, ix1)) else emu23_loop rounds ?j ix1)"
        using True low a by (simp add: as_stage_def)
      show ?thesis
      proof (cases "r < 0")
        case neg: False
        note add = emu_add [OF Suc.prems(1,2) True refl st refl refl a neg refl]
        have "length (g_cache ix1) - ?j = length (dropWhile (\<lambda>e. g_name e = g_name ?ce) (drop i ?es))"
          using arg_cong [OF add(4), of length] by simp
        also have "\<dots> \<le> length (drop (i + 1) ?es)" unfolding D using length_dropWhile_le [of _ "drop (i + 1) ?es"] by simp
        also have "\<dots> < rounds" using Suc.prems(4) True by simp
        finally show ?thesis using Suc.IH [OF add(1,2,3)] low unfolding step add(4,5) D by (simp add: neg emu_spec.simps(2))
      next
        case True
        then show ?thesis unfolding step by (intro exI [of _ False]) simp
      qed
    qed
  qed
qed simp

text \<open>The entry that stands for a name in the index laid over the first tree.\<close>

definition overlaid :: "gce list \<Rightarrow> gce \<Rightarrow> bool" where
  "overlaid es e \<longleftrightarrow> e \<in> set es \<and> ce_stage e \<le> 1 \<and> (\<forall>x\<in>set es. g_name x = g_name e \<longrightarrow> ce_stage e \<le> ce_stage x)"

lemma emu_spec_set:
  "emu_ready es \<Longrightarrow> \<forall>e\<in>set es. ce_stage e \<noteq> 2 \<Longrightarrow> set (emu_spec es) = set es \<union> as_stage 2 ` {e. overlaid es e}"
proof (induction es rule: emu_spec.induct)
  case (2 ce es)
  have pl: "plain ce" "\<forall>x\<in>set es. plain x \<and> gkey ce < gkey x" using 2(3) by (auto simp: emu_ready_def key_sorted_Cons)
  have later: "ce_stage ce < ce_stage x" if "x \<in> set es" "g_name x = g_name ce" for x
    using pl that gkey_plain [of ce] gkey_plain [of x] by auto
  show ?case
  proof (cases "1 < ce_stage ce")
    case True
    have "overlaid (ce # es) e \<longleftrightarrow> overlaid es e" for e using True later by (force simp: overlaid_def)
    then show ?thesis using 2(1) [OF True] 2(3,4) emu_ready_append [of "[ce]" es] True by (simp add: emu_spec.simps(2))
  next
    case False
    let ?like = "\<lambda>e. g_name e = g_name ce"
    let ?G = "takeWhile ?like (ce # es)" and ?R = "dropWhile ?like (ce # es)"
    have all: "set ?G \<union> set ?R = set (ce # es)" unfolding set_append [symmetric] takeWhile_dropWhile_id ..
    have G: "g_name x = g_name ce" if "x \<in> set ?G" for x using set_takeWhileD [OF that] by simp
    have "sorted (map g_name (ce # es))" using 2(3) by (rule emu_ready_names)
    then have R: "g_name ce < g_name x" if "x \<in> set ?R" for x
      using dropWhile_greater [of g_name "ce # es" "g_name ce" x] that by auto
    have ov: "overlaid (ce # es) e \<longleftrightarrow> e = ce \<or> overlaid ?R e" for e
    proof (cases "g_name e = g_name ce")
      case True
      then have "e \<notin> set ?R" using R by force
      then show ?thesis using later [of e] True \<open>\<not> 1 < ce_stage ce\<close> later by (force simp: overlaid_def)
    next
      case False
      then have "x \<in> set ?R \<longleftrightarrow> x \<in> set (ce # es)" if "g_name x = g_name e" for x using all G that by (metis Un_iff)
      then show ?thesis using False unfolding overlaid_def by metis
    qed
    have k: "gkey x \<noteq> gkey (as_stage 2 ce)" if "x \<in> set (ce # es)" for x
      using that 2(3,4) gkey_plain [of x] plain_as_stage(3) [OF pl(1), of 2] by (auto simp: emu_ready_def)
    have ins: "set (insert_key gkey (as_stage 2 ce) ?G) = insert (as_stage 2 ce) (set ?G)"
      using k all unfolding set_insert_key by blast
    have "emu_ready (?G @ ?R)" using 2(3) unfolding takeWhile_dropWhile_id .
    then have "emu_ready ?R" by (rule emu_ready_append)
    moreover have "\<forall>e\<in>set ?R. ce_stage e \<noteq> 2" using 2(4) all by blast
    ultimately have ih: "set (emu_spec ?R) = set ?R \<union> as_stage 2 ` {e. overlaid ?R e}" using 2(2) [OF False] by blast
    have "set (emu_spec (ce # es)) = insert (as_stage 2 ce) (set ?G) \<union> (set ?R \<union> as_stage 2 ` {e. overlaid ?R e})"
      unfolding emu_spec.simps(2) if_not_P [OF False] set_append ins ih ..
    also have "\<dots> = set (ce # es) \<union> as_stage 2 ` {e. overlaid (ce # es) e}" unfolding all [symmetric] ov by blast
    finally show ?thesis .
  qed
qed (simp add: overlaid_def)

lemma hoist_ready:
  assumes "key_sorted gkey es" "\<forall>e\<in>set es. plain e \<and> g_addable e \<and> ce_stage e \<le> 2"
  shows "emu_ready (map hoist_stage2 es)" "\<forall>e\<in>set (map hoist_stage2 es). ce_stage e \<noteq> 2"
proof -
  have h: "plain (hoist_stage2 e)" "g_addable (hoist_stage2 e)" "ce_stage (hoist_stage2 e) = (if ce_stage e = 2 then 3 else ce_stage e)"
    "g_name (hoist_stage2 e) = g_name e" if "e \<in> set es" for e
    using that assms(2) plain_as_stage [of e 3] addable_as_stage [of e 3] by (auto simp: hoist_stage2_eq)
  have "gkey (hoist_stage2 a) < gkey (hoist_stage2 b)" if "a \<in> set es" "b \<in> set es" "gkey a < gkey b" for a b
    using that(3) h [OF that(1)] h [OF that(2)] assms(2) that(1,2) gkey_plain [of a] gkey_plain [of b]
      gkey_plain [of "hoist_stage2 a"] gkey_plain [of "hoist_stage2 b"] by auto
  moreover have "sorted_wrt (\<lambda>a b. gkey a < gkey b) es" using assms(1) by (simp add: key_sorted_def sorted_wrt_map)
  ultimately have "sorted_wrt (\<lambda>a b. gkey (hoist_stage2 a) < gkey (hoist_stage2 b)) es" by (rule sorted_wrt_mono_rel)
  then show "emu_ready (map hoist_stage2 es)" using h by (simp add: emu_ready_def key_sorted_def sorted_wrt_map comp_def)
  show "\<forall>e\<in>set (map hoist_stage2 es). ce_stage e \<noteq> 2" using h by simp
qed

lemma overlaid_hoist:
  assumes "\<forall>e\<in>set es. plain e \<and> ce_stage e \<le> 2"
  shows "overlaid (map hoist_stage2 es) e \<longleftrightarrow> overlaid es e"
proof -
  have st: "ce_stage (hoist_stage2 x) = (if ce_stage x = 2 then 3 else ce_stage x)" "g_name (hoist_stage2 x) = g_name x" if "x \<in> set es" for x
    using that assms plain_as_stage(2) [of x 3] by (auto simp: hoist_stage2_eq)
  have "e \<in> set (map hoist_stage2 es) \<and> ce_stage e \<le> 1 \<longleftrightarrow> e \<in> set es \<and> ce_stage e \<le> 1"
    using st by (force simp: hoist_stage2_eq image_iff)
  moreover have "(\<forall>x\<in>set (map hoist_stage2 es). g_name x = g_name e \<longrightarrow> ce_stage e \<le> ce_stage x) \<longleftrightarrow>
      (\<forall>x\<in>set es. g_name x = g_name e \<longrightarrow> ce_stage e \<le> ce_stage x)" if "ce_stage e \<le> 1"
    using st that by (auto split: if_splits)
  ultimately show ?thesis unfolding overlaid_def by blast
qed

text \<open>
  C14: On an index at stage 0 with two trees at stages 1 and 2, the loops of \<^verbatim>\<open>setup_emu23\<close> end within
  one round more than there are entries; unless they report a conflict, the second tree is then at stage 3 and stage 2
  holds exactly the index laid over the first tree: for every name the entry of the index, or else that of the tree.
\<close>

theorem setup_emu23_overlay:
  assumes "g_inv ix" "\<forall>e\<in>set (g_cache ix). plain e \<and> g_addable e \<and> ce_stage e \<le> 2" "length (g_cache ix) < rounds"
  shows "\<exists>ok ix'. setup_emu23 rounds ix = Some (Val (ok, ix')) \<and> (ok \<longrightarrow> g_inv ix' \<and>
    set (g_cache ix') = {e \<in> set (g_cache ix). ce_stage e \<le> 1} \<union> as_stage 2 ` {e. overlaid (g_cache ix) e} \<union>
      as_stage 3 ` {e \<in> set (g_cache ix). ce_stage e = 2})"
proof -
  let ?es = "g_cache ix" and ?ix = "ix\<lparr>g_cache := map hoist_stage2 (g_cache ix)\<rparr>"
  have s: "key_sorted gkey ?es" using assms(1) by (simp add: g_inv_def)
  note ready = hoist_ready [OF s assms(2)]
  have "g_inv ?ix" using ready(1) assms(1) by (auto simp: g_inv_def emu_ready_def plain_def)
  then obtain ok ix' where r: "setup_emu23 rounds ix = Some (Val (ok, ix'))"
      "ok \<longrightarrow> g_inv ix' \<and> g_cache ix' = emu_spec (map hoist_stage2 ?es)"
    using emu_loop_spec [of ?ix 0 rounds] ready(1) assms(3) by (auto simp: setup_emu23_def)
  have "overlaid (map hoist_stage2 ?es) e \<longleftrightarrow> overlaid ?es e" for e using assms(2) by (intro overlaid_hoist) auto
  then have "set (emu_spec (map hoist_stage2 ?es)) = hoist_stage2 ` set ?es \<union> as_stage 2 ` {e. overlaid ?es e}"
    using emu_spec_set [OF ready] by simp
  moreover have "hoist_stage2 ` set ?es = {e \<in> set ?es. ce_stage e \<le> 1} \<union> as_stage 3 ` {e \<in> set ?es. ce_stage e = 2}"
    using assms(2) by (force simp: hoist_stage2_eq image_iff)
  ultimately show ?thesis using r by auto
qed

section \<open>Examples\<close>

text \<open>A system in which no file exists and nothing can be made, and an index with one name.\<close>

definition bare_posix :: "unit posix" where
  "bare_posix = \<lparr>px_lstat = (\<lambda>_ _. Stat_Enoent), px_stat = (\<lambda>_ _. None), px_unlink = (\<lambda>_ w. (False, w)),
     px_mkdir = (\<lambda>_ w. (Mkdir_Failed, w)), px_rmdir = (\<lambda>_ w. (False, w)), px_readdir = (\<lambda>_ _. None),
     px_create = (\<lambda>_ _ w. (False, w)), px_write = (\<lambda>_ _ w. (0, w)), px_symlink = (\<lambda>_ _ w. (False, w))\<rparr>"

definition bare_ops :: "unit tree_ops" where
  "bare_ops = entry_ops bare_posix (\<lambda>_. None)"

definition stage_index :: "nat list \<Rightarrow> gindex" where
  "stage_index ks = \<lparr>g_cache = map (\<lambda>k. as_stage k (toy_gce [97])) ks, g_alloc = 24, g_changed = False\<rparr>"

lemma toy_plain: "plain (toy_gce [97])"
  by (simp add: plain_def toy_wf create_ce_flags_def)

lemma toy_stage [simp]: "k < 4 \<Longrightarrow> ce_stage (as_stage k (toy_gce [97])) = k" "k < 4 \<Longrightarrow> plain (as_stage k (toy_gce [97]))"
  using plain_as_stage [OF toy_plain] by auto

lemma toy_mergeable: "sorted_wrt (<) ks \<Longrightarrow> \<forall>k\<in>set ks. k < 4 \<Longrightarrow> mergeable (g_cache (stage_index ks))"
  using plain_as_stage(3) [OF toy_plain]
  by (induction ks) (auto simp: mergeable_def stage_index_def key_sorted_Cons toy_gce_mode)

text \<open>A merge of one entry.\<close>

lemma merge_single:
  assumes "g_cache ix = [e]" "1 < g_alloc ix" "length outs = 1"
    and "fn ((replicate 4 None)[ce_stage e := Some e]) \<lparr>m_arr = [e], m_dst = 0, m_next = 1, m_tail = 1\<rparr> w = Gives (Some outs) w1"
  shows "merge_cache T update fn ix w = bindM (check_updates T update outs w1) (\<lambda>ces. Gives (ix\<lparr>g_cache := ces\<rparr>))"
proof -
  have "gather [e] (g_alloc ix) e 0 (Suc 0) (replicate 4 None) = Val ((replicate 4 None)[ce_stage e := Some e], 1)"
    using assms(2) by (simp del: replicate_Suc)
  then have "merge_loop fn (g_alloc ix) 1 [e] 0 0 w = merge_loop fn (g_alloc ix) 1 (store_entries [e] 0 outs) 1 1 w1"
    using assms(3,4) by (subst merge_loop.simps) simp
  also have "\<dots> = Gives (store_entries [e] 0 outs, 1) w1" by (simp add: merge_loop.simps)
  finally show ?thesis using assms(1,3) by (simp add: merge_cache_def store_entries_def)
qed

lemma twoway_example: "merge_cache bare_ops False (twoway_merge bare_ops) (stage_index [0]) () = Gives (stage_index [0]) ()"
proof -
  let ?e = "as_stage 0 (toy_gce [97])"
  have f: "twoway_merge bare_ops ((replicate 4 None)[ce_stage ?e := Some ?e]) p () = Gives (Some [?e]) ()" for p
    by (simp add: twoway_merge_def numeral_eq_Suc)
  have "merge_cache bare_ops False (twoway_merge bare_ops) (stage_index [0]) () =
      bindM (check_updates bare_ops False [?e] ()) (\<lambda>ces. Gives ((stage_index [0])\<lparr>g_cache := ces\<rparr>))"
    by (rule merge_single [where fn = "twoway_merge bare_ops", OF _ _ _ f]) (simp_all add: stage_index_def)
  then show ?thesis
    using plain_no_update_flag [of ?e] by (simp add: check_update_def toy_gce_mode stage_index_def)
qed



text \<open>A name that only the second branch has becomes an entry of the index.\<close>

lemma threeway_example:
  "\<exists>ix'. merge_cache bare_ops False (threeway_merge bare_ops) (stage_index [3]) () = Gives ix' ()"
proof -
  let ?e = "as_stage 3 (toy_gce [97])"
  obtain e' where f: "threeway_merge bare_ops ((replicate 4 None)[ce_stage ?e := Some ?e])
      \<lparr>m_arr = [?e], m_dst = 0, m_next = 1, m_tail = 1\<rparr> () = Gives (Some [e']) ()"
    by (simp add: threeway_merge_def numeral_eq_Suc same_opt_def causes_df_conflict_def merged_entry_allow_dirty_def
        merged_entry_internal_def)
  have "merge_cache bare_ops False (threeway_merge bare_ops) (stage_index [3]) () =
      bindM (check_updates bare_ops False [e'] ()) (\<lambda>ces. Gives ((stage_index [3])\<lparr>g_cache := ces\<rparr>))"
    by (rule merge_single [where fn = "threeway_merge bare_ops", OF _ _ _ f]) (simp_all add: stage_index_def)
  then show ?thesis by (simp add: check_update_def)
qed

theorem threeway_no_df_conflict_witness:
  "\<exists>ix'. merge_cache bare_ops False (threeway_merge bare_ops) (stage_index [3]) () = Gives ix' () \<and> df_free (stage_names 0 (g_cache ix'))"
proof -
  obtain ix' where m: "merge_cache bare_ops False (threeway_merge bare_ops) (stage_index [3]) () = Gives ix' ()"
    using threeway_example by blast
  have "df_free (stage_names 0 (g_cache ix'))"
  proof (rule threeway_no_df_conflict)
    show "mergeable (g_cache (stage_index [3]))" by (rule toy_mergeable) simp_all
    show "merge_cache (entry_ops bare_posix (\<lambda>_. None)) False (threeway_merge (entry_ops bare_posix (\<lambda>_. None))) (stage_index [3]) () = Gives ix' ()"
      using m by (simp add: bare_ops_def)
  qed (auto simp: stage_index_def df_free_def stage_names_def below_path_def)
  then show ?thesis using m by blast
qed

text \<open>Merging no tree at all is refused.\<close>

definition bare_env :: "unit rt_env" where
  "bare_env = \<lparr>rt_posix = bare_posix, rt_objects = (\<lambda>_. None), rt_get_sha1 = (\<lambda>_. None), rt_tree = (\<lambda>_. None), rt_depth = 10,
     rt_index = No_File, rt_lock = True, rt_disk = 1000, rt_commit = True\<rparr>"


theorem setup_emu23_overlay_witness:
  "\<exists>ok ix'. setup_emu23 4 (stage_index [0, 1, 2]) = Some (Val (ok, ix')) \<and> (ok \<longrightarrow> g_inv ix' \<and>
    set (g_cache ix') = {e \<in> set (g_cache (stage_index [0, 1, 2])). ce_stage e \<le> 1} \<union>
      as_stage 2 ` {e. overlaid (g_cache (stage_index [0, 1, 2])) e} \<union>
      as_stage 3 ` {e \<in> set (g_cache (stage_index [0, 1, 2])). ce_stage e = 2})"
proof (rule setup_emu23_overlay)
  have "mergeable (g_cache (stage_index [0, 1, 2]))" by (rule toy_mergeable) simp_all
  then show "g_inv (stage_index [0, 1, 2])" by (auto simp: g_inv_def mergeable_def plain_def stage_index_def)
  have "g_addable (toy_gce [97])" by (simp add: g_addable_def toy_wf)
  then show "\<forall>e\<in>set (g_cache (stage_index [0, 1, 2])). plain e \<and> g_addable e \<and> ce_stage e \<le> 2"
    by (simp add: stage_index_def addable_as_stage toy_plain)
qed (simp add: stage_index_def)

text \<open>An array that is full makes the merge read behind its end.\<close>

theorem merge_cache_overread:
  assumes "mergeable (g_cache ix)" "g_cache ix \<noteq> []" "length (g_cache ix) = g_alloc ix" "1 \<le> n" "n \<le> 3"
  shows "\<not> (\<exists>ix' w'. merge_cache T update (merge_function_of T n) ix w = Gives ix' w')"
proof -
  have "merge_function (merge_function_of T n)"
    using oneway.merge_function_axioms [of T] twoway.merge_function_axioms [of T] threeway.merge_function_axioms [of T]
    by (simp add: merge_function_of_def)
  moreover have "0 < g_alloc ix" using assms(2,3) by (metis length_greater_0_conv)
  ultimately have "merge_loop (merge_function_of T n) (g_alloc ix) (length (g_cache ix)) (g_cache ix) 0 0 w \<noteq> Gives r w'" for r w'
    using merge_function.loop_overread [of "merge_function_of T n" 0 "g_cache ix" "g_alloc ix" 0 w] assms(1,3) by simp
  then show ?thesis by (auto simp: merge_cache_def bindM_Done_iff)
qed

end
