(* ===== verification/Git_Objects.thy ===== *)
theory Git_Objects
  imports Objects Git_Index_File
begin

text \<open>
  The object database of the bundled git 0.99.1, \<^verbatim>\<open>src/git-0.99.1/sha1_file.c\<close>: naming, finding, unpacking and writing loose
  objects.  The files are a map from paths to contents.  zlib is a parameter, and so is what the packs hold; the SHA-1 is the
  one of theory \<open>Git_Sha1\<close>.
\<close>

section \<open>Libraries and files\<close>

text \<open>
  The bytes that a stream decodes to and what comes after them: the end of the stream, an error, or the end of the input.
  Memory that \<^verbatim>\<open>malloc\<close> or the stack has not been given a value has unknown bytes.
\<close>

datatype zend = Stream_End | Data_Error | Input_End

record zlib =
  z_deflate :: "bytes list \<Rightarrow> bytes"
  z_bound :: "nat \<Rightarrow> nat"
  z_inflate :: "bytes \<Rightarrow> bytes \<times> zend"
  z_malloc :: "nat \<Rightarrow> bool"
  z_junk :: "nat \<Rightarrow> byte"

definition zlib_laws :: "zlib \<Rightarrow> bool" where
  "zlib_laws Z \<longleftrightarrow> (\<forall>xs. z_inflate Z (z_deflate Z xs) = (concat xs, Stream_End) \<and> z_deflate Z xs \<noteq> [] \<and>
     length (z_deflate Z xs) \<le> z_bound Z (length (concat xs)))"

text \<open>
  The directory of the objects, the variable with the alternates, the packs, and the behaviour of the system calls:
  which files can be read, whether \<^verbatim>\<open>open\<close> of a missing file fails with \<^verbatim>\<open>ENOENT\<close>, the name that \<^verbatim>\<open>mkstemp\<close> finds, how much
  \<^verbatim>\<open>write\<close> takes, whether \<^verbatim>\<open>link\<close> fails for another reason than that the name is taken, and whether \<^verbatim>\<open>rename\<close> works.
\<close>

datatype link_fault = Link_Works | Link_EXDEV | Link_Fails

type_synonym files = "bytes \<Rightarrow> bytes option"

record od_sys =
  s_objdir :: bytes
  s_alt :: bytes
  s_packs :: "bytes \<Rightarrow> (bytes \<times> bytes) option"
  s_readable :: "bytes \<Rightarrow> bool"
  s_noent :: "bytes \<Rightarrow> bool"
  s_tmp :: "files \<Rightarrow> bytes option"
  s_room :: nat
  s_link :: link_fault
  s_rename :: bool

section \<open>Finding objects\<close>

text \<open>\<^verbatim>\<open>fill_sha1_path\<close> into the buffer of a directory.\<close>

definition fill_sha1_path :: "nat \<Rightarrow> bytes \<Rightarrow> bytes \<Rightarrow> bytes" where
  "fill_sha1_path nm sha1 base = fold (sha1_name_step nm sha1) [0..<20] base"

definition g_sha1_file_name :: "od_sys \<Rightarrow> bytes \<Rightarrow> bytes" where
  "g_sha1_file_name S sha1 =
     (let len = length (s_objdir S) in
      cstr (fill_sha1_path (len + 1) sha1 ((s_objdir S @ replicate 60 0)[len := 47, len + 3 := 47])))"

text \<open>\<^verbatim>\<open>prepare_alt_odb\<close>: the elements of the variable that are not empty; a run of colons separates two of them.\<close>

function alt_dirs :: "bytes \<Rightarrow> bytes list" where
  "alt_dirs alt =
     (let d = takeWhile (\<lambda>c. c \<noteq> 58) alt; cp = dropWhile (\<lambda>c. c = 58) (dropWhile (\<lambda>c. c \<noteq> 58) alt) in
      (if d \<noteq> [] then [d] else []) @ (if cp = [] then [] else alt_dirs cp))"
  by pat_completeness auto
termination
proof (relation "measure length")
  fix alt d cp :: bytes assume "d = takeWhile (\<lambda>c. c \<noteq> 58) alt" and cp: "cp = dropWhile (\<lambda>c. c = 58) (dropWhile (\<lambda>c. c \<noteq> 58) alt)" "cp \<noteq> []"
  let ?r = "dropWhile (\<lambda>c. c \<noteq> 58) alt"
  have "?r \<noteq> []" using cp by (metis dropWhile.simps(1))
  then have "hd ?r = 58" using hd_dropWhile [of "\<lambda>c. c \<noteq> 58" alt] by blast
  with \<open>?r \<noteq> []\<close> have "length cp < length ?r" using cp(1) length_dropWhile_le [of "\<lambda>c. c = 58" "tl ?r"]
    by (cases ?r) (auto simp: le_imp_less_Suc)
  also have "length ?r \<le> length alt" by (rule length_dropWhile_le)
  finally show "(cp, alt) \<in> measure length" by simp
qed simp

declare alt_dirs.simps [simp del]

text \<open>The path of an object below an alternate directory: a buffer of 43 bytes more than the name of the directory.\<close>

definition alt_name :: "bytes \<Rightarrow> bytes \<Rightarrow> bytes" where
  "alt_name dir sha1 =
     (let len = length dir in cstr (fill_sha1_path (len + 1) sha1 ((dir @ replicate 43 0)[len := 47, len + 3 := 47])))"

definition find_sha1_file :: "od_sys \<Rightarrow> files \<Rightarrow> bytes \<Rightarrow> bytes option" where
  "find_sha1_file S fl sha1 =
     (if fl (g_sha1_file_name S sha1) \<noteq> None then Some (g_sha1_file_name S sha1)
      else find (\<lambda>f. fl f \<noteq> None) (map (\<lambda>dir. alt_name dir sha1) (alt_dirs (s_alt S))))"

definition has_sha1_pack :: "od_sys \<Rightarrow> bytes \<Rightarrow> bool" where
  "has_sha1_pack S sha1 \<longleftrightarrow> s_packs S sha1 \<noteq> None"

definition has_sha1_file :: "od_sys \<Rightarrow> files \<Rightarrow> bytes \<Rightarrow> bool" where
  "has_sha1_file S fl sha1 \<longleftrightarrow> has_sha1_pack S sha1 \<or> find_sha1_file S fl sha1 \<noteq> None"

text \<open>\<^verbatim>\<open>mmap\<close> of an empty file fails.\<close>

definition map_sha1_file_internal :: "od_sys \<Rightarrow> files \<Rightarrow> bytes \<Rightarrow> bytes option" where
  "map_sha1_file_internal S fl sha1 =
     (case find_sha1_file S fl sha1 of None \<Rightarrow> None
      | Some filename \<Rightarrow>
        if \<not> s_readable S filename then None
        else (case fl filename of Some m \<Rightarrow> if m = [] then None else Some m | None \<Rightarrow> None))"

section \<open>Unpacking\<close>

text \<open>A value, the null pointer, the call of \<^verbatim>\<open>die\<close> when there is no memory, or an access outside of a buffer.\<close>

datatype 'a obj = Got 'a | Missing | Dies | Wild

text \<open>\<^verbatim>\<open>unpack_sha1_header\<close>: whether inflating failed, the number of bytes, and the buffer.\<close>

definition unpack_sha1_header :: "zlib \<Rightarrow> nat \<Rightarrow> bytes \<Rightarrow> bool \<times> nat \<times> bytes" where
  "unpack_sha1_header Z sz m =
     (case z_inflate Z m of (out, e) \<Rightarrow>
        (let n = min sz (length out) in
         (length out < sz \<and> (e = Data_Error \<or> e = Input_End \<and> m = []), n, take n out @ map (z_junk Z) [n..<sz])))"

fun parse_type :: "nat \<Rightarrow> bytes \<Rightarrow> bytes \<Rightarrow> (bytes \<times> bytes) option res" where
  "parse_type i [] type = Oob"
| "parse_type i (c # hdr) type =
     (if c = 32 then Val (Some (type, hdr))
      else if i \<le> 1 then Val None
      else parse_type (i - 1) hdr (type @ [c]))"

definition hdr_digit :: "byte \<Rightarrow> u64" where
  "hdr_digit c = scast c - 48"

fun parse_size :: "u64 \<Rightarrow> bytes \<Rightarrow> (u64 \<times> bytes) res" where
  "parse_size sz [] = Oob"
| "parse_size sz (c # hdr) =
     (if 9 < hdr_digit c then Val (sz, c # hdr) else parse_size (sz * 10 + hdr_digit c) hdr)"

definition parse_sha1_header :: "bytes \<Rightarrow> (bytes \<times> u64) option res" where
  "parse_sha1_header hdr =
     bindR (parse_type 10 hdr []) (\<lambda>r.
       case r of None \<Rightarrow> Val None
       | Some (type, []) \<Rightarrow> Oob
       | Some (type, c # hdr) \<Rightarrow>
         if 9 < hdr_digit c then Val None
         else bindR (if hdr_digit c \<noteq> 0 then parse_size (hdr_digit c) hdr else Val (0, hdr)) (\<lambda>(sz, rest).
           case rest of [] \<Rightarrow> Oob | c # _ \<Rightarrow> Val (if c \<noteq> 0 then None else Some (cstr type, sz))))"

text \<open>
  \<^verbatim>\<open>unpack_sha1_rest\<close>: what has been inflated behind the header is copied into a block of one byte more than the size from
  the header, whatever its length.  The loop that inflates the rest stops at an error too.
\<close>

definition unpack_sha1_rest :: "zlib \<Rightarrow> bytes \<Rightarrow> nat \<Rightarrow> bytes \<Rightarrow> u64 \<Rightarrow> bytes obj" where
  "unpack_sha1_rest Z out tot hdr sz =
     (let bytes = length (cstr hdr) + 1; n = tot - bytes; n0 = unat sz in
      if length hdr < bytes then Wild
      else if \<not> z_malloc Z (unat (1 + sz)) then Dies
      else if tot < bytes \<or> unat (1 + sz) < n \<or> 1 + sz = 0 then Wild
      else (let data = take n (drop bytes hdr) @ take (n0 - n) (drop tot out) in
            Got (take n0 data @ map (z_junk Z) [length (take n0 data)..<n0])))"

definition unpack_sha1_file :: "zlib \<Rightarrow> bytes \<Rightarrow> (bytes \<times> bytes) obj" where
  "unpack_sha1_file Z m =
     (case unpack_sha1_header Z 8192 m of (bad, tot, hdr) \<Rightarrow>
        if bad then Missing
        else (case parse_sha1_header hdr of Val None \<Rightarrow> Missing
          | Val (Some (type, sz)) \<Rightarrow>
            (case unpack_sha1_rest Z (fst (z_inflate Z m)) tot hdr sz of
               Got buf \<Rightarrow> Got (type, buf) | Missing \<Rightarrow> Missing | Dies \<Rightarrow> Dies | Wild \<Rightarrow> Wild)
          | _ \<Rightarrow> Wild))"

definition g_read_sha1_file :: "od_sys \<Rightarrow> zlib \<Rightarrow> files \<Rightarrow> bytes \<Rightarrow> (bytes \<times> bytes) obj" where
  "g_read_sha1_file S Z fl sha1 =
     (case s_packs S sha1 of Some x \<Rightarrow> Got x
      | None \<Rightarrow> (case map_sha1_file_internal S fl sha1 of None \<Rightarrow> Missing | Some m \<Rightarrow> unpack_sha1_file Z m))"

definition check_sha1_signature :: "bytes \<Rightarrow> bytes \<Rightarrow> bytes \<Rightarrow> bool res" where
  "check_sha1_signature sha1 m type =
     (let header = type @ 32 # fmt_dec (length m) @ [0] in
      if 100 < length header then Oob
      else Val (sha1 = fst (SHA1_Final (SHA1_Update (SHA1_Update SHA1_Init header) m))))"

section \<open>Writing\<close>

text \<open>\<^verbatim>\<open>write_sha1_file_prepare\<close>: the name and the header, which is written into a buffer of 50 bytes.\<close>

definition write_sha1_file_prepare :: "bytes \<Rightarrow> bytes \<Rightarrow> (bytes \<times> bytes) res" where
  "write_sha1_file_prepare buf type =
     (let hdr = type @ 32 # fmt_dec (length buf) @ [0] in
      if 50 < length hdr then Oob
      else Val (fst (SHA1_Final (SHA1_Update (SHA1_Update SHA1_Init hdr) buf)), hdr))"

text \<open>The link of the temporary file to its name; the value of \<^verbatim>\<open>ret\<close> and whether the function returns at once.\<close>

definition move_temp :: "od_sys \<Rightarrow> bytes \<Rightarrow> bytes \<Rightarrow> files \<Rightarrow> int \<times> files" where
  "move_temp S tmpfile filename fl =
     (case s_link S of
        Link_EXDEV \<Rightarrow>
          if s_rename S then (0, fl(filename := fl tmpfile, tmpfile := None)) else (-1, fl(tmpfile := None))
      | Link_Fails \<Rightarrow> (-1, fl(tmpfile := None))
      | Link_Works \<Rightarrow>
          if fl filename \<noteq> None then (0, fl(tmpfile := None))
          else (0, fl(filename := fl tmpfile, tmpfile := None)))"

text \<open>\<^verbatim>\<open>write_sha1_file\<close>: the value returned, or \<open>None\<close> for the calls of \<^verbatim>\<open>die\<close>, and the name of the object.\<close>

definition g_write_sha1_file :: "od_sys \<Rightarrow> zlib \<Rightarrow> bytes \<Rightarrow> bytes \<Rightarrow> files \<Rightarrow> (int option \<times> bytes \<times> files) res" where
  "g_write_sha1_file S Z buf type fl =
     bindR (write_sha1_file_prepare buf type) (\<lambda>(sha1, hdr).
       let filename = g_sha1_file_name S sha1 in
       Val (if has_sha1_file S fl sha1 then (Some 0, sha1, fl)
         else if fl filename \<noteq> None \<and> s_readable S filename then (Some 0, sha1, fl)
         else if fl filename \<noteq> None \<or> \<not> s_noent S filename then (Some (-1), sha1, fl)
         else (case s_tmp S fl of None \<Rightarrow> (Some (-1), sha1, fl)
           | Some tmpfile \<Rightarrow>
             (let size = sint (of_nat (z_bound Z (length buf + length hdr)) :: 32 word) in
              if size < 0 \<or> \<not> z_malloc Z (nat size) then (None, sha1, fl(tmpfile := Some []))
              else (let compressed = take (nat size) (z_deflate Z [hdr, buf]) in
                if s_room S < length compressed then (None, sha1, fl(tmpfile := Some (take (s_room S) compressed)))
                else (case move_temp S tmpfile filename (fl(tmpfile := Some compressed)) of (r, fl') \<Rightarrow> (Some r, sha1, fl')))))))"

text \<open>\<^verbatim>\<open>index_fd\<close> of a file that can be mapped.\<close>

definition g_index_fd :: "od_sys \<Rightarrow> zlib \<Rightarrow> bytes \<Rightarrow> bool \<Rightarrow> bool \<Rightarrow> bytes option \<Rightarrow> files \<Rightarrow> (int option \<times> bytes \<times> files) res" where
  "g_index_fd S Z data mapped write_object type fl =
     (if data \<noteq> [] \<and> \<not> mapped then Val (Some (-1), [], fl)
      else (let t = (case type of None \<Rightarrow> str ''blob'' | Some t \<Rightarrow> t) in
        if write_object then g_write_sha1_file S Z data t fl
        else bindR (write_sha1_file_prepare data t) (\<lambda>(sha1, _). Val (Some 0, sha1, fl))))"

section \<open>Names\<close>

definition obj_name :: "bytes \<Rightarrow> bytes \<Rightarrow> bytes" where
  "obj_name dir sha1 = dir @ 47 # hex2 (hd sha1) @ 47 # concat (map hex2 (tl sha1))"

definition object_name :: "bytes \<times> bytes \<Rightarrow> bytes" where
  "object_name x = sha1_bytes (frame (fst x) (snd x))"

lemma length_object_name [simp]: "length (object_name x) = 20"
  by (simp add: object_name_def sha1_bytes_def SHA1_fips length_sha1_fips)

lemma g_sha1_file_name_eq: "length sha1 = 20 \<Longrightarrow> no_nul (s_objdir S) \<Longrightarrow> g_sha1_file_name S sha1 = obj_name (s_objdir S) sha1"
  using sha1_file_name_eq [of sha1 "s_objdir S"]
  by (simp add: g_sha1_file_name_def fill_sha1_path_def obj_name_def sha1_file_name_def sha1_name_base_def Let_def)

lemma alt_name_eq:
  assumes "length sha1 = 20" "no_nul dir"
  shows "alt_name dir sha1 = obj_name dir sha1"
proof -
  have "fold (sha1_name_step (length dir + 1) sha1) [0..<20] ((dir @ replicate 43 0)[length dir := 47, length dir + 3 := 47]) =
      obj_name dir sha1 @ replicate 1 0"
    using assms(1)
    by (elim list20) (simp add: upt_20 sha1_name_step_def obj_name_def hex2_def list_update_append numeral_eq_Suc)
  moreover have "no_nul (obj_name dir sha1)" using assms(2) by (auto simp: obj_name_def)
  ultimately show ?thesis by (simp add: alt_name_def fill_sha1_path_def Let_def)
qed

lemma length_obj_name: "length sha1 = 20 \<Longrightarrow> length (obj_name dir sha1) = length dir + 42"
  by (cases sha1) (auto simp: obj_name_def length_concat comp_def sum_list_triv)

lemma obj_name_inj:
  assumes "obj_name d m = obj_name e n" "length m = 20" "length n = 20"
  shows "m = n"
proof -
  have "length d = length e" using arg_cong [OF assms(1), of length] length_obj_name assms(2,3) by simp
  then have "hex2 (hd m) @ 47 # concat (map hex2 (tl m)) = hex2 (hd n) @ 47 # concat (map hex2 (tl n))"
    using assms(1) by (simp add: obj_name_def)
  then have "concat (map hex2 m) = concat (map hex2 n)" using assms(2,3) by (cases m; cases n) auto
  then have "sha1_to_hex m = sha1_to_hex n" using assms(2,3) by (simp add: sha1_to_hex_concat)
  with assms(2,3) show ?thesis by (auto intro: sha1_hex.enc_inj)
qed

text \<open>A name that \<^verbatim>\<open>mkstemp\<close> makes from \<^verbatim>\<open>obj_XXXXXX\<close> is not the name of an object.\<close>

definition temp_name :: "od_sys \<Rightarrow> bytes \<Rightarrow> bool" where
  "temp_name S t \<longleftrightarrow> (\<exists>x. length x = 6 \<and> t = s_objdir S @ str ''/obj_'' @ x)"

lemma temp_not_object:
  assumes "temp_name S t" "length n = 20"
  shows "t \<noteq> obj_name d n"
proof
  assume eq: "t = obj_name d n"
  obtain x where x: "length x = 6" "t = s_objdir S @ str ''/obj_'' @ x" using assms(1) by (auto simp: temp_name_def)
  have "t ! (length t - 7) = 95" using x by (simp add: nth_append)
  moreover have "t ! (length t - 7) \<in> set (drop (length d + 4) (obj_name d n))"
    using eq length_obj_name [OF assms(2), of d] by (auto simp: in_set_conv_nth intro!: exI [of _ 31])
  moreover have "drop (length d + 4) (obj_name d n) = concat (map hex2 (tl n))" by (simp add: obj_name_def)
  moreover have "x \<in> set hex_table" if "x \<in> set (hex2 v)" for x v using that by (auto simp: hex2_def)
  ultimately have "(95 :: byte) \<in> set hex_table" by auto
  then show False by (simp add: hex_table_def)
qed

section \<open>Headers\<close>

lemma parse_type_ok:
  "length t < i \<Longrightarrow> 32 \<notin> set t \<Longrightarrow> parse_type i (t @ 32 # rest) acc = Val (Some (acc @ t, rest))"
  by (induction t arbitrary: i acc) auto

lemma hdr_digit_char [simp]: "d < 10 \<Longrightarrow> hdr_digit (digit_char d) = of_nat d"
proof -
  assume "d < 10"
  then have "d \<in> {0, 1, 2, 3, 4, 5, 6, 7, 8, 9}" by auto
  then show ?thesis by (auto simp: hdr_digit_def digit_char_def)
qed

lemma hdr_digit_0 [simp]: "9 < hdr_digit 0"
  by (simp add: hdr_digit_def)

definition hdr_value :: "u64 \<Rightarrow> bytes \<Rightarrow> u64" where
  "hdr_value v ds = foldl (\<lambda>v c. v * 10 + hdr_digit c) v ds"

lemma parse_size_digits:
  "\<forall>c\<in>set ds. \<exists>d<10. c = digit_char d \<Longrightarrow> parse_size v (ds @ 0 # rest) = Val (hdr_value v ds, 0 # rest)"
proof (induction ds arbitrary: v)
  case (Cons c ds)
  then obtain d where d: "d < 10" "c = digit_char d" by auto
  then have "\<not> 9 < hdr_digit c" by (auto simp: word_less_nat_alt unat_of_nat)
  then show ?case using Cons by (simp add: hdr_value_def)
qed (simp add: hdr_value_def)

lemma hdr_value_digits: "hdr_value 0 (digits 10 n) = of_nat n"
proof (induction n rule: less_induct)
  case (less n)
  show ?case
  proof (cases "n < 10")
    case False
    then have "hdr_value 0 (digits 10 (n div 10)) = of_nat (n div 10)" by (intro less) simp
    then have "hdr_value 0 (digits 10 n) = of_nat (n div 10) * 10 + of_nat (n mod 10)"
      using False by (subst digits.simps) (simp add: hdr_value_def)
    also have "\<dots> = of_nat (n div 10 * 10 + n mod 10)" by (simp only: of_nat_add of_nat_mult of_nat_numeral)
    finally show ?thesis by (simp only: div_mult_mod_eq)
  qed (subst digits.simps, simp add: hdr_value_def)
qed

lemma digits_first: "0 < n \<Longrightarrow> \<exists>d ds. digits 10 n = digit_char d # ds \<and> 0 < d \<and> d < 10"
proof (induction n rule: less_induct)
  case (less n)
  show ?case
  proof (cases "n < 10")
    case False
    then have "0 < n div 10" by (simp add: div_greater_zero_iff)
    then obtain d ds where "digits 10 (n div 10) = digit_char d # ds" "0 < d" "d < 10" using less.IH [of "n div 10"] False by fastforce
    then show ?thesis using False by (subst digits.simps) auto
  qed (subst digits.simps, use less(2) in auto)
qed

definition g_type_ok :: "bytes \<Rightarrow> bool" where
  "g_type_ok t \<longleftrightarrow> length t \<le> 9 \<and> no_nul t \<and> 32 \<notin> set t"

lemma parse_sha1_header_frame:
  assumes "g_type_ok t"
  shows "parse_sha1_header (t @ 32 # fmt_dec n @ 0 # rest) = Val (Some (t, of_nat n))"
proof -
  have t: "parse_type 10 (t @ 32 # fmt_dec n @ 0 # rest) [] = Val (Some (t, fmt_dec n @ 0 # rest))" "cstr t = t"
    using assms parse_type_ok [of t 10] by (auto simp: g_type_ok_def)
  show ?thesis
  proof (cases "n = 0")
    case True
    have "digits 10 0 = [digit_char 0]" by (subst digits.simps) simp
    then show ?thesis using t True by (simp add: parse_sha1_header_def)
  next
    case False
    then obtain d ds where d: "fmt_dec n = digit_char d # ds" "0 < d" "d < 10" using digits_first by blast
    have all: "\<forall>c\<in>set ds. \<exists>d<10. c = digit_char d" using set_digits [of 10 _ n] d(1) by simp
    have "hdr_value (of_nat d) ds = hdr_value 0 (fmt_dec n)" using d by (simp add: hdr_value_def)
    then have v: "hdr_value (of_nat d) ds = of_nat n" by (simp add: hdr_value_digits)
    have "(of_nat d :: u64) \<noteq> 0" "\<not> 9 < (of_nat d :: u64)"
      using d by (auto simp: word_less_nat_alt unat_of_nat word_unat_eq_iff)
    then show ?thesis using t d v parse_size_digits [OF all, of "of_nat d" rest] by (simp add: parse_sha1_header_def)
  qed
qed

section \<open>Unpacking what was written\<close>

lemma frame_header_length:
  assumes "g_type_ok t" "length body < 2 ^ 64"
  shows "length (t @ 32 # fmt_dec (length body) @ [0]) \<le> 31"
proof -
  have "length body < 10 ^ 20" using assms(2) by simp
  then have "length (fmt_dec (length body)) \<le> 20" by (intro length_digits_le) auto
  with assms(1) show ?thesis by (simp add: g_type_ok_def)
qed

lemma unpack_sha1_file_frame:
  assumes "zlib_laws Z" "g_type_ok t" "length body < 2 ^ 64 - 1" "z_malloc Z (length body + 1)"
  shows "unpack_sha1_file Z (z_deflate Z [t @ 32 # fmt_dec (length body) @ [0], body]) = Got (t, body)"
proof -
  let ?h = "t @ 32 # fmt_dec (length body)"
  let ?m = "z_deflate Z [t @ 32 # fmt_dec (length body) @ [0], body]"
  define k where "k = min (8192 - length (?h @ [0])) (length body)"
  have hl: "length (?h @ [0]) \<le> 31" using frame_header_length [OF assms(2), of body] assms(3) by simp
  have out: "z_inflate Z ?m = (?h @ 0 # body, Stream_End)" using assms(1) by (simp add: zlib_laws_def)
  define tot where "tot = length ?h + 1 + k"
  define hdr where "hdr = ?h @ 0 # take k body @ map (z_junk Z) [tot..<8192]"
  have tot: "tot = min 8192 (length (?h @ 0 # body))" using hl by (auto simp: tot_def k_def)
  have "take tot (?h @ 0 # body) = ?h @ 0 # take k body" by (simp add: tot_def)
  then have uh: "unpack_sha1_header Z 8192 ?m = (False, tot, hdr)"
    unfolding unpack_sha1_header_def out Let_def prod.case tot [symmetric] by (simp add: hdr_def del: take_append)
  have nn: "no_nul ?h" using assms(2) by (simp add: g_type_ok_def)
  have c: "cstr hdr = ?h" unfolding hdr_def using cstr_append_nul [OF nn] by simp
  have p: "parse_sha1_header hdr = Val (Some (t, of_nat (length body)))"
    unfolding hdr_def using parse_sha1_header_frame [OF assms(2)] by simp
  let ?sz = "of_nat (length body) :: u64"
  have sz: "unat ?sz = length body" using assms(3) by (simp add: unat_of_nat)
  have "1 + ?sz = of_nat (Suc (length body))" by simp
  then have sz1: "unat (1 + ?sz) = length body + 1" using assms(3) by (simp only: unat_of_nat) simp
  have nz: "1 + ?sz \<noteq> 0" using sz1 by (metis unat_0 add_eq_0_iff_both_eq_0 zero_neq_one)
  have k: "k \<le> length body" "length hdr = 8192" using hl by (auto simp: k_def hdr_def tot_def)
  have "take (tot - (length ?h + 1)) (drop (length ?h + 1) hdr) @
      take (length body - (tot - (length ?h + 1))) (drop tot (?h @ 0 # body)) = body"
    using k by (simp add: hdr_def tot_def)
  then have r: "unpack_sha1_rest Z (?h @ 0 # body) tot hdr ?sz = Got body"
    unfolding unpack_sha1_rest_def Let_def c sz sz1 using assms(4) k nz hl by (simp add: tot_def)
  show ?thesis using uh p r out by (simp add: unpack_sha1_file_def)
qed

section \<open>A store of objects\<close>

text \<open>
  What the file system promises (the names of \<^verbatim>\<open>mkstemp\<close> are new, files that exist can be read), and that every object
  there is belongs to a set on which the SHA-1 has no collisions, and can be read.
\<close>

definition sys_ok :: "od_sys \<Rightarrow> bool" where
  "sys_ok S \<longleftrightarrow> no_nul (s_objdir S) \<and> no_nul (s_alt S) \<and> (\<forall>f. s_readable S f) \<and>
     (\<forall>fl t. s_tmp S fl = Some t \<longrightarrow> fl t = None \<and> temp_name S t)"

definition od_sound :: "od_sys \<Rightarrow> zlib \<Rightarrow> (bytes \<times> bytes) set \<Rightarrow> files \<Rightarrow> bool" where
  "od_sound S Z U fl \<longleftrightarrow> zlib_laws Z \<and> sys_ok S \<and> inj_on object_name U \<and>
     (\<forall>n. length n = 20 \<longrightarrow> has_sha1_file S fl n \<longrightarrow> (\<exists>x\<in>U. object_name x = n \<and> g_read_sha1_file S Z fl n = Got x))"

definition od_get :: "od_sys \<Rightarrow> zlib \<Rightarrow> files \<Rightarrow> bytes \<Rightarrow> (bytes \<times> bytes) option" where
  "od_get S Z fl n = (if length n \<noteq> 20 then None else (case g_read_sha1_file S Z fl n of Got x \<Rightarrow> Some x | _ \<Rightarrow> None))"

text \<open>An object whose size the program can handle.\<close>

definition packable :: "zlib \<Rightarrow> bytes \<times> bytes \<Rightarrow> bool" where
  "packable Z x \<longleftrightarrow> (case x of (t, b) \<Rightarrow> g_type_ok t \<and> length b < 2 ^ 64 - 1 \<and> z_malloc Z (length b + 1) \<and>
     z_bound Z (length (frame t b)) < 2 ^ 31)"

definition od_put :: "od_sys \<Rightarrow> zlib \<Rightarrow> (bytes \<times> bytes) set \<Rightarrow> bytes \<times> bytes \<Rightarrow> files \<Rightarrow> bytes \<Rightarrow> files \<Rightarrow> bool" where
  "od_put S Z U x fl n fl' \<longleftrightarrow> x \<in> U \<and> packable Z x \<and> g_write_sha1_file S Z (snd x) (fst x) fl = Val (Some 0, n, fl')"

lemma no_nul_alt_dirs: "no_nul alt \<Longrightarrow> d \<in> set (alt_dirs alt) \<Longrightarrow> no_nul d"
proof (induction alt rule: alt_dirs.induct)
  case (1 alt)
  define cp where "cp = dropWhile (\<lambda>c. c = 58) (dropWhile (\<lambda>c. c \<noteq> 58) alt)"
  have ih: "no_nul cp \<Longrightarrow> cp \<noteq> [] \<Longrightarrow> d \<in> set (alt_dirs cp) \<Longrightarrow> no_nul d" by (rule 1(1) [OF refl cp_def])
  have "set cp \<subseteq> set alt" unfolding cp_def by (blast dest: set_dropWhileD)
  then have cp: "no_nul cp" using 1(2) by blast
  have hd: "no_nul (takeWhile (\<lambda>c. c \<noteq> 58) alt)" using 1(2) by (blast dest: set_takeWhileD)
  have "alt_dirs alt = (if takeWhile (\<lambda>c. c \<noteq> 58) alt \<noteq> [] then [takeWhile (\<lambda>c. c \<noteq> 58) alt] else []) @ (if cp = [] then [] else alt_dirs cp)"
    unfolding cp_def by (subst alt_dirs.simps) (simp only: Let_def)
  with 1(3) have "d = takeWhile (\<lambda>c. c \<noteq> 58) alt \<or> cp \<noteq> [] \<and> d \<in> set (alt_dirs cp)" by (simp split: if_splits)
  with ih cp hd show ?case by blast
qed

text \<open>The search looks at the paths of the name only.\<close>

lemma find_sha1_file_cong:
  assumes "sys_ok S" "length m = 20" "\<And>d. fl' (obj_name d m) = fl (obj_name d m)"
  shows "find_sha1_file S fl' m = find_sha1_file S fl m" "map_sha1_file_internal S fl' m = map_sha1_file_internal S fl m"
proof -
  have alt: "alt_name d m = obj_name d m" if "d \<in> set (alt_dirs (s_alt S))" for d
    using that assms(1,2) no_nul_alt_dirs by (intro alt_name_eq) (auto simp: sys_ok_def)
  have own: "g_sha1_file_name S m = obj_name (s_objdir S) m" using assms(1,2) by (intro g_sha1_file_name_eq) (auto simp: sys_ok_def)
  have find_eq: "find (\<lambda>f. fl' f \<noteq> None) ps = find (\<lambda>f. fl f \<noteq> None) ps" if "\<forall>p\<in>set ps. fl' p = fl p" for ps
    using that by (induction ps) auto
  show f: "find_sha1_file S fl' m = find_sha1_file S fl m"
    unfolding find_sha1_file_def own assms(3) by (subst find_eq) (auto simp: alt assms(3))
  have "\<exists>d. p = obj_name d m" if found: "find_sha1_file S fl m = Some p" for p
    proof -
    consider "p = g_sha1_file_name S m" | "p \<in> set (map (\<lambda>dir. alt_name dir m) (alt_dirs (s_alt S)))"
      using found by (cases "fl (g_sha1_file_name S m) = None") (auto simp: find_sha1_file_def find_Some_iff)
    then show ?thesis using alt own by cases auto
  qed
  then show "map_sha1_file_internal S fl' m = map_sha1_file_internal S fl m"
    unfolding map_sha1_file_internal_def f using assms(3) by (auto split: option.splits)
qed

lemma g_write_cases:
  assumes "sys_ok S" "packable Z (t, b)" "g_write_sha1_file S Z b t fl = Val (Some 0, n, fl')" "zlib_laws Z"
  shows "n = object_name (t, b) \<and> (has_sha1_file S fl n \<and> fl' = fl \<or>
    \<not> has_sha1_file S fl n \<and> fl' = fl(obj_name (s_objdir S) n := Some (z_deflate Z [t @ 32 # fmt_dec (length b) @ [0], b])))"
proof -
  let ?h = "t @ 32 # fmt_dec (length b) @ [0]"
  let ?f = "obj_name (s_objdir S) (object_name (t, b))"
  let ?c = "z_deflate Z [?h, b]"
  let ?size = "sint (of_nat (z_bound Z (length b + length ?h)) :: 32 word)"
  have tb: "g_type_ok t" "length b < 2 ^ 64 - 1" "z_bound Z (length (frame t b)) < 2 ^ 31" using assms(2) by (auto simp: packable_def)
  have "length ?h \<le> 31" using frame_header_length [OF tb(1), of b] tb(2) by simp
  then have prep: "write_sha1_file_prepare b t = Val (object_name (t, b), ?h)"
    by (simp add: write_sha1_file_prepare_def object_name_def sha1_bytes_def frame_def SHA1_Update_append)
  have f: "g_sha1_file_name S (object_name (t, b)) = ?f"
    using assms(1) by (intro g_sha1_file_name_eq) (auto simp: sys_ok_def)
  have "length b + length ?h = length (frame t b)" by (simp add: frame_def)
  then have size: "?size = int (z_bound Z (length (frame t b)))" using tb(3) by (subst sint_small) (simp_all add: unat_of_nat)
  have "length ?c \<le> z_bound Z (length (concat [?h, b]))" using assms(4) unfolding zlib_laws_def by blast
  then have c: "take (nat ?size) ?c = ?c" using size by (simp add: frame_def)
  note w = assms(3) [unfolded g_write_sha1_file_def prep bindR.simps prod.case Let_def f c size]
  then have n: "n = object_name (t, b)" by (auto split: if_splits option.splits prod.splits)
  show ?thesis
  proof (cases "has_sha1_file S fl n")
    case True
    then show ?thesis using w n by simp
  next
    case False
    then have none: "fl ?f = None" using n f by (auto simp: has_sha1_file_def find_sha1_file_def split: if_splits)
    then obtain tmp where tmp: "s_tmp S fl = Some tmp" using w n False by (auto split: if_splits option.splits)
    then have new: "fl tmp = None" "tmp \<noteq> ?f"
      using assms(1) temp_not_object [of S tmp "object_name (t, b)"] by (auto simp: sys_ok_def)
    have "take (z_bound Z (length (frame t b))) ?c = ?c" using c size by simp
    then have "move_temp S tmp ?f (fl(tmp := Some ?c)) = (0, fl')"
      using w n False none tmp by (auto split: if_splits prod.splits)
    then have "fl' = fl(?f := Some ?c)"
      using new none by (auto simp: move_temp_def split: link_fault.splits if_splits)
    then show ?thesis using False n by simp
  qed
qed

lemma g_write_frame:
  assumes "sys_ok S" "zlib_laws Z" "packable Z x" "g_write_sha1_file S Z (snd x) (fst x) fl = Val (Some 0, n, fl')"
    and "length m = 20" "m \<noteq> n"
  shows "g_read_sha1_file S Z fl' m = g_read_sha1_file S Z fl m" "has_sha1_file S fl' m = has_sha1_file S fl m"
proof -
  have "packable Z (fst x, snd x)" using assms(3) by simp
  note c = g_write_cases [OF assms(1) this assms(4,2)]
  then have n: "n = object_name x" by (metis prod.collapse)
  from c have "fl' = fl \<or> (\<exists>v. fl' = fl(obj_name (s_objdir S) n := v))" by blast
  then have fl': "\<forall>p. p \<noteq> obj_name (s_objdir S) n \<longrightarrow> fl' p = fl p" by (elim disjE exE) simp_all
  have "length n = 20" using n by simp
  then have ne: "obj_name d m \<noteq> obj_name (s_objdir S) n" for d using obj_name_inj [of d m "s_objdir S" n] assms(5,6) by blast
  have "fl' (obj_name d m) = fl (obj_name d m)" for d using fl' ne [of d] by blast
  note same = find_sha1_file_cong [OF assms(1,5), of fl' fl, OF this]
  show "g_read_sha1_file S Z fl' m = g_read_sha1_file S Z fl m" unfolding g_read_sha1_file_def same ..
  show "has_sha1_file S fl' m = has_sha1_file S fl m" unfolding has_sha1_file_def same ..
qed

lemma g_write_read:
  assumes "od_sound S Z U fl" "od_put S Z U x fl n fl'"
  shows "n = object_name x \<and> has_sha1_file S fl' n \<and> g_read_sha1_file S Z fl' n = Got x"
proof -
  have ok: "sys_ok S" "zlib_laws Z" "inj_on object_name U" using assms(1) by (auto simp: od_sound_def)
  have x: "x \<in> U" "packable Z x" "g_write_sha1_file S Z (snd x) (fst x) fl = Val (Some 0, n, fl')"
    using assms(2) by (auto simp: od_put_def)
  let ?c = "z_deflate Z [fst x @ 32 # fmt_dec (length (snd x)) @ [0], snd x]"
  from x consider (old) "n = object_name x" "has_sha1_file S fl n" "fl' = fl"
    | (new) "n = object_name x" "\<not> has_sha1_file S fl n" "fl' = fl(obj_name (s_objdir S) n := Some ?c)"
    using g_write_cases [OF ok(1), of Z "fst x" "snd x" fl n fl'] ok(2) by auto
  then show ?thesis
  proof cases
    case old
    then obtain y where "y \<in> U" "object_name y = n" "g_read_sha1_file S Z fl n = Got y"
      using assms(1) by (metis od_sound_def length_object_name)
    then show ?thesis using old ok(3) x(1) by (metis inj_onD)
  next
    case new
    have f: "g_sha1_file_name S n = obj_name (s_objdir S) n"
      using ok(1) new(1) by (intro g_sha1_file_name_eq) (auto simp: sys_ok_def)
    have "?c \<noteq> []" using ok(2) unfolding zlib_laws_def by blast
    then have "map_sha1_file_internal S fl' n = Some ?c" "find_sha1_file S fl' n \<noteq> None"
      using new(3) f ok(1) by (auto simp: map_sha1_file_internal_def find_sha1_file_def sys_ok_def)
    moreover have "unpack_sha1_file Z ?c = Got x"
      using unpack_sha1_file_frame [OF ok(2), of "fst x" "snd x"] x(2) by (simp add: packable_def split: prod.splits)
    moreover have "s_packs S n = None" using new(2) by (cases "s_packs S n") (auto simp: has_sha1_file_def has_sha1_pack_def)
    ultimately show ?thesis using new(1) by (simp add: g_read_sha1_file_def has_sha1_file_def)
  qed
qed

interpretation g_objects: content_store "od_sound S Z U" "od_get S Z" "od_put S Z U" for S Z U
proof unfold_locales
  fix s v k s' assume inv: "od_sound S Z U s" and put: "od_put S Z U v s k s'"
  note new = g_write_read [OF inv put]
  have ok: "sys_ok S" "zlib_laws Z" using inv by (auto simp: od_sound_def)
  have w: "v \<in> U" "packable Z v" "g_write_sha1_file S Z (snd v) (fst v) s = Val (Some 0, k, s')" using put by (auto simp: od_put_def)
  have k: "length k = 20" using new by simp
  note frame = g_write_frame [OF ok w(2,3)]
  show "od_get S Z s' k = Some v" using new k by (auto simp: od_get_def)
  show "od_sound S Z U s'"
    unfolding od_sound_def
  proof (intro conjI allI impI)
    fix m :: bytes assume m: "length m = 20" "has_sha1_file S s' m"
    show "\<exists>x\<in>U. object_name x = m \<and> g_read_sha1_file S Z s' m = Got x"
    proof (cases "m = k")
      case True
      then show ?thesis using new w(1) by blast
    next
      case False
      then show ?thesis using frame [OF m(1) False] m inv by (auto simp: od_sound_def)
    qed
  qed (use inv in \<open>auto simp: od_sound_def\<close>)
  fix j u assume "od_get S Z s j = Some u"
  then have j: "length j = 20" "g_read_sha1_file S Z s j = Got u" by (auto simp: od_get_def split: if_splits obj.splits)
  show "od_get S Z s' j = Some u"
  proof (cases "j = k")
    case True
    have "has_sha1_file S s j"
      using j(2) by (auto simp: g_read_sha1_file_def has_sha1_file_def has_sha1_pack_def map_sha1_file_internal_def split: option.splits)
    then have "s' = s" using g_write_cases [OF ok(1), of Z "fst v" "snd v" s k s'] w ok(2) True by auto
    then show ?thesis using \<open>od_get S Z s j = Some u\<close> by simp
  next
    case False
    then show ?thesis using frame [OF j(1) False] j by (simp add: od_get_def)
  qed
qed

text \<open>No temporary files are left; then there is a name for one, memory, and directories for the objects.\<close>

definition clean :: "od_sys \<Rightarrow> files \<Rightarrow> bool" where
  "clean S fl \<longleftrightarrow> (\<forall>t. temp_name S t \<longrightarrow> fl t = None)"

definition sys_works :: "od_sys \<Rightarrow> zlib \<Rightarrow> bool" where
  "sys_works S Z \<longleftrightarrow> (\<forall>n. z_malloc Z n) \<and> s_link S = Link_Works \<and> (\<forall>f. s_noent S f) \<and>
     (\<forall>fl. clean S fl \<longrightarrow> s_tmp S fl \<noteq> None)"

definition fits :: "od_sys \<Rightarrow> zlib \<Rightarrow> bytes \<times> bytes \<Rightarrow> bool" where
  "fits S Z x \<longleftrightarrow> packable Z x \<and> z_bound Z (length (frame (fst x) (snd x))) \<le> s_room S"

lemma g_write_succeeds:
  assumes "od_sound S Z U fl" "sys_works S Z" "clean S fl" "x \<in> U" "fits S Z x"
  shows "\<exists>fl'. g_write_sha1_file S Z (snd x) (fst x) fl = Val (Some 0, object_name x, fl') \<and> od_put S Z U x fl (object_name x) fl' \<and> clean S fl'"
proof -
  obtain t b where x: "x = (t, b)" by (cases x)
  let ?h = "t @ 32 # fmt_dec (length b) @ [0]"
  have ok: "sys_ok S" "zlib_laws Z" using assms(1) by (auto simp: od_sound_def)
  have tb: "g_type_ok t" "length b < 2 ^ 64 - 1" "packable Z (t, b)" using assms(5) x by (auto simp: packable_def fits_def)
  have "length ?h \<le> 31" using frame_header_length [OF tb(1), of b] tb(2) by simp
  then have prep: "write_sha1_file_prepare b t = Val (object_name (t, b), ?h)"
    by (simp add: write_sha1_file_prepare_def object_name_def sha1_bytes_def frame_def SHA1_Update_append)
  have len: "length b + length ?h = length (frame t b)" by (simp add: frame_def)
  have bound: "z_bound Z (length (frame t b)) < 2 ^ 31" "z_bound Z (length (frame t b)) \<le> s_room S"
    using assms(5) x by (auto simp: packable_def fits_def)
  have size: "sint (of_nat (z_bound Z (length b + length ?h)) :: 32 word) = int (z_bound Z (length (frame t b)))"
    unfolding len using bound(1) by (subst sint_small) (simp_all add: unat_of_nat)
  have room: "\<not> s_room S < length (take (z_bound Z (length (frame t b))) c)" for c using bound(2) by (simp add: min_def)
  have unread: "fl (g_sha1_file_name S (object_name (t, b))) = None" if "\<not> has_sha1_file S fl (object_name (t, b))"
    using that by (auto simp: has_sha1_file_def find_sha1_file_def split: if_splits)
  obtain tmp where tmp: "s_tmp S fl = Some tmp" using assms(2,3) unfolding sys_works_def by blast
  have "\<exists>fl'. g_write_sha1_file S Z b t fl = Val (Some 0, object_name (t, b), fl')"
    unfolding g_write_sha1_file_def prep bindR.simps prod.case Let_def size tmp option.case
    using assms(2) unread room
    by (auto simp: sys_works_def move_temp_def split: prod.splits)
  then obtain fl' where w: "g_write_sha1_file S Z b t fl = Val (Some 0, object_name (t, b), fl')" by blast
  have "clean S fl'"
    using g_write_cases [OF ok(1) tb(3) w ok(2)] assms(3) temp_not_object [of S _ "object_name (t, b)"]
    by (auto simp: clean_def)
  then show ?thesis using w x assms(4) tb(3) by (auto simp: od_put_def)
qed

lemma sound_has_get: "od_sound S Z U fl \<Longrightarrow> length n = 20 \<Longrightarrow> has_sha1_file S fl n \<longleftrightarrow> od_get S Z fl n \<noteq> None"
  by (fastforce simp: od_sound_def od_get_def g_read_sha1_file_def has_sha1_file_def has_sha1_pack_def
      map_sha1_file_internal_def split: option.splits)

section \<open>Properties\<close>

text \<open>
  C19: When \<^verbatim>\<open>write_sha1_file\<close> of git 0.99.1 returns 0, the name it gives is the SHA-1 of the header and
  the data, and \<^verbatim>\<open>read_sha1_file\<close> gives the type and the data back, also after another object has been written; objects of
  the packs and the alternates count as written.  The objects must not collide under SHA-1.
\<close>

theorem g_object_round_trip:
  assumes "od_sound S Z U fl" "(t, b) \<in> U" "packable Z (t, b)" "g_write_sha1_file S Z b t fl = Val (Some 0, n, fl1)"
    and "(t2, b2) \<in> U" "packable Z (t2, b2)" "g_write_sha1_file S Z b2 t2 fl1 = Val (Some 0, n2, fl2)"
  shows "n = sha1_fips (frame t b) \<and> g_read_sha1_file S Z fl2 n = Got (t, b)"
proof -
  have p1: "od_put S Z U (t, b) fl n fl1" and p2: "od_put S Z U (t2, b2) fl1 n2 fl2" using assms by (auto simp: od_put_def)
  have s1: "od_sound S Z U fl1" by (rule g_objects.put_inv [OF assms(1) p1])
  have "od_get S Z fl2 n = Some (t, b)"
    by (rule g_objects.put_keeps [OF s1 p2 g_objects.get_put [OF assms(1) p1]])
  moreover have "n = object_name (t, b)" using g_write_read [OF assms(1) p1] by simp
  ultimately show ?thesis
    by (auto simp: od_get_def object_name_def sha1_bytes_def SHA1_fips split: if_splits obj.splits)
qed

text \<open>
  C23: \<^verbatim>\<open>unpack_sha1_rest\<close> trusts the size in the header of an object: a file whose stream holds more
  than one byte more than its header announces, within the first 8192 bytes, makes \<^verbatim>\<open>memcpy\<close> write behind the block.
\<close>

theorem unpack_sha1_overflow:
  assumes "z_inflate Z m = (t @ 32 # fmt_dec n @ 0 # body, Stream_End)" "g_type_ok t" "n < 2 ^ 64 - 1" "z_malloc Z (n + 1)"
    and "n + 1 < length body" "length t + length (fmt_dec n) + 2 + length body \<le> 8192"
  shows "unpack_sha1_file Z m = Wild"
proof -
  let ?h = "t @ 32 # fmt_dec n"
  define tot where "tot = length (?h @ 0 # body)"
  define hdr where "hdr = ?h @ 0 # body @ map (z_junk Z) [tot..<8192]"
  have "min 8192 (length (?h @ 0 # body)) = tot" using assms(6) by (simp add: tot_def)
  then have uh: "unpack_sha1_header Z 8192 m = (False, tot, hdr)"
    by (simp add: unpack_sha1_header_def Let_def assms(1) hdr_def tot_def)
  have nn: "no_nul ?h" using assms(2) by (simp add: g_type_ok_def)
  have c: "cstr hdr = ?h" using cstr_append_nul [OF nn] by (simp add: hdr_def)
  have p: "parse_sha1_header hdr = Val (Some (t, of_nat n))"
    using parse_sha1_header_frame [OF assms(2)] by (simp add: hdr_def)
  have "1 + (of_nat n :: u64) = of_nat (Suc n)" by simp
  then have sz: "unat (1 + (of_nat n :: u64)) = n + 1" using assms(3) by (simp only: unat_of_nat) simp
  have len: "length hdr = 8192" "tot - (length ?h + 1) = length body" using assms(6) by (auto simp: hdr_def tot_def)
  have "unpack_sha1_rest Z (?h @ 0 # body) tot hdr (of_nat n) = Wild"
    unfolding unpack_sha1_rest_def c Let_def sz len using assms(4-6) by simp
  then show ?thesis using uh p assms(1) by (simp add: unpack_sha1_file_def)
qed

section \<open>Examples\<close>

text \<open>A zlib that stores the bytes behind a mark, and an empty database.\<close>

definition toy_zlib :: zlib where
  "toy_zlib = \<lparr>z_deflate = (\<lambda>xs. 1 # concat xs), z_bound = (\<lambda>n. n + 1),
     z_inflate = (\<lambda>m. case m of [] \<Rightarrow> ([], Input_End) | c # r \<Rightarrow> (r, Stream_End)), z_malloc = (\<lambda>_. True), z_junk = (\<lambda>_. 0)\<rparr>"

definition toy_sys :: od_sys where
  "toy_sys = \<lparr>s_objdir = str ''o'', s_alt = [], s_packs = (\<lambda>_. None), s_readable = (\<lambda>_. True), s_noent = (\<lambda>_. True),
     s_tmp = (\<lambda>fl. if fl (str ''o/obj_aaaaaa'') = None then Some (str ''o/obj_aaaaaa'') else None),
     s_room = 10000, s_link = Link_Works, s_rename = True\<rparr>"

lemma toy_zlib_laws: "zlib_laws toy_zlib"
  by (simp add: zlib_laws_def toy_zlib_def)

lemma toy_sys_ok: "sys_ok toy_sys"
  by (auto simp: sys_ok_def toy_sys_def temp_name_def split: if_splits)

lemma toy_sound: "inj_on object_name U \<Longrightarrow> od_sound toy_sys toy_zlib U Map.empty"
  using toy_sys_ok
  by (simp add: od_sound_def toy_zlib_laws has_sha1_file_def has_sha1_pack_def find_sha1_file_def)
    (simp add: toy_sys_def alt_dirs.simps)

lemma toy_works: "sys_works toy_sys toy_zlib"
proof -
  have "temp_name toy_sys (str ''o/obj_aaaaaa'')"
    unfolding temp_name_def by (intro exI [of _ "str ''aaaaaa''"]) (simp add: toy_sys_def)
  then show ?thesis by (auto simp: sys_works_def clean_def) (simp_all add: toy_sys_def toy_zlib_def)
qed

theorem g_object_round_trip_witness:
  "\<exists>n fl1 fl2. g_write_sha1_file toy_sys toy_zlib [104, 105] (str ''blob'') Map.empty = Val (Some 0, n, fl1) \<and>
    g_write_sha1_file toy_sys toy_zlib [104, 105] (str ''blob'') fl1 = Val (Some 0, n, fl2) \<and>
    g_read_sha1_file toy_sys toy_zlib fl2 n = Got (str ''blob'', [104, 105])"
proof -
  let ?x = "(str ''blob'', [104, 105 :: byte])"
  have ok: "od_sound toy_sys toy_zlib {?x} Map.empty" by (rule toy_sound) simp
  have p: "packable toy_zlib ?x"
    by (simp add: packable_def g_type_ok_def toy_zlib_def frame_def digits.simps)
  have f: "fits toy_sys toy_zlib ?x" using p by (simp add: fits_def toy_zlib_def toy_sys_def frame_def digits.simps)
  obtain fl1 where w1: "g_write_sha1_file toy_sys toy_zlib [104, 105] (str ''blob'') Map.empty = Val (Some 0, object_name ?x, fl1)"
      "od_put toy_sys toy_zlib {?x} ?x Map.empty (object_name ?x) fl1" "clean toy_sys fl1"
    using g_write_succeeds [OF ok toy_works _ _ f] by (auto simp: clean_def)
  obtain fl2 where w2: "g_write_sha1_file toy_sys toy_zlib [104, 105] (str ''blob'') fl1 = Val (Some 0, object_name ?x, fl2)"
    using g_write_succeeds [OF g_objects.put_inv [OF ok w1(2)] toy_works w1(3) _ f] by auto
  show ?thesis using g_object_round_trip [OF ok _ p w1(1) _ p w2] w1(1) w2 by blast
qed

theorem unpack_sha1_overflow_witness: "unpack_sha1_file toy_zlib (1 # str ''blob 0'' @ 0 # replicate 100 7) = Wild"
proof (rule unpack_sha1_overflow)
  have "fmt_dec 0 = [48]" by (simp add: digits.simps digit_char_def)
  then show "z_inflate toy_zlib (1 # str ''blob 0'' @ 0 # replicate 100 7) = (str ''blob'' @ 32 # fmt_dec 0 @ 0 # replicate 100 7, Stream_End)"
    "length (str ''blob'') + length (fmt_dec 0) + 2 + length (replicate 100 7) \<le> 8192"
    by (simp_all add: toy_zlib_def)
qed (simp_all add: g_type_ok_def toy_zlib_def)

end
