(* ===== verification/Git_Write_Tree.thy ===== *)
theory Git_Write_Tree
  imports Tree_Object Git_Objects Git_Read_Tree "HOL-Library.Sublist"
begin

text \<open>
  The command \<^verbatim>\<open>git-write-tree\<close>, \<^verbatim>\<open>src/git-0.99.1/write-tree.c\<close>: the index as tree objects in the database of theory
  \<open>Git_Objects\<close>, and that \<^verbatim>\<open>read_tree\<close> of theory \<open>Git_Read_Tree\<close> gives the index back.
\<close>

section \<open>Writing trees (write-tree.c)\<close>

text \<open>A value; the calls of \<^verbatim>\<open>die\<close> and \<^verbatim>\<open>exit(1)\<close>; an access outside of the buffer; a loop that does not end.\<close>

datatype 'a wt = Wt 'a | Wt_Dies | Wt_Exit | Wt_Wild | Wt_Hangs

fun bindT :: "'a wt \<Rightarrow> ('a \<Rightarrow> 'b wt) \<Rightarrow> 'b wt" where
  "bindT (Wt a) f = f a"
| "bindT Wt_Dies f = Wt_Dies"
| "bindT Wt_Exit f = Wt_Exit"
| "bindT Wt_Wild f = Wt_Wild"
| "bindT Wt_Hangs f = Wt_Hangs"

definition g_check_valid_sha1 :: "od_sys \<Rightarrow> files \<Rightarrow> bytes \<Rightarrow> int" where
  "g_check_valid_sha1 S fl sha1 = (if has_sha1_file S fl sha1 then 0 else -1)"

definition S_IFDIR :: u32 where "S_IFDIR = 0x4000"

text \<open>One entry of a tree, and its store into the buffer, which has been enlarged before.\<close>

definition dir_item :: "u32 \<Rightarrow> bytes \<Rightarrow> bytes \<Rightarrow> bytes" where
  "dir_item mode f sha1 = fmt_oct (unat mode) @ 32 # f @ 0 # sha1"

definition put_item :: "od_sys \<Rightarrow> zlib \<Rightarrow> bool \<Rightarrow> files \<Rightarrow> u32 \<Rightarrow> bytes \<Rightarrow> bytes \<Rightarrow> bytes \<times> nat \<Rightarrow> (bytes \<times> nat) wt" where
  "put_item S Z missing_ok fl mode f sha1 buf =
     (let offset = length (fst buf); entrylen = length f;
          sz = (if snd buf < offset + entrylen + 100 then g_alloc_nr (offset + entrylen + 100) else snd buf) in
      if \<not> missing_ok \<and> g_check_valid_sha1 S fl sha1 < 0 then Wt_Exit
      else if \<not> z_malloc Z sz then Wt_Dies
      else if sz < offset + length (dir_item mode f sha1) then Wt_Wild
      else Wt (fst buf @ dir_item mode f sha1, sz))"

text \<open>
  \<^verbatim>\<open>write_tree\<close> from the entry that the loop is at: the entries left, the name of the tree and the files.  What
  \<^verbatim>\<open>write_sha1_file\<close> returns is not looked at.  A subdirectory that takes no entry leaves the loop where it is.
\<close>

definition finish_tree :: "od_sys \<Rightarrow> zlib \<Rightarrow> gce list \<Rightarrow> bytes \<Rightarrow> files \<Rightarrow> (gce list \<times> bytes \<times> files) wt" where
  "finish_tree S Z es buf fl =
     (case g_write_sha1_file S Z buf (str ''tree'') fl of
        Val (Some r, sha1, fl') \<Rightarrow> Wt (es, sha1, fl')
      | Val (None, sha1, fl') \<Rightarrow> Wt_Dies
      | _ \<Rightarrow> Wt_Wild)"

definition outside :: "bytes \<Rightarrow> gce \<Rightarrow> bool" where
  "outside base ce \<longleftrightarrow> ce_namelen ce \<le> length base \<or> memcmp (length base) base (g_name ce) \<noteq> 0"

function g_write_tree :: "od_sys \<Rightarrow> zlib \<Rightarrow> bool \<Rightarrow> bytes \<Rightarrow> gce list \<Rightarrow> bytes \<times> nat \<Rightarrow> files \<Rightarrow> (gce list \<times> bytes \<times> files) wt" where
  "g_write_tree S Z missing_ok base es buf fl =
     (case es of [] \<Rightarrow> finish_tree S Z [] (fst buf) fl
      | ce # es' \<Rightarrow>
        if outside base ce then finish_tree S Z es (fst buf) fl
        else (let filename = drop (length base) (g_name ce) in
          if 47 \<in> set filename then
            (let d = takeWhile (\<lambda>c. c \<noteq> 47) filename in
             if \<not> z_malloc Z 8192 then Wt_Dies
             else bindT (g_write_tree S Z missing_ok (base @ d @ [47]) es ([], 8192) fl) (\<lambda>(rest, sub, fl1).
               if length es \<le> length rest then Wt_Hangs
               else bindT (put_item S Z missing_ok fl1 S_IFDIR d sub buf) (\<lambda>buf1.
                 g_write_tree S Z missing_ok base rest buf1 fl1)))
          else bindT (put_item S Z missing_ok fl (g_mode ce) (take (ce_namelen ce - length base) filename) (g_sha1 ce) buf) (\<lambda>buf1.
            g_write_tree S Z missing_ok base es' buf1 fl)))"
  by pat_completeness auto
termination
  by (relation "measures [\<lambda>(S, Z, m, base, es, buf, fl). length es,
      \<lambda>(S, Z, m, base, es, buf, fl). 4096 - length base]")
    (auto simp: outside_def not_le dest!: less_trans [OF _ ce_namelen_less])

declare g_write_tree.simps [simp del]

section \<open>The command (write-tree.c)\<close>

text \<open>The two loops that look for entries that cannot be written; each stops after the eleventh.\<close>

fun wt_unmerged :: "nat \<Rightarrow> gce list \<Rightarrow> nat" where
  "wt_unmerged funny [] = funny"
| "wt_unmerged funny (ce # es) =
     (if g_flags ce AND NOT CE_NAMEMASK \<noteq> 0
      then (if 10 < funny + 1 then funny + 1 else wt_unmerged (funny + 1) es)
      else wt_unmerged funny es)"

definition both_names :: "bytes \<Rightarrow> bytes \<Rightarrow> bool" where
  "both_names this nxt \<longleftrightarrow> length this < length nxt \<and> this = take (length this) nxt \<and> nxt ! length this = 47"

fun wt_conflicts :: "nat \<Rightarrow> gce list \<Rightarrow> nat" where
  "wt_conflicts funny (a # b # es) =
     (if both_names (g_name a) (g_name b)
      then (if 10 < funny + 1 then funny + 1 else wt_conflicts (funny + 1) (b # es))
      else wt_conflicts funny (b # es))"
| "wt_conflicts funny es = funny"

text \<open>\<^verbatim>\<open>main\<close>: the line it prints and the files.\<close>

definition wt_main :: "od_sys \<Rightarrow> zlib \<Rightarrow> index_file \<Rightarrow> bytes list \<Rightarrow> files \<Rightarrow> (bytes \<times> files) wt" where
  "wt_main S Z file args fl =
     (case g_read_cache False file \<lparr>g_cache = [], g_alloc = 0, g_changed = False\<rparr> of
        Val (nr, ix) \<Rightarrow>
          if length args = 1 \<and> args ! 0 \<noteq> str ''--missing-ok'' then Wt_Dies
          else if 1 < length args then Wt_Dies
          else if nr < 0 then Wt_Dies
          else if wt_unmerged 0 (g_cache ix) \<noteq> 0 then Wt_Dies
          else if wt_conflicts 0 (g_cache ix) \<noteq> 0 then Wt_Dies
          else if \<not> z_malloc Z 8192 then Wt_Dies
          else bindT (g_write_tree S Z (length args = 1) [] (g_cache ix) ([], 8192) fl) (\<lambda>(rest, sha1, fl').
            if rest \<noteq> [] then Wt_Dies else Wt (sha1_to_hex sha1 @ [10], fl'))
      | _ \<Rightarrow> Wt_Wild)"

section \<open>The trees of an index\<close>

text \<open>
  The specification: the body of the tree of a directory, the entries behind it, and the bodies of the trees below it.  It
  knows no files: the name of a tree is the SHA-1 of its contents.
\<close>

function tree_spec :: "bytes \<Rightarrow> gce list \<Rightarrow> bytes \<times> gce list \<times> bytes list" where
  "tree_spec base es =
     (case es of [] \<Rightarrow> ([], [], [])
      | ce # es' \<Rightarrow>
        if outside base ce then ([], es, [])
        else (let filename = drop (length base) (g_name ce) in
          if 47 \<in> set filename then
            (let d = takeWhile (\<lambda>c. c \<noteq> 47) filename in
             case tree_spec (base @ d @ [47]) es of (sub, rest, ws) \<Rightarrow>
               if length es \<le> length rest then ([], es, [])
               else (case tree_spec base rest of (body, rest', ws') \<Rightarrow>
                 (dir_item S_IFDIR d (object_name (str ''tree'', sub)) @ body, rest', ws @ sub # ws')))
          else (case tree_spec base es' of (body, rest, ws) \<Rightarrow> (dir_item (g_mode ce) filename (g_sha1 ce) @ body, rest, ws))))"
  by pat_completeness auto
termination
  by (relation "measures [\<lambda>(base, es). length es, \<lambda>(base, es). 4096 - length base]")
    (auto simp: outside_def not_le dest!: less_trans [OF _ ce_namelen_less])

declare tree_spec.simps [simp del]

lemma tree_spec_Nil [simp]: "tree_spec base [] = ([], [], [])"
  by (simp add: tree_spec.simps)

text \<open>Entries whose name is not empty and does not end in a slash.\<close>

definition wt_entry :: "gce \<Rightarrow> bool" where
  "wt_entry ce \<longleftrightarrow> g_wf ce \<and> g_name ce \<noteq> [] \<and> last (g_name ce) \<noteq> 47"

text \<open>For such entries the specification is a run of these steps.\<close>

inductive tree_run :: "bytes \<Rightarrow> gce list \<Rightarrow> bytes \<Rightarrow> gce list \<Rightarrow> bytes list \<Rightarrow> bool" where
  run_stop: "es = [] \<or> outside base (hd es) \<Longrightarrow> tree_run base es [] es []"
| run_file: "\<not> outside base ce \<Longrightarrow> g_name ce = base @ f \<Longrightarrow> 47 \<notin> set f \<Longrightarrow> tree_run base es body rest ws \<Longrightarrow>
    tree_run base (ce # es) (dir_item (g_mode ce) f (g_sha1 ce) @ body) rest ws"
| run_dir: "\<not> outside base ce \<Longrightarrow> \<not> outside (base @ d @ [47]) ce \<Longrightarrow> g_name ce = base @ d @ 47 # f \<Longrightarrow> 47 \<notin> set d \<Longrightarrow>
    tree_run (base @ d @ [47]) (ce # es) sub rest ws \<Longrightarrow> length rest \<le> length es \<Longrightarrow> tree_run base rest body rest' ws' \<Longrightarrow>
    tree_run base (ce # es) (dir_item S_IFDIR d (object_name (str ''tree'', sub)) @ body) rest' (ws @ sub # ws')"

lemma outside_iff: "g_wf ce \<Longrightarrow> \<not> outside base ce \<longleftrightarrow> (\<exists>f. f \<noteq> [] \<and> g_name ce = base @ f)"
proof -
  assume wf: "g_wf ce"
  have "(\<exists>f. f \<noteq> [] \<and> g_name ce = base @ f) \<longleftrightarrow> length base < length (g_name ce) \<and> take (length base) (g_name ce) = base"
    by (metis append_eq_conv_conj append_take_drop_id drop_eq_Nil2 leD leI length_append length_greater_0_conv less_add_same_cancel1)
  also have "\<dots> \<longleftrightarrow> \<not> outside base ce"
    using wf memcmp_eq_0 [of "length base" base "g_name ce"] by (auto simp: outside_def g_wf_def)
  finally show ?thesis by simp
qed

lemma split_first_slash:
  assumes "47 \<in> set f" "last f \<noteq> (47 :: byte)"
  obtains r where "f = takeWhile (\<lambda>c. c \<noteq> 47) f @ 47 # r" "r \<noteq> []"
proof -
  have "dropWhile (\<lambda>c. c \<noteq> 47) f \<noteq> []" using assms(1) by (auto simp: dropWhile_eq_Nil_conv)
  then obtain r where r: "dropWhile (\<lambda>c. c \<noteq> 47) f = 47 # r" using hd_dropWhile [of "\<lambda>c. c \<noteq> 47" f] by (metis list.collapse)
  then have f: "f = takeWhile (\<lambda>c. c \<noteq> 47) f @ 47 # r" by (metis takeWhile_dropWhile_id)
  then have "r \<noteq> []" using assms(2) by (metis last_snoc)
  with f show thesis by (rule that)
qed

lemma tree_spec_run:
  assumes "\<forall>ce\<in>set es. wt_entry ce" "tree_spec base es = (body, rest, ws)"
  shows "tree_run base es body rest ws \<and> suffix rest es \<and> (es \<noteq> [] \<and> \<not> outside base (hd es) \<longrightarrow> length rest < length es)"
  using assms
proof (induction base es arbitrary: body rest ws rule: tree_spec.induct)
  case (1 base es)
  show ?case
  proof (cases "es = [] \<or> outside base (hd es)")
    case True
    then have "tree_spec base es = ([], es, [])" by (subst tree_spec.simps) (auto split: list.splits)
    then show ?thesis using 1(5) True run_stop by auto
  next
    case False
    then obtain ce es' where es: "es = ce # es'" "\<not> outside base ce" by (cases es) auto
    let ?f = "drop (length base) (g_name ce)" and ?d = "takeWhile (\<lambda>c. c \<noteq> 47) (drop (length base) (g_name ce))"
    have ce: "g_wf ce" "last (g_name ce) \<noteq> 47" using 1(4) es by (auto simp: wt_entry_def)
    then obtain f where f: "f \<noteq> []" "g_name ce = base @ f" using outside_iff es(2) by blast
    show ?thesis
    proof (cases "47 \<in> set f")
      case leaf: False
      obtain b r w where rec: "tree_spec base es' = (b, r, w)" by (metis prod_cases3)
      have "tree_run base es' b r w \<and> suffix r es'"
        using 1(3) [OF es(1) es(2) refl _ _ rec] leaf f 1(4) es(1) by auto
      moreover have "body = dir_item (g_mode ce) f (g_sha1 ce) @ b \<and> rest = r \<and> ws = w"
        using 1(5) leaf f es rec by (simp add: tree_spec.simps [of base "ce # es'"])
      ultimately show ?thesis using es f(2) leaf
        by (auto intro: run_file suffix_ConsI simp: less_Suc_eq_le suffix_length_le)
    next
      case dir: True
      have "last f \<noteq> 47" using ce f by simp
      with dir obtain g where g: "f = takeWhile (\<lambda>c. c \<noteq> 47) f @ 47 # g" "g \<noteq> []" by (rule split_first_slash)
      let ?b = "base @ takeWhile (\<lambda>c. c \<noteq> 47) f @ [47]"
      have nm: "g_name ce = ?b @ g" using f(2) g(1) by simp
      then have out: "\<not> outside ?b ce" using outside_iff [OF ce(1)] g(2) by blast
      obtain sub r w where sub: "tree_spec ?b es = (sub, r, w)" by (metis prod_cases3)
      have ih: "tree_run ?b es sub r w" "suffix r es" "length r < length es"
        using 1(1) [OF es(1) es(2) refl _ refl, of sub r w] dir f 1(4) sub out es(1) by auto
      obtain b r' w' where rec: "tree_spec base r = (b, r', w')" by (metis prod_cases3)
      have ih2: "tree_run base r b r' w' \<and> suffix r' r"
      proof -
        have "drop (length base) (g_name ce) = f" using f(2) by simp
        moreover have "\<forall>a\<in>set r. wt_entry a" using 1(4) ih(2) by (meson set_mono_suffix subsetD)
        ultimately show ?thesis using 1(2) [OF es(1) es(2) refl _ refl _ refl _ _ rec, of sub w] dir sub ih(3) by simp
      qed
      have "body = dir_item S_IFDIR (takeWhile (\<lambda>c. c \<noteq> 47) f) (object_name (str ''tree'', sub)) @ b \<and> rest = r' \<and> ws = w @ sub # w'"
        using 1(5) dir f es sub ih(3) rec by (simp add: tree_spec.simps [of base "ce # es'"])
      moreover have "tree_run base es (dir_item S_IFDIR (takeWhile (\<lambda>c. c \<noteq> 47) f) (object_name (str ''tree'', sub)) @ b) r' (w @ sub # w')"
        unfolding es(1) using es out nm ih ih2 by (intro run_dir) (auto dest: set_takeWhileD)
      ultimately show ?thesis using ih ih2 by (auto intro: suffix_order.trans dest: suffix_length_le)
    qed
  qed
qed

section \<open>The trees are written\<close>

abbreviation tree_obj :: "bytes \<Rightarrow> bytes \<times> bytes" where
  "tree_obj b \<equiv> (str ''tree'', b)"

lemma length_dir_item: "length sha1 = 20 \<Longrightarrow> length (dir_item mode f sha1) \<le> length f + 33"
proof -
  have "unat mode < 2 ^ LENGTH(32)" by (rule unsigned_less)
  then have "unat mode < 8 ^ 11" by simp
  then have "length (fmt_oct (unat mode)) \<le> 11" by (intro length_digits_le) auto
  then show "length sha1 = 20 \<Longrightarrow> ?thesis" by (simp add: dir_item_def)
qed

lemma put_item_ok:
  assumes "sys_works S Z" "missing_ok \<or> has_sha1_file S fl sha1" "length sha1 = 20" "length buf \<le> sz"
  shows "\<exists>sz'. put_item S Z missing_ok fl mode f sha1 (buf, sz) = Wt (buf @ dir_item mode f sha1, sz') \<and>
    length (buf @ dir_item mode f sha1) \<le> sz'"
  using assms length_dir_item [OF assms(3), of mode f]
  by (auto simp: put_item_def g_check_valid_sha1_def sys_works_def Let_def g_alloc_nr_def)

text \<open>The writer of a store that knows the blobs already, or need not.\<close>

definition wt_ready :: "od_sys \<Rightarrow> zlib \<Rightarrow> (bytes \<times> bytes) set \<Rightarrow> bool \<Rightarrow> gce list \<Rightarrow> files \<Rightarrow> bool" where
  "wt_ready S Z U missing_ok es fl \<longleftrightarrow> od_sound S Z U fl \<and> sys_works S Z \<and> clean S fl \<and> (\<forall>ce\<in>set es. wt_entry ce) \<and>
     (missing_ok \<or> (\<forall>ce\<in>set es. has_sha1_file S fl (g_sha1 ce)))"

definition grown :: "od_sys \<Rightarrow> zlib \<Rightarrow> files \<Rightarrow> files \<Rightarrow> bool" where
  "grown S Z fl fl' \<longleftrightarrow> (\<forall>j u. od_get S Z fl j = Some u \<longrightarrow> od_get S Z fl' j = Some u)"

lemma grown_trans: "grown S Z a b \<Longrightarrow> grown S Z b c \<Longrightarrow> grown S Z a c"
  by (simp add: grown_def)

lemma wt_ready_grown:
  assumes "wt_ready S Z U missing_ok es fl" "od_sound S Z U fl'" "grown S Z fl fl'" "clean S fl'" "set es' \<subseteq> set es"
  shows "wt_ready S Z U missing_ok es' fl'"
proof -
  have "has_sha1_file S fl' (g_sha1 ce)" if ce: "ce \<in> set es'" "has_sha1_file S fl (g_sha1 ce)" for ce
  proof -
    have "length (g_sha1 ce) = 20" using assms(1,5) ce(1) by (auto simp: wt_ready_def wt_entry_def g_wf_def)
    moreover have "od_sound S Z U fl" using assms(1) by (simp add: wt_ready_def)
    ultimately show ?thesis using assms(2,3) ce(2) sound_has_get by (fastforce simp: grown_def)
  qed
  then show ?thesis using assms by (auto simp: wt_ready_def)
qed

lemma tree_run_subset: "tree_run base es body rest ws \<Longrightarrow> set rest \<subseteq> set es"
  by (induction rule: tree_run.induct) auto

lemma g_write_tree_run:
  assumes "tree_run base es body rest ws" "wt_ready S Z U missing_ok es fl" "length buf \<le> sz"
    and "\<forall>w\<in>set (ws @ [buf @ body]). tree_obj w \<in> U \<and> fits S Z (tree_obj w)"
  shows "\<exists>fl'. g_write_tree S Z missing_ok base es (buf, sz) fl = Wt (rest, object_name (tree_obj (buf @ body)), fl') \<and>
    od_sound S Z U fl' \<and> grown S Z fl fl' \<and> clean S fl' \<and>
    (\<forall>w\<in>set (ws @ [buf @ body]). od_get S Z fl' (object_name (tree_obj w)) = Some (tree_obj w))"
  using assms
proof (induction arbitrary: buf sz fl rule: tree_run.induct)
  case (run_stop es base)
  have sound: "od_sound S Z U fl" using run_stop(2) by (simp add: wt_ready_def)
  obtain fl' where w: "g_write_sha1_file S Z buf (str ''tree'') fl = Val (Some 0, object_name (tree_obj buf), fl')"
      and put: "od_put S Z U (tree_obj buf) fl (object_name (tree_obj buf)) fl'" "clean S fl'"
    using g_write_succeeds [OF sound, of "tree_obj buf"] run_stop(2,4) by (auto simp: wt_ready_def)
  have "g_write_tree S Z missing_ok base es (buf, sz) fl = Wt (es, object_name (tree_obj buf), fl')"
    using run_stop(1) w by (subst g_write_tree.simps) (auto simp: finish_tree_def split: list.splits)
  then show ?case
    using g_objects.put_inv [OF sound put(1)] g_objects.get_put [OF sound put(1)] g_objects.put_keeps [OF sound put(1)]
      put(2)
    by (auto simp: grown_def)
next
  case (run_file base ce f es body rest ws)
  have ce: "g_wf ce" "g_name ce \<noteq> []" using run_file(6) by (auto simp: wt_ready_def wt_entry_def)
  have "length (g_name ce) = ce_namelen ce" using ce(1) by (simp add: g_wf_def)
  then have n: "ce_namelen ce - length base = length f" unfolding run_file(2) by auto
  obtain sz' where p: "put_item S Z missing_ok fl (g_mode ce) f (g_sha1 ce) (buf, sz) = Wt (buf @ dir_item (g_mode ce) f (g_sha1 ce), sz')"
      "length (buf @ dir_item (g_mode ce) f (g_sha1 ce)) \<le> sz'"
    using put_item_ok [of S Z missing_ok fl "g_sha1 ce" buf sz "g_mode ce" f] run_file(6,7) ce(1)
    by (auto simp: wt_ready_def g_wf_def)
  have "wt_ready S Z U missing_ok es fl" using run_file(6) by (auto simp: wt_ready_def)
  from run_file(5) [OF this p(2)] run_file(8) obtain fl' where
    ih: "g_write_tree S Z missing_ok base es (buf @ dir_item (g_mode ce) f (g_sha1 ce), sz') fl =
        Wt (rest, object_name (tree_obj (buf @ dir_item (g_mode ce) f (g_sha1 ce) @ body)), fl')"
      "od_sound S Z U fl'" "grown S Z fl fl'" "clean S fl'"
      "\<forall>w\<in>set (ws @ [buf @ dir_item (g_mode ce) f (g_sha1 ce) @ body]). od_get S Z fl' (object_name (tree_obj w)) = Some (tree_obj w)"
    by auto
  have "g_write_tree S Z missing_ok base (ce # es) (buf, sz) fl =
      g_write_tree S Z missing_ok base es (buf @ dir_item (g_mode ce) f (g_sha1 ce), sz') fl"
    using run_file(1-3) p(1) n by (subst g_write_tree.simps) simp
  then show ?case using ih by metis
next
  case (run_dir base ce d f es sub rest ws body rest' ws')
  let ?it = "dir_item S_IFDIR d (object_name (tree_obj sub))"
  have m8: "z_malloc Z 8192" using run_dir(10) by (simp add: wt_ready_def sys_works_def)
  obtain fl1 where
    sub: "g_write_tree S Z missing_ok (base @ d @ [47]) (ce # es) ([], 8192) fl = Wt (rest, object_name (tree_obj sub), fl1)"
      "od_sound S Z U fl1" "grown S Z fl fl1" "clean S fl1"
      "\<forall>w\<in>set (ws @ [sub]). od_get S Z fl1 (object_name (tree_obj w)) = Some (tree_obj w)"
    using run_dir(8) [OF run_dir(10), of "[]" 8192] run_dir(12) by auto
  have has: "has_sha1_file S fl1 (object_name (tree_obj sub))" using sub(2,5) sound_has_get [OF sub(2)] by simp
  have "wt_ready S Z U missing_ok rest fl1"
    using wt_ready_grown [OF run_dir(10) sub(2,3,4)] tree_run_subset [OF run_dir(5)] by simp
  moreover obtain sz' where p: "put_item S Z missing_ok fl1 S_IFDIR d (object_name (tree_obj sub)) (buf, sz) = Wt (buf @ ?it, sz')"
      "length (buf @ ?it) \<le> sz'"
    using put_item_ok [of S Z missing_ok fl1 "object_name (tree_obj sub)" buf sz S_IFDIR d] run_dir(10,11) has
    by (auto simp: wt_ready_def)
  ultimately obtain fl' where
    ih: "g_write_tree S Z missing_ok base rest (buf @ ?it, sz') fl1 = Wt (rest', object_name (tree_obj (buf @ ?it @ body)), fl')"
      "od_sound S Z U fl'" "grown S Z fl1 fl'" "clean S fl'"
      "\<forall>w\<in>set (ws' @ [buf @ ?it @ body]). od_get S Z fl' (object_name (tree_obj w)) = Some (tree_obj w)"
    using run_dir(9) [of fl1 "buf @ ?it" sz'] run_dir(12) by auto
  have "takeWhile (\<lambda>c. c \<noteq> 47) (d @ 47 # f) = d" using run_dir(4) by (simp add: takeWhile_append takeWhile_eq_all_conv)
  then have "g_write_tree S Z missing_ok base (ce # es) (buf, sz) fl = g_write_tree S Z missing_ok base rest (buf @ ?it, sz') fl1"
    using run_dir(1,3,6) sub(1) p(1) m8 by (subst g_write_tree.simps) simp
  moreover have "\<forall>w\<in>set (ws @ [sub]). od_get S Z fl' (object_name (tree_obj w)) = Some (tree_obj w)"
    using sub(5) ih(3) by (simp add: grown_def)
  ultimately show ?case using ih grown_trans [OF sub(3) ih(3)] by auto
qed

section \<open>The trees are read back\<close>

lemma read_item:
  assumes "no_nul f" "length sha1 = 20"
  shows "read_tree_recursive objects None stage depth base (dir_item mode f sha1 @ tail) ix =
    (if S_ISDIR mode then
       (case objects sha1 of None \<Rightarrow> Val (-1, ix)
        | Some (type, elt) \<Rightarrow>
          if type \<noteq> str ''tree'' then Val (-1, ix)
          else if depth = 0 then Oob
          else bindR (read_tree_recursive objects None stage (depth - 1) (base @ f @ [47]) elt ix) (\<lambda>(retval, ix1).
            if retval \<noteq> 0 then Val (-1, ix1) else read_tree_recursive objects None stage depth base tail ix1))
     else bindR (read_one_entry sha1 base f mode stage ix) (\<lambda>(r, ix1).
       if r < 0 then Val (-1, ix1) else read_tree_recursive objects None stage depth base tail ix1))"
proof -
  define s where "s = fmt_oct (unat mode) @ 32 # f"
  define b where "b = dir_item mode f sha1 @ tail"
  have b: "b = (s @ 0 # sha1) @ tail" by (simp add: b_def s_def dir_item_def)
  have "no_nul s" using assms(1) by (simp add: s_def)
  then have c: "cstr b = s" using cstr_append_nul [of s "sha1 @ tail"] by (simp add: b)
  have m: "unat mode < 2 ^ LENGTH(32)" by (rule unsigned_less)
  have sc: "scan_unsigned 8 32 s = Some (unat mode, 32 # f)"
    unfolding s_def using m by (intro scan_unsigned_digits) (auto simp: digit_val_def)
  have p: "32 \<in> set s" "tl (dropWhile (\<lambda>c. c \<noteq> 32) s) = f"
  proof -
    have "dropWhile (\<lambda>c. c \<noteq> 32) s = dropWhile (\<lambda>c. c \<noteq> 32) (32 # f)"
      unfolding s_def using mode_no_space [of "unat mode"] by (intro dropWhile_append2) metis
    then show "tl (dropWhile (\<lambda>c. c \<noteq> 32) s) = f" by simp
  qed (simp add: s_def)
  have len: "length s + 1 + 20 = length (s @ 0 # sha1)" using assms(2) by simp
  have big: "b \<noteq> []" "\<not> length b < length s + 1 + 20" unfolding len b by auto
  have tail: "drop (length s + 1 + 20) b = tail" unfolding len b by simp
  have sha1: "take 20 (drop (length s + 1) b) = sha1" using assms(2) by (simp add: b)
  show ?thesis
    unfolding b_def [symmetric] read_tree_recursive.simps [of objects None stage depth base b ix] Let_def c sc tail sha1 p(2)
    using big p(1) by (simp add: match_tree_entry_def)
qed

text \<open>An entry as a tree keeps it: without the data of \<^verbatim>\<open>stat\<close>.\<close>

definition bare_entry :: "gce \<Rightarrow> gce" where
  "bare_entry ce = \<lparr>g_ctime = 0, g_ctime_nsec = 0, g_mtime = 0, g_mtime_nsec = 0, g_dev = 0, g_ino = 0,
     g_mode = g_mode ce, g_uid = 0, g_gid = 0, g_size = 0, g_sha1 = g_sha1 ce, g_flags = g_flags ce, g_name = g_name ce\<rparr>"

lemma bare_entry_simps [simp]: "gkey (bare_entry ce) = gkey ce" "g_wf (bare_entry ce) = g_wf ce"
  by (simp_all add: bare_entry_def gkey_def g_wf_def ce_namelen_def)

text \<open>Entries of stage 0 with a mode that \<^verbatim>\<open>create_ce_mode\<close> makes.\<close>

definition merged_entry_ok :: "gce \<Rightarrow> bool" where
  "merged_entry_ok ce \<longleftrightarrow> wt_entry ce \<and> g_flags ce = create_ce_flags (ce_namelen ce) 0 \<and> create_ce_mode (g_mode ce) = g_mode ce"

lemma ce_mode_not_dir: "create_ce_mode m = m \<Longrightarrow> \<not> S_ISDIR m"
  by (auto simp: create_ce_mode_def S_ISDIR_def S_IFLNK_def S_IFREG_def ce_permissions_def S_IFMT_def split: if_splits)

lemma read_one_entry_appends:
  assumes "g_inv ix" "merged_entry_ok ce" "g_name ce = base @ f" "\<forall>e\<in>set (g_cache ix). gkey e < gkey ce"
  shows "\<exists>ix'. read_one_entry (g_sha1 ce) base f (g_mode ce) 0 ix = Val (0, ix') \<and> g_inv ix' \<and>
    g_cache ix' = g_cache ix @ [bare_entry ce]"
proof -
  let ?e = "bare_entry ce"
  have cw: "g_wf ce" using assms(2) by (simp add: merged_entry_ok_def wt_entry_def)
  then have wf: "g_wf ?e" "length base + length f = ce_namelen ce" using assms(3) by (simp_all, simp add: g_wf_def)
  have r: "read_one_entry (g_sha1 ce) base f (g_mode ce) 0 ix = g_add_cache_entry ?e True False True ix"
    using assms(2,3) wf(2) by (simp add: read_one_entry_def bare_entry_def merged_entry_ok_def)
  have new: "gkey ?e \<notin> gkey ` set (g_cache ix)" using assms(4) by auto
  have kp: "key_pos gkey (gkey ?e) (g_cache ix) = length (g_cache ix)"
    using assms(1,4) by (intro key_pos_unique) (auto simp: g_inv_def)
  obtain ix' where i: "insert_at ?e (length (g_cache ix)) ix = Val ix'" "g_inv ix'"
    using insert_at_ok [OF assms(1) wf(1) new kp [symmetric]] by blast
  then have "g_cache ix' = g_cache ix @ [?e]" by (auto simp: insert_at_def Let_def split: if_splits)
  moreover have "g_add_cache_entry ?e True False True ix = Val (0, ix')"
    using g_pos_absent [OF new] kp i(1) g_cache_name_pos_entry [OF assms(1) wf(1)]
    by (simp add: g_add_cache_entry_def Let_def)
  ultimately show ?thesis using r i(2) by simp
qed

lemma S_ISDIR_IFDIR [simp]: "S_ISDIR S_IFDIR"
  by (simp add: S_ISDIR_def S_IFDIR_def)

lemma read_tree_run:
  assumes "tree_run base es body rest ws" "\<forall>ce\<in>set es. merged_entry_ok ce \<and> ce_namelen ce \<le> length base + depth"
    and "\<forall>w\<in>set ws. objects (object_name (tree_obj w)) = Some (tree_obj w)"
    and "g_inv ix" "key_sorted gkey (g_cache ix @ map bare_entry es)"
  shows "\<exists>es1 ix'. es = es1 @ rest \<and> read_tree_recursive objects None 0 depth base body ix = Val (0, ix') \<and> g_inv ix' \<and>
    g_cache ix' = g_cache ix @ map bare_entry es1"
  using assms
proof (induction arbitrary: depth ix rule: tree_run.induct)
  case (run_stop es base)
  then show ?case by (intro exI [of _ "[]"]) (simp add: read_tree_recursive.simps)
next
  case (run_file base ce f es body rest ws)
  have ce: "merged_entry_ok ce" "g_wf ce" using run_file(6) by (auto simp: merged_entry_ok_def wt_entry_def)
  have f: "no_nul f" "length (g_sha1 ce) = 20" using ce(2) run_file(2) by (auto simp: g_wf_def)
  have "\<forall>e\<in>set (g_cache ix). gkey e < gkey ce" using run_file(9) by (auto simp: key_sorted_append)
  then obtain ix1 where ix1: "read_one_entry (g_sha1 ce) base f (g_mode ce) 0 ix = Val (0, ix1)" "g_inv ix1"
      "g_cache ix1 = g_cache ix @ [bare_entry ce]"
    using read_one_entry_appends [OF run_file(8) ce(1) run_file(2)] by blast
  have "\<not> S_ISDIR (g_mode ce)" using ce(1) ce_mode_not_dir by (simp add: merged_entry_ok_def)
  then have r: "read_tree_recursive objects None 0 depth base (dir_item (g_mode ce) f (g_sha1 ce) @ body) ix =
      read_tree_recursive objects None 0 depth base body ix1"
    using ix1(1) by (simp add: read_item [OF f])
  obtain es1 ix' where "es = es1 @ rest" "read_tree_recursive objects None 0 depth base body ix1 = Val (0, ix')" "g_inv ix'"
      "g_cache ix' = g_cache ix1 @ map bare_entry es1"
    using run_file(5) [of depth ix1] run_file(6,7,9) ix1(2,3) by auto
  then show ?case using r ix1(3) by (intro exI [of _ "ce # es1"] exI [of _ ix']) simp
next
  case (run_dir base ce d f es sub rest ws body rest' ws')
  let ?n = "object_name (tree_obj sub)"
  have ce: "g_wf ce" using run_dir(10) by (auto simp: merged_entry_ok_def wt_entry_def)
  then have d: "no_nul d" "length base + length d < ce_namelen ce" using run_dir(3) by (auto simp: g_wf_def)
  then have dp: "depth \<noteq> 0" using run_dir(10) by auto
  have "\<forall>ce\<in>set (ce # es). merged_entry_ok ce \<and> ce_namelen ce \<le> length (base @ d @ [47]) + (depth - 1)"
    using run_dir(10) dp by fastforce
  then obtain es1 ix1 where i1: "ce # es = es1 @ rest" "read_tree_recursive objects None 0 (depth - 1) (base @ d @ [47]) sub ix = Val (0, ix1)"
      "g_inv ix1" "g_cache ix1 = g_cache ix @ map bare_entry es1"
    using run_dir(8) [of "depth - 1" ix] run_dir(11-13) by auto
  have "\<forall>ce\<in>set rest. merged_entry_ok ce \<and> ce_namelen ce \<le> length base + depth"
    using run_dir(10) i1(1) by (metis Un_iff set_append)
  moreover have "key_sorted gkey (g_cache ix1 @ map bare_entry rest)"
    using run_dir(13) i1(4) by (simp only: i1(1) map_append append_assoc)
  ultimately obtain es2 ix' where i2: "rest = es2 @ rest'" "read_tree_recursive objects None 0 depth base body ix1 = Val (0, ix')"
      "g_inv ix'" "g_cache ix' = g_cache ix1 @ map bare_entry es2"
    using run_dir(9) [of depth ix1] run_dir(11) i1(3) by auto
  have "objects ?n = Some (tree_obj sub)" using run_dir(11) by simp
  then have "read_tree_recursive objects None 0 depth base (dir_item S_IFDIR d ?n @ body) ix =
      read_tree_recursive objects None 0 depth base body ix1"
    using i1(2) dp by (simp add: read_item [OF d(1) length_object_name])
  then show ?case using i1 i2 by (intro exI [of _ "es1 @ es2"] exI [of _ ix']) simp
qed

section \<open>Properties\<close>

lemma tree_run_root:
  "tree_run base es body rest ws \<Longrightarrow> base = [] \<Longrightarrow> \<forall>ce\<in>set es. wt_entry ce \<Longrightarrow> rest = []"
proof (induction rule: tree_run.induct)
  case (run_stop es base)
  then show ?case using outside_iff [of "hd es" "[]"] by (cases es) (auto simp: wt_entry_def)
next
  case (run_dir base ce d f es sub rest ws body rest' ws')
  then show ?case using tree_run_subset [OF run_dir(5)] by blast
qed auto

lemma wt_unmerged_none: "\<forall>ce\<in>set es. merged_entry_ok ce \<Longrightarrow> wt_unmerged funny es = funny"
proof (induction es arbitrary: funny)
  case (Cons ce es)
  let ?x = "of_nat (ce_namelen ce) :: u16"
  have m: "CE_NAMEMASK = mask 12" by (simp add: CE_NAMEMASK_def mask_eq_exp_minus_1)
  have "take_bit 12 ?x = ?x"
    using ce_namelen_less [of ce] by (simp add: take_bit_eq_mod word_unat_eq_iff unat_mod unat_of_nat)
  then have "?x AND mask 12 = ?x" by (simp add: take_bit_eq_mask)
  then have "?x AND NOT (mask 12) = ?x AND (mask 12 AND NOT (mask 12))" by (metis and.assoc)
  then have "g_flags ce AND NOT CE_NAMEMASK = 0" using Cons.prems by (simp add: merged_entry_ok_def create_ce_flags_def m)
  then show ?case using Cons by simp
qed simp

text \<open>
  C18: \<^verbatim>\<open>git-write-tree\<close> prints the name that the specification gives the tree of the index, however
  deep its directories are; the tree and all trees below it are in the database then, and \<^verbatim>\<open>read_tree\<close> of them into an
  empty index gives every entry back, without the data of \<^verbatim>\<open>stat\<close>.
\<close>

theorem write_tree_read_back:
  assumes "od_sound S Z U fl" "sys_works S Z" "clean S fl"
    and "g_read_cache False file \<lparr>g_cache = [], g_alloc = 0, g_changed = False\<rparr> = Val (nr, ix)" "0 \<le> nr" "g_inv ix"
    and "\<forall>ce\<in>set (g_cache ix). merged_entry_ok ce" "wt_conflicts 0 (g_cache ix) = 0"
    and "args = [str ''--missing-ok''] \<or> args = [] \<and> (\<forall>ce\<in>set (g_cache ix). has_sha1_file S fl (g_sha1 ce))"
    and "tree_spec [] (g_cache ix) = (body, rest, ws)" "\<forall>w\<in>set (ws @ [body]). tree_obj w \<in> U \<and> fits S Z (tree_obj w)"
    and "4095 \<le> depth"
  shows "\<exists>fl' ix'. wt_main S Z file args fl = Wt (sha1_to_hex (object_name (tree_obj body)) @ [10], fl') \<and>
    od_get S Z fl' (object_name (tree_obj body)) = Some (tree_obj body) \<and>
    g_read_tree (od_get S Z fl') depth body 0 None \<lparr>g_cache = [], g_alloc = 0, g_changed = False\<rparr> = Val (0, ix') \<and>
    g_cache ix' = map bare_entry (g_cache ix)"
proof -
  let ?es = "g_cache ix"
  have wt: "\<forall>ce\<in>set ?es. wt_entry ce" using assms(7) by (simp add: merged_entry_ok_def)
  have run: "tree_run [] ?es body rest ws" using tree_spec_run [OF wt assms(10)] by blast
  have rest: "rest = []" by (rule tree_run_root [OF run refl wt])
  have ready: "wt_ready S Z U (length args = 1) ?es fl" using assms(1-3,9) wt by (auto simp: wt_ready_def)
  obtain fl' where w: "g_write_tree S Z (length args = 1) [] ?es ([], 8192) fl = Wt ([], object_name (tree_obj body), fl')"
      "\<forall>w\<in>set (ws @ [body]). od_get S Z fl' (object_name (tree_obj w)) = Some (tree_obj w)"
    using g_write_tree_run [OF run ready, of "[]" 8192] assms(11) unfolding rest by auto
  have "wt_main S Z file args fl = Wt (sha1_to_hex (object_name (tree_obj body)) @ [10], fl')"
    using assms(2,4,5,8,9) w(1) wt_unmerged_none [OF assms(7), of 0] by (auto simp: wt_main_def sys_works_def)
  moreover obtain es1 ix' where "?es = es1 @ rest" "read_tree_recursive (od_get S Z fl') None 0 depth [] body
      \<lparr>g_cache = [], g_alloc = 0, g_changed = False\<rparr> = Val (0, ix')" "g_cache ix' = map bare_entry es1"
  proof -
    have f1: "\<forall>ce\<in>set ?es. merged_entry_ok ce \<and> ce_namelen ce \<le> length ([] :: bytes) + depth"
    proof
      fix ce assume "ce \<in> set ?es"
      then show "merged_entry_ok ce \<and> ce_namelen ce \<le> length ([] :: bytes) + depth"
        using assms(7,12) ce_namelen_less [of ce] by simp
    qed
    have f2: "\<forall>w\<in>set ws. od_get S Z fl' (object_name (tree_obj w)) = Some (tree_obj w)" using w(2) by simp
    have f3: "g_inv \<lparr>g_cache = [], g_alloc = 0, g_changed = False\<rparr>" by (simp add: g_inv_def)
    have f4: "key_sorted gkey (g_cache \<lparr>g_cache = [], g_alloc = 0, g_changed = False\<rparr> @ map bare_entry ?es)"
      using assms(6) by (simp add: g_inv_def key_sorted_def sorted_wrt_map comp_def)
    from read_tree_run [OF run f1 f2 f3 f4] obtain es1 ix' where "?es = es1 @ rest \<and>
      read_tree_recursive (od_get S Z fl') None 0 depth [] body \<lparr>g_cache = [], g_alloc = 0, g_changed = False\<rparr> = Val (0, ix') \<and>
      g_inv ix' \<and> g_cache ix' = g_cache \<lparr>g_cache = [], g_alloc = 0, g_changed = False\<rparr> @ map bare_entry es1" by blast
    then show thesis using that [of es1 ix'] by auto
  qed
  ultimately show ?thesis using w(2) rest by (auto simp: g_read_tree_def)
qed

text \<open>
  C22: The check of \<^verbatim>\<open>main\<close> for a name that is a file and a directory compares neighbours only,
  because a conflicting name would follow at once; a name like \<^verbatim>\<open>a-b\<close> sorts between \<^verbatim>\<open>a\<close> and \<^verbatim>\<open>a/c\<close>.  The index is in
  order, the check finds nothing, and the tree has the entry twice, as a file and as a directory.
\<close>

theorem write_tree_misses_conflict:
  assumes "a \<noteq> []" "47 \<notin> set a"
    and "g_name x = a" "g_name y = a @ [45, 98]" "g_name z = a @ [47, 99]" "\<forall>e\<in>{x, y, z}. merged_entry_ok e"
  shows "key_sorted gkey [x, y, z] \<and> both_names (g_name x) (g_name z) \<and> wt_conflicts 0 [x, y, z] = 0 \<and>
    tree_spec [] [x, y, z] =
      (dir_item (g_mode x) a (g_sha1 x) @ dir_item (g_mode y) (a @ [45, 98]) (g_sha1 y) @
       dir_item S_IFDIR a (object_name (tree_obj (dir_item (g_mode z) [99] (g_sha1 z)))), [],
       [dir_item (g_mode z) [99] (g_sha1 z)])"
proof -
  have wf: "g_wf x" "g_wf y" "g_wf z" using assms(6) by (auto simp: merged_entry_ok_def wt_entry_def)
  have o: "\<not> outside [] x" "\<not> outside [] y" "\<not> outside [] z" "\<not> outside (a @ [47]) z"
    using outside_iff [OF wf(1), of "[]"] outside_iff [OF wf(2), of "[]"] outside_iff [OF wf(3)] assms(1,3-5) by auto
  have tw: "takeWhile (\<lambda>c. c \<noteq> 47) (a @ [47, 99]) = a" using assms(2) by (simp add: takeWhile_append takeWhile_eq_all_conv)
  have sub: "tree_spec (a @ [47]) [z] = (dir_item (g_mode z) [99] (g_sha1 z), [], [])"
    using o(4) assms(5) by (simp add: tree_spec.simps [of _ "[z]"])
  have z: "tree_spec [] [z] = (dir_item S_IFDIR a (object_name (tree_obj (dir_item (g_mode z) [99] (g_sha1 z)))), [],
      [dir_item (g_mode z) [99] (g_sha1 z)])"
    using o(3) assms(5) tw sub by (simp add: tree_spec.simps [of _ "[z]"])
  have y: "tree_spec [] [y, z] = (dir_item (g_mode y) (a @ [45, 98]) (g_sha1 y) @ fst (tree_spec [] [z]), snd (tree_spec [] [z]))"
    using o(2) assms(2,4) z by (simp add: tree_spec.simps [of _ "[y, z]"])
  have "tree_spec [] [x, y, z] = (dir_item (g_mode x) a (g_sha1 x) @ fst (tree_spec [] [y, z]), snd (tree_spec [] [y, z]))"
    using o(1) assms(2,3) y z by (simp add: tree_spec.simps [of _ "[x, y, z]"])
  moreover have "a < a @ [45, 98]" "a @ [45, 98] < a @ [47, 99]" by (simp_all add: list_less_def lexord_append_leftI lexord_append_rightI)
  then have "key_sorted gkey [x, y, z]" using assms(3-5) by (auto simp: key_sorted_def gkey_def)
  moreover have "both_names (g_name x) (g_name z)" "wt_conflicts 0 [x, y, z] = 0"
    using assms(3-5) by (auto simp: both_names_def nth_append)
  ultimately show ?thesis using y z by simp
qed

text \<open>What \<^verbatim>\<open>write_sha1_file\<close> returns for the tree itself is not looked at: a name is printed though nothing was written.\<close>

lemma write_tree_unwritten:
  assumes "z_malloc Z 8192" "\<not> has_sha1_file S fl (object_name (tree_obj []))" "s_tmp S fl = None"
  shows "wt_main S Z No_File [] fl = Wt (sha1_to_hex (object_name (tree_obj [])) @ [10], fl)"
proof -
  have d: "fmt_dec 0 = [48]" by (simp add: digits.simps digit_char_def)
  have prep: "write_sha1_file_prepare [] (str ''tree'') = Val (object_name (tree_obj []), str ''tree'' @ 32 # fmt_dec 0 @ [0])"
    by (simp add: write_sha1_file_prepare_def object_name_def sha1_bytes_def frame_def SHA1_Update_append Let_def d)
  have "fl (g_sha1_file_name S (object_name (tree_obj []))) = None"
    using assms(2) by (auto simp: has_sha1_file_def find_sha1_file_def split: if_splits)
  then have "\<exists>r. g_write_sha1_file S Z [] (str ''tree'') fl = Val (Some r, object_name (tree_obj []), fl)"
    unfolding g_write_sha1_file_def prep using assms(2,3) by (simp add: Let_def)
  then show ?thesis using assms(1) by (auto simp: wt_main_def g_read_cache_def g_write_tree.simps finish_tree_def)
qed

section \<open>Examples\<close>

lemma toy_merged: "no_nul nm \<Longrightarrow> nm \<noteq> [] \<Longrightarrow> last nm \<noteq> 47 \<Longrightarrow> length nm < 4096 \<Longrightarrow> merged_entry_ok (toy_gce nm)"
  by (simp add: merged_entry_ok_def wt_entry_def toy_wf)
    (simp add: toy_gce_def create_ce_mode_def S_IFMT_def S_IFLNK_def S_IFREG_def ce_permissions_def)

definition toy_file :: index_file where
  "toy_file = Contents (g_index_bytes [toy_gce [97]] @ sha1_bytes (g_index_bytes [toy_gce [97]]))"

theorem write_tree_read_back_witness:
  "\<exists>fl' ix'. wt_main toy_sys toy_zlib toy_file [str ''--missing-ok''] Map.empty =
      Wt (sha1_to_hex (object_name (tree_obj (dir_item 0x81a4 [97] (replicate 20 9)))) @ [10], fl') \<and>
    od_get toy_sys toy_zlib fl' (object_name (tree_obj (dir_item 0x81a4 [97] (replicate 20 9)))) =
      Some (tree_obj (dir_item 0x81a4 [97] (replicate 20 9))) \<and>
    g_read_tree (od_get toy_sys toy_zlib fl') 4095 (dir_item 0x81a4 [97] (replicate 20 9)) 0 None
      \<lparr>g_cache = [], g_alloc = 0, g_changed = False\<rparr> = Val (0, ix') \<and>
    g_cache ix' = map bare_entry (g_cache \<lparr>g_cache = [toy_gce [97]], g_alloc = g_alloc_nr 1, g_changed = False\<rparr>)"
proof (rule write_tree_read_back)
  let ?b = "dir_item 0x81a4 [97] (replicate 20 9)"
  have wf: "g_wf (toy_gce [97])" by (simp add: toy_wf)
  have len: "length ?b \<le> 34" using length_dir_item [of "replicate 20 9" "0x81a4" "[97]"] by simp
  then have "length (fmt_dec (length ?b)) \<le> 2" by (intro length_digits_le) simp_all
  then show "\<forall>w\<in>set ([] @ [?b]). tree_obj w \<in> {tree_obj ?b} \<and> fits toy_sys toy_zlib (tree_obj w)"
    using len by (simp add: fits_def packable_def g_type_ok_def toy_zlib_def toy_sys_def frame_def)
  show "od_sound toy_sys toy_zlib {tree_obj ?b} Map.empty" by (rule toy_sound) simp
  show "sys_works toy_sys toy_zlib" by (rule toy_works)
  show "clean toy_sys Map.empty" by (simp add: clean_def)
  show "g_read_cache False toy_file \<lparr>g_cache = [], g_alloc = 0, g_changed = False\<rparr> =
      Val (1, \<lparr>g_cache = [toy_gce [97]], g_alloc = g_alloc_nr 1, g_changed = False\<rparr>)"
    using g_read_written [of "[toy_gce [97]]" "\<lparr>g_cache = [], g_alloc = 0, g_changed = False\<rparr>"] wf by (simp add: toy_file_def)
  show "g_inv \<lparr>g_cache = [toy_gce [97]], g_alloc = g_alloc_nr 1, g_changed = False\<rparr>"
    using wf by (simp add: g_inv_def key_sorted_def g_alloc_nr_def)
  show "\<forall>ce\<in>set (g_cache \<lparr>g_cache = [toy_gce [97]], g_alloc = g_alloc_nr 1, g_changed = False\<rparr>). merged_entry_ok ce"
    using toy_merged [of "[97]"] by simp
  have "\<not> outside [] (toy_gce [97])" using outside_iff [OF wf, of "[]"] by simp
  then show "tree_spec [] (g_cache \<lparr>g_cache = [toy_gce [97]], g_alloc = g_alloc_nr 1, g_changed = False\<rparr>) = (?b, [], [])"
    by (simp add: tree_spec.simps) (simp add: toy_gce_def)
qed simp_all

theorem write_tree_misses_conflict_witness:
  "key_sorted gkey [toy_gce [97], toy_gce [97, 45, 98], toy_gce [97, 47, 99]] \<and>
   both_names (g_name (toy_gce [97])) (g_name (toy_gce [97, 47, 99])) \<and>
   wt_conflicts 0 [toy_gce [97], toy_gce [97, 45, 98], toy_gce [97, 47, 99]] = 0"
  using write_tree_misses_conflict [of "[97]" "toy_gce [97]" "toy_gce [97, 45, 98]" "toy_gce [97, 47, 99]"]
    toy_merged [of "[97]"] toy_merged [of "[97, 45, 98]"] toy_merged [of "[97, 47, 99]"] by simp

end
