(* ===== verification/Git_Csum_File.thy ===== *)
theory Git_Csum_File
  imports Git_Objects Git_Util
begin

text \<open>
  Files with a SHA-1 behind their data, \<^verbatim>\<open>src/git-0.99.1/csum-file.c\<close>: the bytes are gathered in a buffer of 8192 bytes,
  which is hashed and flushed when it is full.  The system calls are answers as in theory \<open>Git_Util\<close>.
\<close>

section \<open>Writing (csum-file.c)\<close>

text \<open>\<^verbatim>\<open>struct sha1file\<close>: the context of the hash, the first \<^verbatim>\<open>offset\<close> bytes of the buffer, what has reached the file, and the answers.\<close>

record sha1file =
  sf_ctx :: SHA_CTX
  sf_buf :: bytes
  sf_out :: bytes
  sf_io :: "io list"

definition SF_BUFFER :: nat where "SF_BUFFER = 8192"

text \<open>\<^verbatim>\<open>sha1fd\<close> and \<^verbatim>\<open>sha1create\<close> on an open descriptor; a name that is too long is refused.\<close>

definition sha1fd :: "bytes \<Rightarrow> io list \<Rightarrow> sha1file option" where
  "sha1fd nm sc = (if PATH_MAX \<le> length nm then None else Some \<lparr>sf_ctx = SHA1_Init, sf_buf = [], sf_out = [], sf_io = sc\<rparr>)"

text \<open>\<^verbatim>\<open>sha1flush\<close>: the bytes that have reached the file, how it ended, and the answers left.\<close>

fun sha1flush :: "io list \<Rightarrow> bytes \<Rightarrow> bytes \<times> ending \<times> io list" where
  "sha1flush [] buf = ([], Waiting, [])"
| "sha1flush (Moved n # sc) buf =
     (let ret = min n (length buf) in
      if 0 < ret then
        (if drop ret buf \<noteq> [] then (case sha1flush sc (drop ret buf) of (out, e, sc') \<Rightarrow> (take ret buf @ out, e, sc'))
         else (buf, Finished, sc))
      else ([], Died, sc))"
| "sha1flush (Again # sc) buf = sha1flush sc buf"
| "sha1flush (Failed # sc) buf = ([], Died, sc)"

definition flush_file :: "bytes \<Rightarrow> sha1file \<Rightarrow> ending \<times> sha1file" where
  "flush_file data f = (case sha1flush (sf_io f) data of (out, e, sc) \<Rightarrow> (e, f\<lparr>sf_out := sf_out f @ out, sf_io := sc\<rparr>))"

definition sf_left :: "sha1file \<Rightarrow> nat" where
  "sf_left f = SF_BUFFER - length (sf_buf f)"

function sha1write :: "bytes \<Rightarrow> sha1file \<Rightarrow> ending \<times> sha1file" where
  "sha1write buf f =
     (if buf = [] then (Finished, f)
      else (let nr = min (sf_left f) (length buf); data = sf_buf f @ take nr buf in
        if sf_left f \<le> nr then
          (case flush_file data (f\<lparr>sf_ctx := SHA1_Update (sf_ctx f) data\<rparr>) of (e, f1) \<Rightarrow>
             if e \<noteq> Finished then (e, f1) else sha1write (drop nr buf) (f1\<lparr>sf_buf := []\<rparr>))
        else sha1write (drop nr buf) (f\<lparr>sf_buf := data\<rparr>)))"
  by pat_completeness auto
termination
  by (relation "measure (\<lambda>(buf, f). 2 * length buf + (if sf_left f = 0 then 1 else 0))")
    (auto simp: sf_left_def SF_BUFFER_def)

declare sha1write.simps [simp del]

text \<open>\<^verbatim>\<open>sha1close\<close>, which hashes and flushes the rest; \<open>closed\<close> tells whether \<^verbatim>\<open>close\<close> works.\<close>

definition sha1close :: "bool \<Rightarrow> bool \<Rightarrow> sha1file \<Rightarrow> ending \<times> bytes \<times> sha1file" where
  "sha1close closed update f =
     (let ctx = (if sf_buf f \<noteq> [] then SHA1_Update (sf_ctx f) (sf_buf f) else sf_ctx f) in
      case (if sf_buf f \<noteq> [] then flush_file (sf_buf f) f else (Finished, f)) of (e, f1) \<Rightarrow>
        if e \<noteq> Finished then (e, [], f1)
        else (let sha1 = fst (SHA1_Final ctx) in
          case (if update then flush_file sha1 f1 else (Finished, f1)) of (e, f2) \<Rightarrow>
            if e \<noteq> Finished then (e, sha1, f2)
            else if closed then (Finished, sha1, f2) else (Died, sha1, f2)))"

text \<open>\<^verbatim>\<open>sha1write_compressed\<close>: the number of bytes written; \<open>None\<close> when there is no memory.\<close>

definition sha1write_compressed :: "zlib \<Rightarrow> bytes \<Rightarrow> sha1file \<Rightarrow> (nat \<times> ending \<times> sha1file) option" where
  "sha1write_compressed Z data f =
     (let maxsize = z_bound Z (length data) in
      if \<not> z_malloc Z maxsize then None
      else (let out = take maxsize (z_deflate Z [data]) in Some (length out, sha1write out f)))"

section \<open>What the file holds\<close>

definition sf_has :: "sha1file \<Rightarrow> bytes \<Rightarrow> bool" where
  "sf_has f s \<longleftrightarrow> sf_out f @ sf_buf f = s \<and> sf_ctx f = SHA1_Update SHA1_Init (sf_out f) \<and> length (sf_buf f) < SF_BUFFER"

lemma lively_Cons [simp]: "lively (a # sc) \<longleftrightarrow> (case a of Moved n \<Rightarrow> 0 < n | Again \<Rightarrow> True | Failed \<Rightarrow> False) \<and> lively sc"
  by (simp add: lively_def)

lemma moves_simps [simp]: "moves [] = 0" "moves (Moved n # sc) = Suc (moves sc)" "moves (Again # sc) = moves sc"
  by (simp_all add: moves_def)

lemma sha1flush_lively:
  "lively sc \<Longrightarrow> buf \<noteq> [] \<Longrightarrow> length buf \<le> moves sc \<Longrightarrow>
    \<exists>sc'. sha1flush sc buf = (buf, Finished, sc') \<and> lively sc' \<and> moves sc - length buf \<le> moves sc'"
proof (induction sc buf rule: sha1flush.induct)
  case (2 n sc buf)
  let ?k = "min n (length buf)"
  have k: "0 < ?k" using 2 by auto
  show ?case
  proof (cases "drop ?k buf = []")
    case True
    then have "length buf \<le> n" "0 < length buf" using 2(3) k by (auto simp: min_def split: if_splits)
    then have "Suc (moves sc) - length buf \<le> moves sc" by linarith
    then show ?thesis using True 2(2) k by (simp add: Let_def)
  next
    case False
    have "length (drop ?k buf) \<le> moves sc" using 2(4) k by (simp add: min_def split: if_splits)
    then obtain sc' where sc': "sha1flush sc (drop ?k buf) = (drop ?k buf, Finished, sc')" "lively sc'" "moves sc - length (drop ?k buf) \<le> moves sc'"
      using 2(1) [OF refl k False] 2(2) False by auto
    have "sha1flush (Moved n # sc) buf = (take ?k buf @ drop ?k buf, Finished, sc')"
      unfolding sha1flush.simps Let_def using k False sc'(1) by simp
    moreover have "moves (Moved n # sc) - length buf \<le> moves sc'" using sc'(3) k by (simp add: min_def split: if_splits)
    ultimately show ?thesis using sc'(2) by simp
  qed
qed auto

lemma flush_file_lively:
  assumes "lively (sf_io f)" "data \<noteq> []" "length data \<le> moves (sf_io f)"
  shows "\<exists>sc. flush_file data f = (Finished, f\<lparr>sf_out := sf_out f @ data, sf_io := sc\<rparr>) \<and> lively sc \<and>
    moves (sf_io f) - length data \<le> moves sc"
  using sha1flush_lively [OF assms] by (auto simp: flush_file_def)

text \<open>Answers for the bytes that have not reached the file, and \<open>k\<close> more.\<close>

definition sf_live :: "nat \<Rightarrow> sha1file \<Rightarrow> bool" where
  "sf_live k f \<longleftrightarrow> lively (sf_io f) \<and> length (sf_buf f) + k \<le> moves (sf_io f)"

lemma sha1write_ok:
  assumes "sf_has f s" "sf_live (length buf + k) f"
  shows "\<exists>f'. sha1write buf f = (Finished, f') \<and> sf_has f' (s @ buf) \<and> sf_live k f'"
  using assms
proof (induction buf f arbitrary: s rule: sha1write.induct)
  case (1 buf f)
  show ?case
  proof (cases "buf = []")
    case True
    then show ?thesis using 1 by (simp add: sha1write.simps)
  next
    case False
    define nr where "nr = min (sf_left f) (length buf)"
    define data where "data = sf_buf f @ take nr buf"
    have small: "0 < sf_left f" using 1(3) by (simp add: sf_has_def sf_left_def)
    have nr: "0 < nr" "nr \<le> length buf" "nr \<le> sf_left f" using small False by (auto simp: nr_def)
    note rec = sha1write.simps [of buf f, unfolded Let_def, folded nr_def, folded data_def]
    show ?thesis
    proof (cases "sf_left f \<le> nr")
      case True
      have len: "length data = SF_BUFFER" using True nr small by (simp add: data_def sf_left_def)
      let ?f = "f\<lparr>sf_ctx := SHA1_Update (sf_ctx f) data\<rparr>"
      have "lively (sf_io ?f)" "data \<noteq> []" "length data \<le> moves (sf_io ?f)"
        using 1(4) nr len by (auto simp: sf_live_def data_def SF_BUFFER_def)
      then obtain sc where sc: "flush_file data ?f = (Finished, ?f\<lparr>sf_out := sf_out ?f @ data, sf_io := sc\<rparr>)" "lively sc"
          "moves (sf_io ?f) - length data \<le> moves sc"
        using flush_file_lively [of ?f data] by blast
      let ?g = "?f\<lparr>sf_out := sf_out ?f @ data, sf_io := sc, sf_buf := []\<rparr>"
      have "sf_has ?g (s @ take nr buf)" using 1(3) by (auto simp: sf_has_def data_def SHA1_Update_append SF_BUFFER_def)
      moreover have "sf_live (length (drop nr buf) + k) ?g" using 1(4) sc(2,3) nr by (auto simp: sf_live_def data_def)
      ultimately obtain f' where "sha1write (drop nr buf) ?g = (Finished, f')" "sf_has f' ((s @ take nr buf) @ drop nr buf)" "sf_live k f'"
        using 1(1) [OF False nr_def data_def True sc(1) [symmetric]] by fastforce
      moreover have "sha1write buf f = sha1write (drop nr buf) ?g" using rec False True sc(1) by simp
      ultimately show ?thesis by simp
    next
      case part: False
      let ?g = "f\<lparr>sf_buf := data\<rparr>"
      have all: "nr = length buf" using part by (simp add: nr_def min_def split: if_splits)
      have "sha1write buf f = (Finished, ?g)" using rec False part all by (simp add: sha1write.simps [of "[]"])
      moreover have "sf_has ?g (s @ buf)" using 1(3) all part by (auto simp: sf_has_def data_def sf_left_def)
      moreover have "sf_live k ?g" using 1(4) all by (simp add: sf_live_def data_def)
      ultimately show ?thesis by blast
    qed
  qed
qed

lemma sha1close_ok:
  assumes "sf_has f s" "sf_live 20 f"
  shows "\<exists>f'. sha1close True True f = (Finished, sha1_bytes s, f') \<and> sf_out f' = s @ sha1_bytes s"
proof -
  let ?sha1 = "sha1_bytes s"
  have l20: "length ?sha1 = 20" by (simp add: sha1_bytes_def SHA1_fips length_sha1_fips)
  then have ne: "?sha1 \<noteq> []" by auto
  show ?thesis
  proof (cases "sf_buf f = []")
    case True
    then have ctx: "fst (SHA1_Final (sf_ctx f)) = ?sha1" "sf_out f = s" using assms(1) by (auto simp: sf_has_def sha1_bytes_def)
    obtain sc where "flush_file ?sha1 f = (Finished, f\<lparr>sf_out := sf_out f @ ?sha1, sf_io := sc\<rparr>)"
      using flush_file_lively [of f ?sha1] assms(2) True l20 ne by (auto simp: sf_live_def)
    then show ?thesis using True ctx by (simp add: sha1close_def Let_def)
  next
    case False
    have s: "sf_out f @ sf_buf f = s" "SHA1_Update (sf_ctx f) (sf_buf f) = SHA1_Update SHA1_Init s"
      using assms(1) by (auto simp: sf_has_def SHA1_Update_append)
    obtain sc where sc: "flush_file (sf_buf f) f = (Finished, f\<lparr>sf_out := s, sf_io := sc\<rparr>)" "lively sc"
        "moves (sf_io f) - length (sf_buf f) \<le> moves sc"
      using flush_file_lively [of f "sf_buf f"] assms(2) False s(1) by (auto simp: sf_live_def)
    obtain sc' where "flush_file ?sha1 (f\<lparr>sf_out := s, sf_io := sc\<rparr>) = (Finished, f\<lparr>sf_out := s @ ?sha1, sf_io := sc'\<rparr>)"
    proof -
      have "20 \<le> moves sc" using sc(3) assms(2) unfolding sf_live_def by linarith
      then show thesis using flush_file_lively [of "f\<lparr>sf_out := s, sf_io := sc\<rparr>" ?sha1] sc(2) l20 ne that by auto
    qed
    then show ?thesis using False sc(1) s(2) by (simp add: sha1close_def Let_def sha1_bytes_def)
  qed
qed

section \<open>Properties\<close>

text \<open>A sequence of \<^verbatim>\<open>sha1write\<close>s and \<^verbatim>\<open>sha1close\<close>.\<close>

fun sha1writes :: "bytes list \<Rightarrow> sha1file \<Rightarrow> ending \<times> sha1file" where
  "sha1writes [] f = (Finished, f)"
| "sha1writes (b # bs) f = (case sha1write b f of (e, f1) \<Rightarrow> if e \<noteq> Finished then (e, f1) else sha1writes bs f1)"

lemma sha1writes_ok:
  "sf_has f s \<Longrightarrow> sf_live (length (concat bs) + k) f \<Longrightarrow>
    \<exists>f'. sha1writes bs f = (Finished, f') \<and> sf_has f' (s @ concat bs) \<and> sf_live k f'"
proof (induction bs arbitrary: f s)
  case (Cons b bs)
  then obtain f1 where f1: "sha1write b f = (Finished, f1)" "sf_has f1 (s @ b)" "sf_live (length (concat bs) + k) f1"
    using sha1write_ok [of f s b "length (concat bs) + k"] by (auto simp: add.assoc)
  then show ?case using Cons.IH [OF f1(2,3)] by simp
qed simp

text \<open>
  C20: Whatever pieces the system calls move, as long as each of them moves a byte or asks to be repeated,
  the writes of a file with a check sum and its close come to an end; then the file holds the data in order and, behind it,
  their SHA-1, which is also returned.
\<close>

theorem sha1file_complete:
  assumes "length nm < PATH_MAX" "lively sc" "length (concat bs) + 20 \<le> moves sc" "sha1fd nm sc = Some f"
  shows "\<exists>f1 f2. sha1writes bs f = (Finished, f1) \<and> sha1close True True f1 = (Finished, sha1_fips (concat bs), f2) \<and>
    sf_out f2 = concat bs @ sha1_fips (concat bs)"
proof -
  have f: "sf_has f []" "sf_live (length (concat bs) + 20) f"
    using assms by (auto simp: sha1fd_def sf_has_def sf_live_def SF_BUFFER_def SHA1_Update_def)
  obtain f1 where f1: "sha1writes bs f = (Finished, f1)" "sf_has f1 (concat bs)" "sf_live 20 f1" using sha1writes_ok [OF f] by auto
  then show ?thesis using sha1close_ok [OF f1(2,3)] by (auto simp: sha1_bytes_def SHA1_fips)
qed

theorem sha1file_complete_witness:
  "\<exists>f f1 f2. sha1fd [112] (Again # replicate 30 (Moved 1)) = Some f \<and> sha1writes [[1, 2], [3]] f = (Finished, f1) \<and>
    sha1close True True f1 = (Finished, sha1_fips (concat [[1, 2], [3]]), f2) \<and>
    sf_out f2 = concat [[1, 2], [3]] @ sha1_fips (concat [[1, 2], [3]])"
proof -
  obtain f where f: "sha1fd [112] (Again # replicate 30 (Moved 1)) = Some f" by (simp add: sha1fd_def PATH_MAX_def)
  have "lively (Again # replicate 30 (Moved 1))" by (simp add: lively_def list_all_iff)
  moreover have "length (concat [[1, 2], [3 :: byte]]) + 20 \<le> moves (Again # replicate 30 (Moved 1))"
    by (simp add: moves_def)
  ultimately show ?thesis using sha1file_complete [OF _ _ _ f, of "[[1, 2], [3]]"] f by (simp add: PATH_MAX_def)
qed

end
