(* ===== verification/Spec2Isabelle.thy ===== *)
theory Spec2Isabelle
  imports Session Examples Git_Delta Git_Sha1 Git_Util Git_Date Git_Read_Tree Git_Write_Tree Git_Csum_File
begin

section \<open>The index\<close>

lemma key_pos_found:
  assumes "key_sorted key es" "k \<in> key ` set es"
  shows "key_pos key k es < length es \<and> key (es ! key_pos key k es) = k"
proof -
  obtain i where i: "i < length es" "key (es ! i) = k" using assms(2) by (auto simp: in_set_conv_nth)
  have le: "key_pos key k es \<le> i" using key_pos_nth_less [OF assms(1), of i k] i(2) by (meson leI less_irrefl)
  have "\<not> key_pos key k es < i"
  proof
    assume lt: "key_pos key k es < i"
    then have "key (es ! key_pos key k es) < k"
      using assms(1) i by (auto simp: key_sorted_def sorted_wrt_iff_nth_less)
    moreover have "k \<le> key (es ! key_pos key k es)"
      using lt i(1) by (intro key_pos_nth_ge [OF assms(1)]) auto
    ultimately show False by simp
  qed
  with le i show ?thesis by simp
qed

text \<open>
  C8: the binary search returns, coded as a negative number, the position of the entry
  with the given name, and otherwise the position at which an entry with that name belongs.
\<close>

theorem cache_name_pos_correct:
  assumes "cache_inv w" "len \<le> length nm"
  defines "k \<equiv> take len nm" and "es \<equiv> entries w"
  shows "\<exists>pos. cache_name_pos nm len w = Some pos \<and>
    (pos < 0 \<longrightarrow> nat (- pos - 1) < length es \<and> ce_name (es ! nat (- pos - 1)) = k) \<and>
    (0 \<le> pos \<longrightarrow> k \<notin> ce_name ` set es \<and> nat pos \<le> length es \<and>
      (\<forall>i<nat pos. ce_name (es ! i) < k) \<and> (\<forall>i. nat pos \<le> i \<and> i < length es \<longrightarrow> k < ce_name (es ! i)))"
proof -
  let ?p = "key_pos ce_name k es"
  have sorted: "key_sorted ce_name es" using assms(1) by (simp add: cache_inv_def es_def)
  have pos: "cache_name_pos nm len w = Some (coded_pos k es)"
    using cache_name_pos_spec [OF assms(1,2)] by (simp add: k_def es_def)
  show ?thesis
  proof (cases "k \<in> ce_name ` set es")
    case True
    with pos key_pos_found [OF sorted True] show ?thesis by (simp add: coded_pos_def)
  next
    case False
    moreover have "k < ce_name (es ! i)" if "?p \<le> i" "i < length es" for i
    proof -
      have "k \<le> ce_name (es ! i)" "ce_name (es ! i) \<noteq> k"
        using key_pos_nth_ge [OF sorted that] False that(2) by auto
      then show ?thesis by simp
    qed
    ultimately show ?thesis
      using pos key_pos_le [of ce_name k es] key_pos_nth_less [OF sorted] by (simp add: coded_pos_def)
  qed
qed

text \<open>
  C5: inserting an entry into the array in memory keeps its invariant, changes no file,
  and implements the update of a finite map from names to entries.
\<close>

theorem add_cache_entry_refines:
  assumes "cache_inv w" "wf_ce ce" "unat (active_nr w) < 2 ^ 29"
  shows "\<exists>w'. add_cache_entry ce w = Ret 0 w' \<and> cache_inv w' \<and> same_but_cache w w' \<and>
    find_key ce_name k (entries w') = (if k = ce_name ce then Some ce else find_key ce_name k (entries w)) \<and>
    distinct (map ce_name (entries w'))"
proof -
  obtain w' where w': "add_cache_entry ce w = Ret 0 w'" "cache_inv w'" "same_but_cache w w'"
    using add_cache_entry_spec [OF assms] by blast
  with dircache.find_put [OF assms(1,2), of w'] dircache.put_unique [OF assms(1,2), of w'] assms(3)
  show ?thesis by auto
qed

text \<open>
  C34: \<^verbatim>\<open>remove_file_from_cache\<close> of \<^verbatim>\<open>update-cache.c\<close> moves one entry too few: when the
  entry to remove is not the last one, the last entry of the index is lost, and its neighbour takes
  the last place.
\<close>

theorem remove_file_from_cache_drops_last:
  assumes "cache_inv w" "path \<in> ce_name ` set (entries w)" "ce_name (last (entries w)) \<noteq> path"
  shows "\<exists>w'. remove_file_from_cache path w = Ret () w' \<and>
    length (entries w') = length (entries w) - 1 \<and> last (entries w) \<notin> set (entries w') \<and>
    last (entries w') = entries w ! (length (entries w) - 2)"
proof -
  define es where "es = entries w"
  define p where "p = key_pos ce_name path es"
  have sorted: "key_sorted ce_name es" using assms(1) by (simp add: cache_inv_def es_def)
  have p: "p < length es" "ce_name (es ! p) = path"
    using key_pos_found [OF sorted, of path] assms(2) by (auto simp: p_def es_def)
  have "p \<noteq> length es - 1"
  proof
    assume "p = length es - 1"
    then have "last es = es ! p" using p(1) by (subst last_conv_nth) auto
    with p(2) assms(3) show False by (simp add: es_def)
  qed
  with p have p1: "p + 1 < length es" by simp
  obtain w' where w': "remove_file_from_cache path w = Ret () w'" "entries w' = short_shift p es"
    using remove_file_from_cache_present [OF assms(1,2)] by (auto simp: p_def es_def)
  have dist: "distinct es" using key_sorted_distinct [OF sorted] by (simp add: distinct_map)
  have "x \<noteq> last es" if "x \<in> set (take (length es - 1) es)" for x
    using that dist p1 by (cases es rule: rev_cases) auto
  moreover have "set (short_shift p es) \<subseteq> set (take (length es - 1) es)"
  proof -
    have "es ! (length es - 2) \<in> set (take (length es - 1) es)"
      using p1 by (auto simp: in_set_conv_nth intro!: exI [of _ "length es - 2"])
    moreover have "set (take p es) \<subseteq> set (take (length es - 1) es)"
      using p1 by (intro set_take_subset_set_take) simp
    moreover have "take (length es - 2 - p) (drop (p + 1) es) = drop (p + 1) (take (length es - 1) es)"
      using p1 by (simp add: drop_take)
    ultimately show ?thesis using p1 by (auto simp: short_shift_def dest: in_set_dropD)
  qed
  ultimately have "last es \<notin> set (short_shift p es)" by blast
  moreover have "length (short_shift p es) = length es - 1" "last (short_shift p es) = es ! (length es - 2)"
    using p1 by (simp_all add: short_shift_def)
  ultimately show ?thesis using w' by (simp add: es_def)
qed

text \<open>
  C4: reading an index file that \<^verbatim>\<open>write_cache\<close> wrote, with whatever room there was and
  reported as a success, gives back exactly the entries that were in memory.
\<close>

theorem index_round_trip:
  assumes "sha1_ok E" "cache_inv w" "entries w \<noteq> []" "unat (active_nr w) < 2 ^ 29"
    "fs w index_lock = Some (Regular s [])"
    "write_cache E index_lock (slots w) (unat (active_nr w)) w = Ret 0 w1"
    "index_readable d w2" "fs w2 index_path = fs w1 index_lock"
  shows "\<exists>w3. read_cache E w2 = Ret (int (length (entries w))) w3 \<and> cache_inv w3 \<and> entries w3 = entries w"
proof -
  have "fs w1 index_lock = Some (Regular s (index_bytes E (entries w)))"
    using write_cache_complete [OF assms(6,5,1)] cache_inv_deref [OF assms(2)] by auto
  with assms(7,8) have r: "index_readable (index_bytes E (entries w)) w2" by (auto simp: index_readable_def)
  have "\<forall>ce\<in>set (entries w). wf_ce ce" "key_sorted ce_name (entries w)"
    using assms(2) by (auto simp: cache_inv_def)
  with read_cache_index_bytes [OF assms(1) _ _ assms(3) _ r] length_entries [OF assms(2)] assms(4)
  show ?thesis by auto
qed

text \<open>
  C35: an index file with a wrong signature, version or checksum is refused with -1, and the
  array in memory and all files stay as they are.
\<close>

theorem read_cache_rejects_damage:
  assumes "index_readable m w" "32 < length m"
    "get32 m 0 \<noteq> CACHE_SIGNATURE \<or> get32 m 4 \<noteq> 1 \<or> SHA1 E (take 12 m @ drop 32 m) \<noteq> take 20 (drop 12 m)"
  shows "\<exists>w'. read_cache E w = Ret (- 1) w' \<and> active_cache w' = active_cache w \<and>
    active_nr w' = active_nr w \<and> fs w' = fs w"
  using load_index_rejects [OF assms(3), of "w\<lparr>errno := EINVAL\<rparr>"] assms(2)
  by (simp add: read_cache_load [OF assms(1)])

text \<open>
  C36: an index file without entries, which \<^verbatim>\<open>write_cache\<close> itself produces, is too short for the
  test in \<^verbatim>\<open>read_cache\<close>: the next command dereferences a null pointer.
\<close>

theorem read_cache_empty_crash:
  assumes "sha1_ok E" "index_readable (index_bytes E []) w"
  shows "read_cache E w = Undef"
  using assms by (rule read_cache_empty_index)

section \<open>Names and objects\<close>

text \<open>
  C33: \<^verbatim>\<open>get_sha1_hex\<close> accepts exactly the strings that start with forty hexadecimal digits, and is
  inverse to \<^verbatim>\<open>sha1_to_hex\<close>.
\<close>

theorem get_sha1_hex_accepts:
  "(get_sha1_hex hex \<noteq> None \<longleftrightarrow> 40 \<le> length hex \<and> (\<forall>i<40. is_hex (hex ! i))) \<and>
   (length sha1 = 20 \<longrightarrow> get_sha1_hex (sha1_to_hex sha1) = Some sha1)"
  using get_sha1_hex_loop_iff [of 20 hex] get_sha1_hex_to_hex [of sha1 "[]"]
  by (simp add: get_sha1_hex_def)

text \<open>
  different object names have different file names, none of which is the index or its lock.
\<close>

theorem sha1_file_name_injective:
  assumes "env_ok w" "length s = 20" "length t = 20"
  shows "(object_path s w = object_path t w \<longleftrightarrow> s = t) \<and> object_path s w \<noteq> index_path \<and> object_path s w \<noteq> index_lock"
  using assms sha1_file_name_inj [of "sha1_file_directory w" s t] index_not_object [OF assms(1)]
  by (auto simp: object_path_def env_ok_def object_paths_def)

text \<open>
  C32: \<^verbatim>\<open>verify_path\<close> accepts a path exactly when each of its components is neither empty nor starts
  with a dot: no absolute path, no empty component, no hidden file, no way up.
\<close>

theorem verify_path_safe:
  assumes "no_nul path"
  shows "verify_path path \<longleftrightarrow> (\<forall>x\<in>set (components path). x \<noteq> [] \<and> hd x \<noteq> 46)"
  using verify_path_components [OF assms] by (simp add: good_component_def)


text \<open>
  C40: when there is no room for a whole object, the file keeps the bytes that fitted and
  \<^verbatim>\<open>write_sha1_buffer\<close> still returns 0.
\<close>

theorem short_write_reported_as_success:
  assumes "fs w (object_path sha1 w) = None" "no_fault (object_path sha1 w) w"
    "is_dir w (parent (object_path sha1 w))" "room w (object_path sha1 w) = Some n" "n < length buf"
  shows "\<exists>w' st. write_sha1_buffer sha1 buf w = (0, w') \<and>
    fs w' (object_path sha1 w) = Some (Regular st (take n buf))"
proof -
  obtain r w' where e: "write_sha1_buffer sha1 buf w = (r, w')" by fastforce
  then show ?thesis
    by (cases rule: write_sha1_buffer_cases) (use assms e in \<open>auto simp: no_fault_def\<close>)
qed

text \<open>
  an empty file cannot be added: \<^verbatim>\<open>mmap\<close> refuses a mapping of length 0.
\<close>

theorem empty_file_not_added:
  assumes "fs w path = Some (Regular s [])" "no_fault path w"
  shows "\<exists>w'. add_file_to_cache E noret path w = Ret (- 1) w' \<and> fs w' = fs w"
  using assms by (simp add: add_file_to_cache_def sys_defs no_fault_def index_fd_def Let_def)


section \<open>Whole commands\<close>

text \<open>A command line that is one option: \<^verbatim>\<open>main\<close> runs its case and ends.\<close>

lemma main_one_option:
  assumes "getopt_long optstring opts (scanner_start argv) = Opt c a g"
    "getopt_long optstring opts g = Done (length argv) argv" "argv_now g = argv"
  shows "main P argv w = bindO (run_option P c a argv w) (\<lambda>goes_on w1. if goes_on then Ret 0 w1 else Ret 1 w1)"
proof -
  have 1: "main_loop P g v = Ret 0 v" for v
    unfolding main_loop.simps [of P g] assms(2) by (simp add: printf_def)
  show ?thesis
    unfolding main_def main_loop.simps [of P "scanner_start argv"] assms(1) scan.case 1 assms(3) ..
qed

lemmas getopt_simps = getopt_long_def scanner_start_def permute_def is_nonoption_def Let_def
  long_option_at_def find_long_def opts_def advance_def argv_now_def

lemma main_add_option:
  "main P [prog, str ''--add'', path] w =
     bindO (run_option P (of_char CHR ''a'') (Some path) [prog, str ''--add'', path] w)
       (\<lambda>goes_on w1. if goes_on then Ret 0 w1 else Ret 1 w1)"
  by (rule main_one_option [where g = "\<lparr>seen = [prog, str ''--add'', path], todo = [], first_nonopt = 1,
        last_nonopt = 1, nextchar = []\<rparr>"])
    (simp_all add: getopt_simps)

lemma main_init_option:
  "main P [prog, str ''--init''] w =
     bindO (run_option P (of_char CHR ''i'') None [prog, str ''--init''] w)
       (\<lambda>goes_on w1. if goes_on then Ret 0 w1 else Ret 1 w1)"
  by (rule main_one_option [where g = "\<lparr>seen = [prog, str ''--init''], todo = [], first_nonopt = 1,
        last_nonopt = 1, nextchar = []\<rparr>"])
    (simp_all add: getopt_simps)

lemma main_reset_option:
  "main P [prog, str ''--reset''] w =
     bindO (run_option P (of_char CHR ''r'') None [prog, str ''--reset''] w)
       (\<lambda>goes_on w1. if goes_on then Ret 0 w1 else Ret 1 w1)"
  by (rule main_one_option [where g = "\<lparr>seen = [prog, str ''--reset''], todo = [], first_nonopt = 1,
        last_nonopt = 1, nextchar = []\<rparr>"])
    (simp_all add: getopt_simps)

text \<open>
  while another process holds the lock, \<^verbatim>\<open>git --add path\<close> changes no file, but it still prints
  that the path was added and exits with status 0, because \<^verbatim>\<open>main\<close> does not look at the result of
  \<^verbatim>\<open>update_cache\<close>.
\<close>

theorem main_add_claims_success:
  assumes "sha1_ok (p_ext P)" "on_disk (p_ext P) es w" "fs w index_lock \<noteq> None"
  shows "\<exists>w'. main P [prog, str ''--add'', path] w = Ret 0 w' \<and> fs w' = fs w \<and>
    stdout w' = stdout w @ path @ str '' is added to cache!'' @ newline"
proof -
  obtain w1 where r: "read_cache (p_ext P) w = Ret (int (length es)) w1" "fs w1 = fs w" "stdout w1 = stdout w"
    using read_cache_on_disk [OF assms(1,2)] by blast
  obtain w2 where o: "open_excl index_lock w1 = (False, w2)" "fs w2 = fs w1" "stdout w2 = stdout w1"
  proof (cases "fault w1 SysCreat index_lock")
    case None
    then show ?thesis using assms(3) r(2) that [of "w1\<lparr>errno := EEXIST\<rparr>"] by (simp add: sys_defs)
  next
    case (Some e)
    then show ?thesis using that [of "w1\<lparr>errno := e\<rparr>"] by (simp add: sys_defs)
  qed
  let ?w3 = "perror (str ''unable to create new cachefile'') w2"
  have u: "update_cache (p_ext P) (p_noret P) argv w = Ret (Some (- 1)) ?w3" for argv
    using r(1) o(1) by (simp add: update_cache_def del: str_Cons)
  let ?w4 = "printf (path @ str '' is added to cache!'' @ newline) ?w3"
  have "main P [prog, str ''--add'', path] w = Ret 0 ?w4"
    unfolding main_add_option run_option_def Let_def u by (simp del: str_Cons)
  moreover have "fs ?w4 = fs w" "stdout ?w4 = stdout w @ path @ str '' is added to cache!'' @ newline"
    using r o by (simp_all add: out_defs del: str_Cons)
  ultimately show ?thesis by blast
qed

text \<open>Paths that are not directories made by \<^verbatim>\<open>init\<close>.\<close>

lemma init_dirs_shape: "p \<in> init_dirs \<Longrightarrow> hd p = 46 \<and> p \<noteq> [] \<and> length p \<le> 20"
  using length_fmt_02x
  by (auto simp: init_dirs_def dircache_dir_def DEFAULT_DB_ENVIRONMENT_def fanout_dir_def)

lemma not_init_dir:
  "index_path \<notin> init_dirs" "index_lock \<notin> init_dirs" "verify_path p \<Longrightarrow> p \<notin> init_dirs"
  using init_dirs_shape [of p]
  by (auto simp: init_dirs_def dircache_dir_def DEFAULT_DB_ENVIRONMENT_def fanout_dir_def index_path_def
      index_lock_def verify_path_def elim: path_inside.elims)

lemma creatable_none: "creatable w \<Longrightarrow> fs w (str ''.dircache'' @ q) = None"
  by (simp add: creatable_def dircache_dir_def)

text \<open>After \<^verbatim>\<open>git --init\<close>, in a new process, the repository is ready for \<^verbatim>\<open>git --add\<close>.\<close>

lemma init_then_ready:
  assumes "creatable w" "env w DB_ENVIRONMENT = None" "\<forall>op p. fault w op p = None" "\<forall>p. room w p = None"
  shows "\<exists>w1 u. main P [prog, str ''--init''] (start_process [] w) = Ret 0 w1 \<and> u = start_process [] w1 \<and>
    (\<forall>p. p \<notin> init_dirs \<longrightarrow> fs u p = fs w p) \<and> (\<forall>p\<in>init_dirs. is_dir u p) \<and> env u = env w \<and> fault u = fault w \<and>
    room u = room w \<and> sha1_file_directory u = DEFAULT_DB_ENVIRONMENT \<and> on_disk E [] u \<and> lockable u"
proof -
  let ?w = "start_process [] w"
  have "creatable ?w" using assms(1) by (simp add: creatable_def start_process_def)
  from init_run [OF this] obtain v where v: "init ?w = Ret 0 v" "keeps_dirs ?w v"
      "\<forall>p\<in>init_dirs. is_dir v p" "\<forall>p. p \<notin> init_dirs \<longrightarrow> fs v p = fs ?w p" by blast
  define w1 where "w1 = printf (str ''Reinitialized existing Git repository!'' @ newline) v"
  have m1: "main P [prog, str ''--init''] ?w = Ret 0 w1"
    unfolding main_init_option run_option_def Let_def v(1) w1_def by (simp del: str_Cons)
  define u where "u = start_process [] w1"
  have fsu: "fs u = fs v" and cfg: "env u = env w" "fault u = fault w" "room u = room w"
    using v(2) by (simp_all add: u_def w1_def start_process_def printf_def keeps_dirs_def same_config_def)
  have dir: "sha1_file_directory u = DEFAULT_DB_ENVIRONMENT"
    using assms(2) cfg by (simp add: sha1_file_directory_def getenv_def)
  have nof: "\<forall>op p. fault u op p = None" using assms(3) cfg by simp
  have kept: "fs u p = fs w p" if "p \<notin> init_dirs" for p
    using v(4) that fsu by (simp add: start_process_def)
  have dirs: "is_dir u p" if "p \<in> init_dirs" for p
    using v(3) that fsu by (simp add: is_dir_def)
  have none: "fs u index_path = None" "fs u index_lock = None"
    using kept [OF not_init_dir(1)] kept [OF not_init_dir(2)] creatable_none [OF assms(1), of "str ''/index''"]
      creatable_none [OF assms(1), of "str ''/index.lock''"] by (simp_all add: index_path_def index_lock_def)
  have "is_dir u DEFAULT_DB_ENVIRONMENT" by (rule dirs) (simp add: init_dirs_def)
  then have "fs u (sha1_file_directory u) \<noteq> None"
    by (auto simp: dir is_dir_def DEFAULT_DB_ENVIRONMENT_def split: option.splits)
  moreover have "active_cache u = None" "active_nr u = 0" "active_alloc u = 0"
    by (simp_all add: u_def start_process_def)
  ultimately have disk: "on_disk E [] u" using nof none by (simp add: on_disk_def)
  have "parent index_lock = dircache_dir" by (simp add: parent_def index_lock_def dircache_dir_def)
  then have "lockable u"
    using none(2) nof assms(4) cfg dirs [of dircache_dir] by (simp add: lockable_def no_fault_def init_dirs_def)
  then show ?thesis using m1 u_def kept dirs cfg dir disk by blast
qed



section \<open>Witnesses\<close>

text \<open>Each property with hypotheses, applied to a concrete input that satisfies them.\<close>

lemma toy_update_cache:
  "\<exists>w'. update_cache toy (\<lambda>_ _. 0) [str ''git'', str ''--add'', str ''f''] (world_of empty_repo) = Ret (Some 0) w'"
  using update_cache_add_run [OF toy_ok(2,1) world_of_dir(2) toy_on_disk_empty toy_lockable toy_option toy_addable,
    of "str ''git''"] by blast

theorem update_cache_atomic_witness:
  "\<exists>r w'. update_cache toy (\<lambda>_ _. 0) [str ''git'', str ''--add'', str ''f''] (world_of empty_repo) = Ret r w' \<and>
     fs w' (str ''f'') = fs (world_of empty_repo) (str ''f'')"
proof -
  let ?w = "world_of empty_repo" and ?argv = "[str ''git'', str ''--add'', str ''f'']"
  obtain w' where w': "update_cache toy (\<lambda>_ _. 0) ?argv ?w = Ret (Some 0) w'" using toy_update_cache by blast
  have "str ''f'' \<noteq> index_lock" "str ''f'' \<noteq> index_path" by (simp_all add: index_lock_def index_path_def)
  then have "fs w' (str ''f'') = fs ?w (str ''f'')"
    using update_cache_atomic [OF toy_ok(1) world_of_dir(2) w', of "str ''f''"] by auto
  with w' show ?thesis by blast
qed


theorem cache_name_pos_correct_witness:
  "\<exists>pos. cache_name_pos (str ''b'') 1 (loaded two_repo) = Some pos"
  using cache_name_pos_correct [of "loaded two_repo" 1 "str ''b''"] by auto

theorem add_cache_entry_refines_witness:
  "\<exists>w'. add_cache_entry (make_ce (str ''b'') toy_stat toy_name) (loaded two_repo) = Ret 0 w' \<and>
     distinct (map ce_name (entries w'))"
  using add_cache_entry_refines [of "loaded two_repo" "make_ce (str ''b'') toy_stat toy_name" "[]"]
  by (auto simp: wf_make_ce toy_name_def)

theorem remove_file_from_cache_drops_last_witness:
  "\<exists>w'. remove_file_from_cache (str ''a'') (loaded two_repo) = Ret () w' \<and>
     last two_entries \<notin> set (entries w')"
proof -
  have "ce_name ` set two_entries = {str ''a'', str ''f''}"
    using arg_cong [OF wf_two_entries(2), of set] by (simp only: set_map list.set)
  moreover have "ce_name (last two_entries) = str ''f''"
    using arg_cong [OF wf_two_entries(2), of last] last_map [of two_entries ce_name] by simp
  ultimately show ?thesis
    using remove_file_from_cache_drops_last [of "loaded two_repo" "str ''a''"] by auto
qed

theorem read_cache_rejects_damage_witness:
  "\<exists>w'. read_cache toy (world_of (repo_with (replicate 40 0) [])) = Ret (- 1) w'"
proof -
  have "index_readable (replicate 40 0) (world_of (repo_with (replicate 40 0) []))"
    by (auto simp: index_readable_def repo_with_def index_path_def DEFAULT_DB_ENVIRONMENT_def)
      (simp add: empty_repo_def repo_dir_def DEFAULT_DB_ENVIRONMENT_def)
  moreover have "get32 (replicate 40 0) 0 \<noteq> CACHE_SIGNATURE" by (simp add: get32_def CACHE_SIGNATURE_def)
  ultimately show ?thesis using read_cache_rejects_damage [of "replicate 40 0" _ toy] by auto
qed

theorem read_cache_empty_crash_witness:
  "read_cache toy (world_of (repo_with (index_bytes toy []) [])) = Undef"
  by (rule read_cache_empty_crash)
    (auto simp: index_readable_def repo_with_def index_bytes_def length_index_header)

theorem get_sha1_hex_accepts_witness: "get_sha1_hex (sha1_to_hex (replicate 20 7)) = Some (replicate 20 7)"
  using get_sha1_hex_accepts [of "[]" "replicate 20 7"] by simp

theorem sha1_file_name_injective_witness:
  "object_path (replicate 20 7) (world_of empty_repo) \<noteq> object_path (replicate 20 8) (world_of empty_repo)"
  using sha1_file_name_injective [of "world_of empty_repo" "replicate 20 7" "replicate 20 8"]
  by (simp add: replicate_eq_replicate)

theorem verify_path_safe_witness: "verify_path (str ''a/b'') \<and> \<not> verify_path (str ''a/../b'')"
  using verify_path_safe [of "str ''a/b''"] verify_path_safe [of "str ''a/../b''"]
  by (simp add: components.simps(2))


text \<open>Objects, trees and commits.\<close>

lemma toy_storable:
  assumes "SHA1 toy (deflate toy [buf]) \<noteq> toy_name"
  shows "storable toy buf (world_of (repo_with d [toy_name]))"
proof -
  let ?s = "SHA1 toy (deflate toy [buf])"
  let ?q = "parent (sha1_file_name DEFAULT_DB_ENVIRONMENT ?s)"
  have dir: "repo_dir ?q" by (rule object_parent_repo_dir) simp
  have "?q \<noteq> index_path" using dir repo_dir_simps(4) by metis
  moreover have "?q \<noteq> sha1_file_name DEFAULT_DB_ENVIRONMENT toy_name"
    using dir object_not_dir [of toy_name] by (auto simp: toy_name_def)
  ultimately have "repo_with d [toy_name] ?q = Some (Directory toy_stat)"
    using dir by (simp add: repo_with_def empty_repo_def)
  moreover have "repo_with d [toy_name] (sha1_file_name DEFAULT_DB_ENVIRONMENT ?s) = None"
    using assms by (intro object_none) (auto simp: toy_name_def)
  ultimately show ?thesis by (simp add: storable_def Let_def object_path_def is_dir_def)
qed

lemma toy_name_other: "SHA1 toy (deflate toy [x]) \<noteq> toy_name"
proof
  assume "SHA1 toy (deflate toy [x]) = toy_name"
  then have "hd (SHA1 toy (deflate toy [x])) = hd toy_name" by simp
  then show False by (simp add: toy_def toy_name_def)
qed


theorem short_write_reported_as_success_witness:
  "\<exists>w' st. write_sha1_buffer (replicate 20 9) [1, 2, 3] ((world_of empty_repo)\<lparr>room := (\<lambda>_. Some 1)\<rparr>) = (0, w') \<and>
    fs w' (object_path (replicate 20 9) (world_of empty_repo)) = Some (Regular st (take 1 [1, 2, 3]))"
proof -
  let ?w = "(world_of empty_repo)\<lparr>room := (\<lambda>_. Some 1)\<rparr>" and ?s = "replicate 20 (9 :: byte)"
  have p: "object_path ?s ?w = sha1_file_name DEFAULT_DB_ENVIRONMENT ?s"
    "object_path ?s (world_of empty_repo) = sha1_file_name DEFAULT_DB_ENVIRONMENT ?s"
    by (simp_all add: object_path_def sha1_file_directory_def getenv_def)
  have "repo_dir (parent (sha1_file_name DEFAULT_DB_ENVIRONMENT ?s))" by (rule object_parent_repo_dir) simp
  then have "is_dir ?w (parent (object_path ?s ?w))"
    unfolding p by (simp add: is_dir_def empty_repo_def)
  moreover have "fs ?w (object_path ?s ?w) = None" unfolding p using object_none(2) [of ?s "[]"] by simp
  moreover have "no_fault q ?w" "room ?w q = Some 1" for q by (simp_all add: no_fault_def)
  ultimately show ?thesis
    using short_write_reported_as_success [of ?w ?s 1 "[1, 2, 3]"] unfolding p by simp
qed

theorem empty_file_not_added_witness:
  "\<exists>w'. add_file_to_cache toy (\<lambda>_ _. 0) (str ''e'') (world_of [str ''e'' \<mapsto> Regular toy_stat []]) = Ret (- 1) w'"
  using empty_file_not_added [of "world_of [str ''e'' \<mapsto> Regular toy_stat []]" "str ''e''" toy_stat toy] by auto

lemma two_repo_objects: "\<forall>ce\<in>set two_entries. has_object (world_of (repo_with d [toy_name])) ce"
  by (auto simp: has_object_def object_path_def repo_with_def)

lemma two_tree_small: "length (tree_body two_entries) < 2 ^ 31"
  using length_tree_item [of "two_entries ! 0"] length_tree_item [of "two_entries ! 1"] wf_two_entries(1)
  by (simp add: two_entries_def) (simp add: make_ce_def)


theorem write_tree_cut_name_witness:
  "\<exists>w'. write_tree toy0 (replicate 24 7) (replicate 24 7) (world_of (repo_with (index_bytes toy0 two_entries) [toy_name])) =
     Ret (0 # replicate 23 7) w'"
proof -
  let ?w = "world_of (repo_with (index_bytes toy0 two_entries) [toy_name])"
  have "on_disk toy0 two_entries ?w" by (rule two_on_disk) simp
  moreover have "\<forall>ce\<in>set two_entries. has_object ?w ce" by (rule two_repo_objects)
  moreover have "SHA1 toy0 x = replicate 20 0" for x by (simp add: toy0_def)
  moreover have "take (Suc (length (cstr (replicate 20 0)))) (replicate 20 (0 :: byte)) @
      drop (Suc (length (cstr (replicate 20 0)))) (replicate 24 7) = 0 # replicate 23 7"
    by (simp add: cstr_def numeral_eq_Suc)
  ultimately show ?thesis
    using write_tree_cut_name [of toy0 two_entries ?w "replicate 24 7" "replicate 24 7"] two_tree_small by auto
qed


theorem index_round_trip_witness:
  "\<exists>w1 w3. write_cache toy index_lock (slots (loaded two_repo)) 2
       (loaded (world_of [index_lock \<mapsto> Regular toy_stat []])) = Ret 0 w1 \<and>
     read_cache toy two_repo = Ret 2 w3 \<and> entries w3 = two_entries"
proof -
  let ?w = "loaded (world_of [index_lock \<mapsto> Regular toy_stat []])"
  obtain w1 where w1: "write_cache toy index_lock (slots ?w) (unat (active_nr ?w)) ?w = Ret 0 w1"
      "fs w1 index_lock = Some (Regular toy_stat (index_bytes toy two_entries))"
  proof
    show "write_cache toy index_lock (slots ?w) (unat (active_nr ?w)) ?w =
        Ret 0 (?w\<lparr>fs := (fs ?w)(index_lock \<mapsto> Regular toy_stat (index_bytes toy (entries ?w)))\<rparr>)"
      by (rule write_cache_ok) simp_all
  qed simp
  have "index_readable (index_bytes toy two_entries) two_repo"
    using two_on_disk [of toy "[toy_name]"] by (simp add: two_repo_def on_disk_def)
  moreover have "fs two_repo index_path = fs w1 index_lock" using w1(2) by (simp add: two_repo_def repo_with_def)
  ultimately show ?thesis
    using index_round_trip [of toy ?w toy_stat w1 "index_bytes toy two_entries" two_repo] w1 by auto
qed

lemma toy_committable: "committable toy toy_user toy_name [] ((world_of empty_repo)\<lparr>stdin := input\<rparr>)"
  if "no_nul input"
  using that
  by (simp add: committable_def real_email_def commit_header_def commit_lines_def committer_strings_def
      toy_user_def getenv_def BLOCKING_def newline_def MAXPARENT_def)

theorem commit_tree_object_witness:
  "\<exists>w' s. commit_tree toy toy_user [str ''git'', str ''--commit''] toy_name (world_of empty_repo) = Ret 0 w' \<and>
    stdout w' = sha1_to_hex s @ newline \<and>
    read_sha1_file toy s w' = Ret (Some (str ''commit'', commit_body toy_user toy_name [] (world_of empty_repo))) w'"
proof -
  let ?w = "world_of empty_repo"
  let ?b = "commit_body toy_user toy_name [] ?w"
  let ?s = "SHA1 toy (deflate toy [frame (str ''commit'') ?b])"
  have w: "?w\<lparr>stdin := []\<rparr> = ?w" by (simp add: world_of_def)
  have "committable toy toy_user toy_name [] ?w" using toy_committable [of "[]"] w by simp
  moreover from this have "40 + length ?b \<le> BLOCKING" by (simp add: committable_def commit_body_def)
  moreover have "storable toy (frame (str ''commit'') ?b) ?w"
    using object_none(2) [of ?s "[]"] object_parent_repo_dir [of ?s]
    by (simp add: storable_def Let_def object_path_def is_dir_def empty_repo_def)
  ultimately show ?thesis
    using commit_tree_object [of toy toy_user toy_name "[]" ?w "[str ''git'', str ''--commit'']"] by simp
qed

theorem commit_tree_overflow_witness:
  "commit_tree toy toy_user [str ''git'', str ''--commit''] toy_name
     ((world_of empty_repo)\<lparr>stdin := replicate 20000 97\<rparr>) = Undef"
proof (rule commit_tree_overflow)
  show "committable toy toy_user toy_name [] ((world_of empty_repo)\<lparr>stdin := replicate 20000 97\<rparr>)"
    by (rule toy_committable) simp
qed (simp_all add: commit_body_def BLOCKING_def)

theorem status_reports_witness:
  "\<exists>w'. status toy [str ''git'', str ''--status'', str ''f''] (world_of empty_repo) = Ret 0 w'"
  using status_reports [OF toy_ok(1) toy_on_disk_empty, of "str ''f''"] by (auto simp: verify_path_def)


theorem remove_function_keeps_index_witness:
  "\<exists>w'. remove_function toy [str ''git'', str ''--rm'', str ''a''] two_repo = Ret () w' \<and> fs w' = fs two_repo"
proof -
  have "on_disk toy two_entries two_repo" unfolding two_repo_def by (rule two_on_disk) simp
  from remove_function_keeps_index [OF toy_ok(1) this, of "str ''git''" "str ''--rm''" "str ''a''"] show ?thesis by blast
qed

theorem remove_function_no_repository_witness:
  "remove_function toy [str ''git'', str ''--rm'', str ''a''] (world_of Map.empty) = Undef"
  by (rule remove_function_no_repository) simp_all

lemma one_file_creatable: "creatable (world_of one_file)" "creatable ((world_of one_file)\<lparr>env := e\<rparr>)"
  by (auto simp: creatable_def one_file_def dircache_dir_def)

theorem init_makes_object_dirs_witness:
  "\<exists>w'. init (world_of one_file) = Ret 0 w' \<and>
     is_dir w' (parent (sha1_file_name DEFAULT_DB_ENVIRONMENT (replicate 20 7)))"
  using init_makes_object_dirs [OF one_file_creatable(1), of "replicate 20 7" "[]"] by auto

theorem init_ignores_environment_witness:
  "\<exists>w'. init ((world_of one_file)\<lparr>env := [DB_ENVIRONMENT \<mapsto> str ''d'']\<rparr>) = Ret 0 w' \<and> is_dir w' dircache_dir"
  using init_ignores_environment [OF _ one_file_creatable(2), of "[DB_ENVIRONMENT \<mapsto> str ''d'']" "str ''d''"]
  by (auto simp: init_dirs_def)

theorem init_existing_witness: "\<exists>w'. init (world_of empty_repo) = Exit 1 w' \<and> fs w' = empty_repo"
  using init_existing [of "world_of empty_repo"] by auto

lemma toy_session: "\<exists>w'. session toy_platform w w' \<and> stdout w' = str ''Completed to Reset!'' @ newline"
proof -
  let ?argv = "[str ''git'', str ''--reset'']" and ?v = "start_process [] w"
  let ?w = "printf (str ''Completed to Reset!'' @ newline) ?v"
  have "main toy_platform ?argv ?v = Ret 0 ?w"
    unfolding main_reset_option run_option_def Let_def by simp
  then have "session toy_platform w ?w"
    using session_run [OF session_start, of toy_platform ?argv "[]" w ?w] by simp
  moreover have "stdout ?w = str ''Completed to Reset!'' @ newline" by (simp add: printf_def start_process_def)
  ultimately show ?thesis by blast
qed



theorem main_add_claims_success_witness:
  "\<exists>w'. main toy_platform [str ''git'', str ''--add'', str ''f'']
       (world_of (empty_repo(index_lock \<mapsto> Regular toy_stat []))) = Ret 0 w' \<and>
     stdout w' = str ''f is added to cache!'' @ newline"
proof -
  have "on_disk toy [] (world_of (empty_repo(index_lock \<mapsto> Regular toy_stat [])))"
    by (simp add: on_disk_def) (simp add: index_path_def index_lock_def)
  then show ?thesis
    using main_add_claims_success [of toy_platform "[]" _ "str ''git''" "str ''f''"] by fastforce
qed


end
